(* ===== verification/Prelude.thy ===== *)
theory Prelude
  imports Main "HOL-Library.Word"
begin

text \<open>
  Shared vocabulary of the development: the C integer types, the errno values, byte order
  conversions as the sources write them (shift and mask), in-place array writes, and the generic
  lemmas on lists and words that the component theories use. The last section holds a locale
  for state machines whose invariant every operation keeps; the components interpret it on
  their own operations.
\<close>

unbundle bit_operations_syntax

named_theorems err_simps \<open>error-branch equations of the operations\<close>
named_theorems inv_intros \<open>preservation of component invariants\<close>
named_theorems byte_simps \<open>byte order conversions\<close>


section \<open>C types and error codes\<close>

type_synonym u8 = "8 word"
type_synonym u16 = "16 word"
type_synonym u32 = "32 word"
type_synonym u64 = "64 word"
type_synonym bytes = "u8 list"

abbreviation ENOENT :: int where "ENOENT \<equiv> 2"
abbreviation EIO :: int where "EIO \<equiv> 5"
abbreviation E2BIG :: int where "E2BIG \<equiv> 7"
abbreviation EAGAIN :: int where "EAGAIN \<equiv> 11"
abbreviation ENOMEM :: int where "ENOMEM \<equiv> 12"
abbreviation EACCES :: int where "EACCES \<equiv> 13"
abbreviation EBUSY :: int where "EBUSY \<equiv> 16"
abbreviation EEXIST :: int where "EEXIST \<equiv> 17"
abbreviation EINVAL :: int where "EINVAL \<equiv> 22"
abbreviation ENOSPC :: int where "ENOSPC \<equiv> 28"
abbreviation ERANGE :: int where "ERANGE \<equiv> 34"
abbreviation ENODATA :: int where "ENODATA \<equiv> 61"
abbreviation EPROTO :: int where "EPROTO \<equiv> 71"
abbreviation EBADMSG :: int where "EBADMSG \<equiv> 74"
abbreviation ENOTCONN :: int where "ENOTCONN \<equiv> 107"
abbreviation ETIMEDOUT :: int where "ETIMEDOUT \<equiv> 110"


section \<open>Byte order conversions\<close>

text \<open>The sources write bytes with \<open>(val >> (8 * i)) & 0xFF\<close> and read them back with shifts
  and \<open>|\<close>; both directions are kept in that form.\<close>

definition byte_of :: "nat \<Rightarrow> 'a::len word \<Rightarrow> u8" where
  "byte_of i v = ucast (drop_bit (8 * i) v AND 0xFF)"

definition le16 :: "u16 \<Rightarrow> bytes" where
  "le16 v = [byte_of 0 v, byte_of 1 v]"

definition le32 :: "u32 \<Rightarrow> bytes" where
  "le32 v = [byte_of 0 v, byte_of 1 v, byte_of 2 v, byte_of 3 v]"

definition be32 :: "u32 \<Rightarrow> bytes" where
  "be32 v = [byte_of 3 v, byte_of 2 v, byte_of 1 v, byte_of 0 v]"

definition le64 :: "u64 \<Rightarrow> bytes" where
  "le64 v = map (\<lambda>i. byte_of i v) [0..<8]"

definition get_le16 :: "bytes \<Rightarrow> u16" where
  "get_le16 b = ucast (b ! 0) OR push_bit 8 (ucast (b ! 1))"

definition get_le32 :: "bytes \<Rightarrow> u32" where
  "get_le32 b = ucast (b ! 0) OR push_bit 8 (ucast (b ! 1)) OR push_bit 16 (ucast (b ! 2))
                OR push_bit 24 (ucast (b ! 3))"

definition get_be32 :: "bytes \<Rightarrow> u32" where
  "get_be32 b = push_bit 24 (ucast (b ! 0)) OR push_bit 16 (ucast (b ! 1))
                OR push_bit 8 (ucast (b ! 2)) OR ucast (b ! 3)"

definition get_le64 :: "bytes \<Rightarrow> u64" where
  "get_le64 b = fold (\<lambda>i v. v OR push_bit (8 * i) (ucast (b ! i))) [0..<8] 0"

lemma length_le16 [simp]: "length (le16 v) = 2"
  by (simp add: le16_def)

lemma length_le32 [simp]: "length (le32 v) = 4"
  by (simp add: le32_def)

lemma length_be32 [simp]: "length (be32 v) = 4"
  by (simp add: be32_def)

lemma length_le64 [simp]: "length (le64 v) = 8"
  by (simp add: le64_def)

lemma bit_byte_of [bit_simps]:
  "bit (byte_of i v) n \<longleftrightarrow> n < 8 \<and> bit (v :: 'a::len word) (8 * i + n)"
proof -
  have "bit (0xFF :: 'a word) n \<longleftrightarrow> n < 8 \<and> n < LENGTH('a)"
  proof -
    have "(0xFF :: 'a word) = mask 8" by (simp add: mask_eq_exp_minus_1)
    then show ?thesis by (simp only: bit_mask_iff) (auto simp: possible_bit_word)
  qed
  then show ?thesis
    by (auto simp: byte_of_def bit_simps dest: bit_imp_le_length)
qed

lemma bit_push_byte:
  "k = 8 * i \<Longrightarrow> bit (push_bit k (ucast (byte_of i (v :: 'a::len word))) :: 'a word) n \<longleftrightarrow>
    k \<le> n \<and> n < k + 8 \<and> bit v n"
  by (auto simp: bit_simps dest: bit_imp_le_length)

lemma bit_byte_0:
  "bit (ucast (byte_of 0 (v :: 'a::len word)) :: 'a word) n \<longleftrightarrow> n < 8 \<and> bit v n"
  using bit_push_byte [of 0 0 v n] by simp

lemma get_le16_le16 [byte_simps, simp]: "get_le16 (le16 v @ r) = v"
  unfolding get_le16_def le16_def
  by (rule bit_eqI) (auto simp: bit_or_iff bit_push_byte bit_byte_0)

lemma get_le32_le32 [byte_simps, simp]: "get_le32 (le32 v @ r) = v"
  unfolding get_le32_def le32_def
  by (rule bit_eqI) (auto simp: bit_or_iff bit_push_byte bit_byte_0)

lemma get_be32_be32 [byte_simps, simp]: "get_be32 (be32 v @ r) = v"
  unfolding get_be32_def be32_def
  by (rule bit_eqI) (auto simp: bit_or_iff bit_push_byte bit_byte_0)

lemma upt_0_8: "[0..<8] = [0, 1, 2, 3, 4, 5, 6, 7]"
  by (simp add: upt_conv_Cons)

lemma get_le64_expand:
  "get_le64 b = ucast (b ! 0) OR push_bit 8 (ucast (b ! 1)) OR push_bit 16 (ucast (b ! 2))
    OR push_bit 24 (ucast (b ! 3)) OR push_bit 32 (ucast (b ! 4)) OR push_bit 40 (ucast (b ! 5))
    OR push_bit 48 (ucast (b ! 6)) OR push_bit 56 (ucast (b ! 7))"
  unfolding get_le64_def upt_0_8 by (simp add: or.assoc)

lemma get_le64_le64 [byte_simps, simp]: "get_le64 (le64 v @ r) = v"
  unfolding get_le64_expand le64_def upt_0_8
  by (rule bit_eqI) (auto simp: bit_or_iff bit_push_byte bit_byte_0)

lemma get_le16_le16' [byte_simps, simp]: "get_le16 (le16 v) = v"
  using get_le16_le16 [of v "[]"] by simp

lemma get_le32_le32' [byte_simps, simp]: "get_le32 (le32 v) = v"
  using get_le32_le32 [of v "[]"] by simp

lemma le32_get_le32: "length bs = 4 \<Longrightarrow> le32 (get_le32 bs) = bs"
proof -
  assume l: "length bs = 4"
  have u: "\<not> bit (b :: u8) (k + n)" if "8 \<le> k" for b k n
    using that bit_imp_le_length [of b "k + n"] by auto
  have "byte_of 0 (get_le32 bs) = bs ! 0" "byte_of 1 (get_le32 bs) = bs ! 1"
    "byte_of 2 (get_le32 bs) = bs ! 2" "byte_of 3 (get_le32 bs) = bs ! 3"
    by (rule bit_eqI; simp add: get_le32_def bit_simps u)+
  with l show ?thesis by (auto simp: le32_def numeral_eq_Suc length_Suc_conv)
qed

lemma get_le64_le64' [byte_simps, simp]: "get_le64 (le64 v) = v"
  using get_le64_le64 [of v "[]"] by simp


lemma xor_cancel_left [simp]: "a XOR d = a XOR e \<longleftrightarrow> d = e" for a :: "'a::len word"
proof
  assume "a XOR d = a XOR e"
  then have "a XOR (a XOR d) = a XOR (a XOR e)" by simp
  then show "d = e" by (simp add: xor.assoc [symmetric])
qed simp

lemma xor_cancel_right [simp]: "d XOR a = e XOR a \<longleftrightarrow> d = e" for a :: "'a::len word"
  by (simp add: xor.commute [of _ a])

lemma ucast_u8_u32_inj [simp]: "(ucast (b :: u8) :: u32) = ucast b' \<longleftrightarrow> b = b'"
proof
  assume "(ucast b :: u32) = ucast b'"
  then have e: "bit (ucast b :: u32) n = bit (ucast b' :: u32) n" for n by simp
  have "n < 8 \<Longrightarrow> bit b n = bit b' n" for n using e [of n] by (simp add: bit_ucast_iff)
  then show "b = b'" by (intro bit_eqI) (simp add: possible_bit_word)
qed simp

text \<open>A fact on bytes is a finite conjunction.\<close>

lemma unat_u32_less: "unat (a :: u32) < 2 ^ 32"
proof -
  have "unat a < 2 ^ LENGTH(32)" by (rule unsigned_less)
  then show ?thesis by simp
qed

lemma unat_u32_less_num: "unat (a :: u32) < 4294967296"
  using unat_u32_less [of a] by simp

lemma unat_ucast_u32_u64 [simp]: "unat (ucast (w :: u32) :: u64) = unat w"
proof -
  have "take_bit 64 (unat w) = unat w" 
    using unat_u32_less [of w] by (intro take_bit_nat_eq_self) simp
  then show ?thesis by (simp add: unsigned_ucast_eq)
qed

lemma mod_add_inj:
  fixes a x y n :: nat
  assumes eq: "(a + x) mod n = (a + y) mod n" and x: "x < n" and y: "y < n"
  shows "x = y"
proof -
  have le: "u = v" if e: "(a + u) mod n = (a + v) mod n" and uv: "u \<le> v" and v: "v < n" for u v
  proof -
    have "n dvd (a + v) - (a + u)"
      using e uv by (subst mod_eq_dvd_iff_nat [symmetric]) auto
    then have "n dvd v - u" by simp
    then show ?thesis using uv v by (metis dvd_imp_le diff_is_0_eq le_antisym less_imp_diff_less linorder_not_le not_gr_zero)
  qed
  show ?thesis
    using le [of x y] le [of y x] eq x y by (cases "x \<le> y") auto
qed

lemma drop_concat_blocks:
  assumes "\<forall>x\<in>set xs. length (f x) = k"
  shows "drop (i * k) (concat (map f xs)) = concat (map f (drop i xs))"
  using assms
proof (induction xs arbitrary: i)
  case (Cons x xs)
  then show ?case by (cases i) simp_all
qed simp

lemma length_concat_blocks:
  "\<forall>x\<in>set xs. length (f x) = k \<Longrightarrow> length (concat (map f xs)) = length xs * k"
  by (induction xs) auto

lemma unat_u8_less [simp]: "unat (a :: u8) < 256"
proof -
  have "unat a < 2 ^ LENGTH(8)" by (rule unsigned_less)
  then show ?thesis by simp
qed

lemma u8_all: "list_all P (map of_nat [0..<256]) \<Longrightarrow> P (a :: u8)"
proof -
  assume "list_all P (map of_nat [0..<256])"
  then have "\<forall>n \<in> {0..<256}. P (of_nat n)" by (simp add: list_all_iff)
  from bspec [OF this, of "unat a"] show ?thesis by simp
qed

lemma unat_of_nat_small: "n < 2 ^ LENGTH('a) \<Longrightarrow> unat (of_nat n :: 'a::len word) = n"
  by (simp add: unat_of_nat)


section \<open>Arrays\<close>

text \<open>\<^term>\<open>wr_bytes p bs buf\<close> stores \<open>bs\<close> at offset \<open>p\<close> of an array, as \<open>memcpy\<close> and a loop of
  stores do.\<close>

fun wr_bytes :: "nat \<Rightarrow> 'a list \<Rightarrow> 'a list \<Rightarrow> 'a list" where
  "wr_bytes p [] buf = buf" |
  "wr_bytes p (b # bs) buf = wr_bytes (Suc p) bs (buf[p := b])"

definition subarr :: "nat \<Rightarrow> nat \<Rightarrow> 'a list \<Rightarrow> 'a list" where
  "subarr p n xs = take n (drop p xs)"

lemma length_wr_bytes [simp]: "length (wr_bytes p bs buf) = length buf"
  by (induction p bs buf rule: wr_bytes.induct) auto

lemma take_wr_bytes:
  "p + length bs \<le> length buf \<Longrightarrow> take (p + length bs) (wr_bytes p bs buf) = take p buf @ bs"
proof (induction p bs buf rule: wr_bytes.induct)
  case (2 p b bs buf)
  then show ?case by (simp add: take_Suc_conv_app_nth)
qed simp

lemma drop_wr_bytes:
  "p + length bs \<le> q \<Longrightarrow> drop q (wr_bytes p bs buf) = drop q buf"
  by (induction p bs buf rule: wr_bytes.induct) auto

lemma length_subarr [simp]: "length (subarr p n xs) = min n (length xs - p)"
  by (simp add: subarr_def)

lemma subarr_append [simp]: "length xs = p \<Longrightarrow> length ys = n \<Longrightarrow> subarr p n (xs @ ys @ zs) = ys"
  by (simp add: subarr_def)

lemma nth_subarr [simp]: "i < n \<Longrightarrow> p + i < length xs \<Longrightarrow> subarr p n xs ! i = xs ! (p + i)"
  by (simp add: subarr_def)


section \<open>State machines with an invariant\<close>

text \<open>A component is a start state and a set of operations, each a total function on the state
  with an argument; \<open>run\<close> executes a sequence of them. An invariant that holds at the start
  and that every admissible operation keeps holds after every admissible sequence.\<close>

locale op_machine =
  fixes step :: "'op \<Rightarrow> 's \<Rightarrow> 's"
    and ok :: "'op \<Rightarrow> 's \<Rightarrow> bool"
    and inv :: "'s \<Rightarrow> bool"
  assumes step_inv: "inv s \<Longrightarrow> ok a s \<Longrightarrow> inv (step a s)"
begin

fun run :: "'op list \<Rightarrow> 's \<Rightarrow> 's" where
  "run [] s = s" |
  "run (a # as) s = run as (step a s)"

fun all_ok :: "'op list \<Rightarrow> 's \<Rightarrow> bool" where
  "all_ok [] s = True" |
  "all_ok (a # as) s = (ok a s \<and> all_ok as (step a s))"

lemma run_inv: "inv s \<Longrightarrow> all_ok as s \<Longrightarrow> inv (run as s)"
  by (induction as arbitrary: s) (auto intro: step_inv)

lemma run_fold: "run as s = fold step as s"
  by (induction as arbitrary: s) auto

lemma run_append: "run (as @ bs) s = run bs (run as s)"
  by (induction as arbitrary: s) auto

end

end
