(* ===== verification/ShardMap.thy ===== *)
theory ShardMap
  imports Prelude "HOL-Library.Multiset"
begin

text \<open>
  The range based shard map of \<open>powerfs_net_shard.c\<close> and the arithmetic shard formula of
  \<open>powerfs_net_conn.c\<close>. The map is a fixed array of 64 entries of which the first \<open>entry_count\<close>
  are valid; \<open>shard_map_route\<close> is a binary search over signed indices, \<open>shard_map_from_entries\<close>
  decodes a blob of 25 byte records and insertion-sorts them in place. The lock around each
  operation makes it one atomic step on the map. A blob comes out of one network frame, so the
  conversion of its record cnt to \<open>int\<close> is exact.
\<close>

abbreviation POWERFS_MAX_SHARDS :: nat where "POWERFS_MAX_SHARDS \<equiv> 64"

record shard_map_entry =
  range_start :: u64
  range_end :: u64
  shard_id :: u64

record shard_map =
  sm_entries :: "shard_map_entry list"
  sm_count :: nat

text \<open>The loop of the binary search: \<open>lo\<close>, \<open>hi\<close> are C ints, \<open>idx\<close> the best index so far.\<close>

function shard_search :: "shard_map_entry list \<Rightarrow> u64 \<Rightarrow> int \<Rightarrow> int \<Rightarrow> int \<Rightarrow> int" where
  "shard_search es inode lo hi idx =
    (if lo \<le> hi then
       let mid = lo + (hi - lo) div 2 in
       if range_start (es ! nat mid) \<le> inode
       then shard_search es inode (mid + 1) hi mid
       else shard_search es inode lo (mid - 1) idx
     else idx)"
  by pat_completeness auto
termination
proof (relation "measure (\<lambda>(es, inode, lo, hi, idx). nat (hi - lo + 1))", goal_cases)
  case (2 es inode lo hi idx mid)
  have "nat (hi - (mid + 1) + 1) < nat (hi - lo + 1)" using 2(1,2) by linarith
  then show ?case by simp
next
  case (3 es inode lo hi idx mid)
  have "nat ((mid - 1) - lo + 1) < nat (hi - lo + 1)" using 3(1,2) by linarith
  then show ?case by simp
qed (rule wf_measure)

declare shard_search.simps [simp del]

definition shard_map_route :: "shard_map \<Rightarrow> u64 \<Rightarrow> u64" where
  "shard_map_route m inode =
    (if sm_count m = 0 then 0
     else shard_id (sm_entries m !
       nat (shard_search (sm_entries m) inode 0 (int (sm_count m) - 1) 0)))"

text \<open>One iteration of the filling loop of \<open>from_shard_count\<close>; the running \<open>start\<close> is the second
  component of the loop state.\<close>

definition shard_fill :: "nat \<Rightarrow> shard_map_entry list \<times> u64 \<Rightarrow> shard_map_entry list \<times> u64" where
  "shard_fill i = (\<lambda>(es, start).
    (es[i := \<lparr>range_start = start, range_end = start + 1000000, shard_id = of_nat i\<rparr>],
     start + 1000000))"

definition shard_map_from_shard_count :: "u64 \<Rightarrow> shard_map \<Rightarrow> shard_map" where
  "shard_map_from_shard_count cnt m =
    (let cnt = (if cnt = 0 \<or> cnt > of_nat POWERFS_MAX_SHARDS then 1 else cnt) in
     m\<lparr>sm_count := unat cnt,
       sm_entries := fst (fold shard_fill [0..<unat cnt] (sm_entries m, 0))\<rparr>)"

definition shard_entry_decode :: "bytes \<Rightarrow> nat \<Rightarrow> shard_map_entry" where
  "shard_entry_decode blob i =
    \<lparr>range_start = get_le64 (subarr (i * 25) 8 blob),
     range_end = get_le64 (subarr (i * 25 + 8) 8 blob),
     shard_id = get_le64 (subarr (i * 25 + 16) 8 blob)\<rparr>"

text \<open>The inner loop of the insertion sort; the last argument is \<open>j + 1\<close>.\<close>

fun shard_sift :: "shard_map_entry list \<Rightarrow> shard_map_entry \<Rightarrow> nat \<Rightarrow> shard_map_entry list" where
  "shard_sift es tmp 0 = es[0 := tmp]" |
  "shard_sift es tmp (Suc j) =
    (if range_start (es ! j) > range_start tmp then shard_sift (es[Suc j := es ! j]) tmp j
     else es[Suc j := tmp])"

definition shard_sort :: "nat \<Rightarrow> shard_map_entry list \<Rightarrow> shard_map_entry list" where
  "shard_sort n es = fold (\<lambda>i es. shard_sift es (es ! i) i) [1..<n] es"

definition shard_map_from_entries :: "bytes option \<Rightarrow> nat \<Rightarrow> shard_map \<Rightarrow> int \<times> shard_map" where
  "shard_map_from_entries blob len m =
    (case blob of None \<Rightarrow> (- EINVAL, m)
     | Some b \<Rightarrow>
       if len = 0 then (- EINVAL, m)
       else let n = len div 25 in
       if n = 0 \<or> n > POWERFS_MAX_SHARDS then (- EINVAL, m)
       else let es = fold (\<lambda>i es. es[i := shard_entry_decode b i]) [0..<n] (sm_entries m) in
       (0, m\<lparr>sm_count := n, sm_entries := shard_sort n es\<rparr>))"

definition powerfs_calc_shard_id :: "u64 \<Rightarrow> u64 \<Rightarrow> u64" where
  "powerfs_calc_shard_id shard_count inode =
    (if shard_count \<le> 1 then 0 else (inode div 1000000) mod shard_count)"

text \<open>The array has 64 slots and the valid prefix is sorted by range start.\<close>

definition shard_map_wf :: "shard_map \<Rightarrow> bool" where
  "shard_map_wf m \<longleftrightarrow> length (sm_entries m) = POWERFS_MAX_SHARDS \<and> sm_count m \<le> POWERFS_MAX_SHARDS \<and>
    sorted (map range_start (take (sm_count m) (sm_entries m)))"

text \<open>Reference lookup: the last valid entry that starts at or below the inode, else the first.\<close>

definition route_ref :: "shard_map_entry list \<Rightarrow> u64 \<Rightarrow> u64" where
  "route_ref es inode =
    (let below = filter (\<lambda>e. range_start e \<le> inode) es in
     if es = [] then 0 else if below = [] then shard_id (hd es) else shard_id (last below))"


section \<open>Binary search\<close>

lemma shard_search_spec:
  assumes "sorted (map range_start (take n es))" "n \<le> length es"
    "0 \<le> lo" "hi < int n" "lo \<le> hi + 1"
    "\<And>i. i < nat lo \<Longrightarrow> range_start (es ! i) \<le> inode"
    "\<And>i. nat (hi + 1) \<le> i \<Longrightarrow> i < n \<Longrightarrow> inode < range_start (es ! i)"
    "idx = (if lo = 0 then 0 else lo - 1)"
  shows "\<exists>k \<le> n. (\<forall>i < k. range_start (es ! i) \<le> inode) \<and> (\<forall>i. k \<le> i \<longrightarrow> i < n \<longrightarrow> inode < range_start (es ! i))
    \<and> shard_search es inode lo hi idx = (if k = 0 then 0 else int k - 1)"
  using assms
proof (induction es inode lo hi idx rule: shard_search.induct)
  case (1 es inode lo hi idx)
  have mono: "i \<le> j \<Longrightarrow> j < n \<Longrightarrow> range_start (es ! i) \<le> range_start (es ! j)" for i j
    using sorted_nth_mono [OF "1.prems"(1), of i j] "1.prems"(2) by simp
  show ?case
  proof (cases "lo \<le> hi")
    case False
    then have "lo = hi + 1" using "1.prems"(5) by simp
    then show ?thesis using False "1.prems"
      by (intro exI [of _ "nat lo"]) (auto simp: shard_search.simps nat_less_iff)
  next
    case True
    define mid where "mid = lo + (hi - lo) div 2"
    have mid: "lo \<le> mid" "mid \<le> hi" unfolding mid_def using True by linarith+
    have midn: "nat mid < n" "0 \<le> mid" using mid "1.prems"(3,4) by linarith+
    have step: "shard_search es inode lo hi idx = (if range_start (es ! nat mid) \<le> inode
        then shard_search es inode (mid + 1) hi mid else shard_search es inode lo (mid - 1) idx)"
      using True by (subst shard_search.simps) (simp add: Let_def mid_def)
    show ?thesis
    proof (cases "range_start (es ! nat mid) \<le> inode")
      case hit: True
      have low: "range_start (es ! i) \<le> inode" if "i < nat (mid + 1)" for i
        using order_trans [OF mono [of i "nat mid"] hit] that midn by linarith
      have "\<exists>k \<le> n. (\<forall>i < k. range_start (es ! i) \<le> inode) \<and> (\<forall>i. k \<le> i \<longrightarrow> i < n \<longrightarrow> inode < range_start (es ! i))
          \<and> shard_search es inode (mid + 1) hi mid = (if k = 0 then 0 else int k - 1)"
        by (rule "1.IH"(1) [OF True mid_def hit])
           (use "1.prems"(1-5,7) mid low in \<open>simp_all split: if_splits\<close>)
      then show ?thesis using hit step by simp
    next
      case miss: False
      have high: "inode < range_start (es ! i)" if "nat (mid - 1 + 1) \<le> i" "i < n" for i
        using that mono [of "nat mid" i] miss by (simp add: not_le order_less_le_trans)
      have "\<exists>k \<le> n. (\<forall>i < k. range_start (es ! i) \<le> inode) \<and> (\<forall>i. k \<le> i \<longrightarrow> i < n \<longrightarrow> inode < range_start (es ! i))
          \<and> shard_search es inode lo (mid - 1) idx = (if k = 0 then 0 else int k - 1)"
        by (rule "1.IH"(2) [OF True mid_def miss])
           (use "1.prems"(1-6,8) mid high in \<open>simp_all split: if_splits\<close>)
      then show ?thesis using miss step by simp
    qed
  qed
qed

lemma filter_prefix:
  assumes "k \<le> length xs" "\<forall>i < k. P (xs ! i)" "\<forall>i. k \<le> i \<longrightarrow> i < length xs \<longrightarrow> \<not> P (xs ! i)"
  shows "filter P xs = take k xs"
proof -
  have "filter P (take k xs) = take k xs"
    using assms(1,2) by (auto simp: filter_id_conv in_set_conv_nth)
  moreover have "filter P (drop k xs) = []"
    using assms(3) by (auto simp: filter_empty_conv in_set_conv_nth)
  ultimately show ?thesis
    by (metis append_Nil2 append_take_drop_id filter_append)
qed

lemma route_eq_ref:
  assumes "shard_map_wf m"
  shows "shard_map_route m inode = route_ref (take (sm_count m) (sm_entries m)) inode"
proof (cases "sm_count m = 0")
  case False
  let ?n = "sm_count m" and ?es = "sm_entries m"
  have wf: "?n \<le> length ?es" "sorted (map range_start (take ?n ?es))"
    using assms by (auto simp: shard_map_wf_def)
  obtain k where k: "k \<le> ?n" "\<forall>i < k. range_start (?es ! i) \<le> inode"
    "\<forall>i. k \<le> i \<longrightarrow> i < ?n \<longrightarrow> inode < range_start (?es ! i)"
    "shard_search ?es inode 0 (int ?n - 1) 0 = (if k = 0 then 0 else int k - 1)"
    using shard_search_spec [OF wf(2,1), of 0 "int ?n - 1" inode 0] by auto
  have f: "filter (\<lambda>e. range_start e \<le> inode) (take ?n ?es) = take k ?es"
    using filter_prefix [of k "take ?n ?es" "\<lambda>e. range_start e \<le> inode"] k wf(1)
    by (auto simp: not_le min_def)
  have "take ?n ?es \<noteq> []" using False wf(1) by auto
  moreover have "take k ?es \<noteq> [] \<Longrightarrow> last (take k ?es) = ?es ! (k - 1)"
    using k(1) wf(1) by (auto simp: last_conv_nth)
  moreover have "nat (int k - 1) = k - 1" by simp
  ultimately show ?thesis using False k wf(1) f
    by (auto simp: shard_map_route_def route_ref_def hd_conv_nth)
qed (simp add: shard_map_route_def route_ref_def)


section \<open>Insertion sort\<close>

lemma length_shard_sift [simp]: "length (shard_sift es tmp j) = length es"
  by (induction es tmp j rule: shard_sift.induct) auto

lemma drop_shard_sift: "drop (Suc j) (shard_sift es tmp j) = drop (Suc j) es"
proof (induction es tmp j rule: shard_sift.induct)
  case (2 es tmp j)
  show ?case
  proof (cases "range_start tmp < range_start (es ! j)")
    case True
    then have "drop (Suc j) (shard_sift es tmp (Suc j)) = drop (Suc j) (es[Suc j := es ! j])"
      using 2 by simp
    from arg_cong [OF this, of "drop 1"] show ?thesis by simp
  qed simp
qed simp

lemma shard_sift_take:
  assumes "sorted (map range_start (take j es))" "j < length es"
  shows "sorted (map range_start (take (Suc j) (shard_sift es tmp j))) \<and>
    mset (take (Suc j) (shard_sift es tmp j)) = add_mset tmp (mset (take j es)) \<and>
    (\<forall>k. filter (\<lambda>e. range_start e = k) (take (Suc j) (shard_sift es tmp j)) =
         filter (\<lambda>e. range_start e = k) (take j es @ [tmp]))"
  using assms
proof (induction es tmp j rule: shard_sift.induct)
  case (1 es tmp)
  then show ?case by (simp add: take_Suc_conv_app_nth)
next
  case (2 es tmp j)
  have tj: "take (Suc j) es = take j es @ [es ! j]" using 2(3) by (simp add: take_Suc_conv_app_nth)
  have s: "sorted (map range_start (take j es))" "\<forall>e \<in> set (take j es). range_start e \<le> range_start (es ! j)"
    using 2(2) unfolding tj by (auto simp: sorted_append)
  show ?case
  proof (cases "range_start tmp < range_start (es ! j)")
    case False
    then have "take (Suc (Suc j)) (shard_sift es tmp (Suc j)) = take (Suc j) es @ [tmp]"
      using 2(3) by (simp add: take_Suc_conv_app_nth)
    then show ?thesis using 2(2) False s(2) tj by (auto simp: sorted_append not_less)
  next
    case True
    let ?es = "es[Suc j := es ! j]" and ?r = "shard_sift (es[Suc j := es ! j]) tmp j"
    have t: "take j ?es = take j es" by simp
    note IH = 2(1) [OF True] and d = drop_shard_sift [of j ?es tmp]
    have ih: "sorted (map range_start (take (Suc j) ?r))"
      "mset (take (Suc j) ?r) = add_mset tmp (mset (take j es))"
      "\<And>k. filter (\<lambda>e. range_start e = k) (take (Suc j) ?r) =
         filter (\<lambda>e. range_start e = k) (take j es @ [tmp])"
      using IH s(1) 2(3) t by auto
    have "?r ! Suc j = es ! j"
      using d 2(3) by (metis Cons_nth_drop_Suc length_list_update length_shard_sift list.sel(1)
          nth_list_update_eq)
    then have r: "take (Suc (Suc j)) ?r = take (Suc j) ?r @ [es ! j]"
      using 2(3) by (simp add: take_Suc_conv_app_nth)
    have "set (take (Suc j) ?r) = insert tmp (set (take j es))"
      using arg_cong [OF ih(2), of set_mset] by simp
    then have "sorted (map range_start (take (Suc j) ?r @ [es ! j]))"
      using ih(1) True s(2) by (auto simp: sorted_append)
    then show ?thesis using True r tj ih(2,3) by auto
  qed
qed

lemma shard_sort_prefix:
  assumes "0 < n" "n \<le> length es"
  shows "length (shard_sort n es) = length es \<and> drop n (shard_sort n es) = drop n es \<and>
    sorted (map range_start (take n (shard_sort n es))) \<and>
    mset (take n (shard_sort n es)) = mset (take n es) \<and>
    (\<forall>k. filter (\<lambda>e. range_start e = k) (take n (shard_sort n es)) =
         filter (\<lambda>e. range_start e = k) (take n es))"
  using assms
proof (induction n)
  case (Suc n)
  show ?case
  proof (cases "n = 0")
    case True
    then show ?thesis using Suc.prems by (cases es) (simp_all add: shard_sort_def)
  next
    case False
    let ?s = "shard_sort n es"
    have e: "shard_sort (Suc n) es = shard_sift ?s (?s ! n) n"
      using False by (simp add: shard_sort_def)
    have IH: "length ?s = length es" "drop n ?s = drop n es" "sorted (map range_start (take n ?s))"
      "mset (take n ?s) = mset (take n es)"
      "\<And>k. filter (\<lambda>e. range_start e = k) (take n ?s) = filter (\<lambda>e. range_start e = k) (take n es)"
      using Suc False by auto
    have n: "?s ! n = es ! n" "drop (Suc n) ?s = drop (Suc n) es"
      using IH(1,2) Suc.prems(2) by (metis Cons_nth_drop_Suc Suc_le_lessD list.inject)+
    have t: "take (Suc n) es = take n es @ [es ! n]"
      using Suc.prems by (simp add: take_Suc_conv_app_nth)
    show ?thesis
      using shard_sift_take [OF IH(3), of "es ! n"] drop_shard_sift [of n ?s "es ! n"]
        IH(1,4,5) n Suc.prems(2) by (simp add: e t)
  qed
qed simp

lemma shard_sort_eq_sort_key:
  assumes "n \<le> length es"
  shows "take n (shard_sort n es) = sort_key range_start (take n es)"
proof (cases "n = 0")
  case False
  note p = shard_sort_prefix [of n es]
  have c: "(\<lambda>e. range_start k = range_start e) = (\<lambda>e. range_start e = range_start k)"
    for k :: shard_map_entry by auto
  have "sort_key range_start (take n es) = take n (shard_sort n es)"
    by (rule properties_for_sort_key) (use p False assms in \<open>simp_all add: c\<close>)
  then show ?thesis by simp
qed simp


section \<open>Construction of the map\<close>

lemma fold_fill:
  "n \<le> length es \<Longrightarrow> fold (\<lambda>i es. es[i := f i]) [0..<n] es = map f [0..<n] @ drop n es"
proof (induction n)
  case (Suc n)
  then have "drop n es = es ! n # drop (Suc n) es" by (simp add: Cons_nth_drop_Suc)
  with Suc show ?case by (simp add: list_update_append)
qed simp

definition even_entry :: "nat \<Rightarrow> shard_map_entry" where
  "even_entry i = \<lparr>range_start = of_nat (i * 1000000), range_end = of_nat (i * 1000000) + 1000000,
     shard_id = of_nat i\<rparr>"

lemma fold_shard_fill:
  "n \<le> length es \<Longrightarrow>
    fold shard_fill [0..<n] (es, 0) = (map even_entry [0..<n] @ drop n es, of_nat (n * 1000000))"
proof (induction n)
  case (Suc n)
  then have "drop n es = es ! n # drop (Suc n) es" by (simp add: Cons_nth_drop_Suc)
  with Suc show ?case by (simp add: shard_fill_def even_entry_def list_update_append)
qed simp

lemma even_entry_le:
  assumes "i < 64"
  shows "range_start (even_entry i) \<le> inode \<longleftrightarrow> i \<le> unat inode div 1000000"
proof -
  have "unat (of_nat (i * 1000000) :: u64) = i * 1000000"
    by (rule unat_of_nat_small) (use assms in simp)
  then show ?thesis
    by (simp add: even_entry_def word_le_nat_alt less_eq_div_iff_mult_less_eq)
qed

lemma from_shard_count_wf:
  assumes "length (sm_entries m) = POWERFS_MAX_SHARDS" "0 < n" "n \<le> POWERFS_MAX_SHARDS"
  shows "shard_map_wf (shard_map_from_shard_count (of_nat n) m)"
    "sm_count (shard_map_from_shard_count (of_nat n) m) = n"
    "take n (sm_entries (shard_map_from_shard_count (of_nat n) m)) = map even_entry [0..<n]"
proof -
  have u: "unat (of_nat n :: u64) = n" by (rule unat_of_nat_small) (use assms(3) in simp)
  then have c: "(of_nat n :: u64) \<noteq> 0" "\<not> (of_nat n :: u64) > of_nat POWERFS_MAX_SHARDS"
    using assms(2,3) by (auto simp: word_less_nat_alt)
  have eq: "shard_map_from_shard_count (of_nat n) m =
      m\<lparr>sm_count := n, sm_entries := map even_entry [0..<n] @ drop n (sm_entries m)\<rparr>"
    using c u assms(1,3) fold_shard_fill [of n "sm_entries m"]
    by (simp add: shard_map_from_shard_count_def)
  have "sorted (map (range_start \<circ> even_entry) [0..<n])"
    unfolding sorted_iff_nth_mono
  proof (intro allI impI)
    fix i j assume "i \<le> j" "j < length (map (range_start \<circ> even_entry) [0..<n])"
    moreover from this have "i * 1000000 \<le> unat (of_nat (j * 1000000) :: u64)"
      using assms(3) unat_of_nat_small [of "j * 1000000", where 'a = 64] by simp
    ultimately show "map (range_start \<circ> even_entry) [0..<n] ! i \<le> map (range_start \<circ> even_entry) [0..<n] ! j"
      using even_entry_le [of i "range_start (even_entry j)"] assms(3)
      by (simp add: even_entry_def less_eq_div_iff_mult_less_eq)
  qed
  then show "shard_map_wf (shard_map_from_shard_count (of_nat n) m)"
    "sm_count (shard_map_from_shard_count (of_nat n) m) = n"
    "take n (sm_entries (shard_map_from_shard_count (of_nat n) m)) = map even_entry [0..<n]"
    using assms by (simp_all add: eq shard_map_wf_def)
qed

lemma route_even:
  assumes "length (sm_entries m) = POWERFS_MAX_SHARDS" "0 < n" "n \<le> POWERFS_MAX_SHARDS"
  shows "shard_map_route (shard_map_from_shard_count (of_nat n) m) inode =
    of_nat (min (unat inode div 1000000) (n - 1))"
proof -
  let ?q = "unat inode div 1000000" and ?es = "map even_entry [0..<n]"
  define k where "k = min n (?q + 1)"
  have "filter (\<lambda>e. range_start e \<le> inode) ?es = take k ?es"
    by (rule filter_prefix) (use assms(3) in \<open>auto simp: k_def even_entry_le\<close>)
  moreover have "take k ?es = map even_entry [0..<k]" by (simp add: k_def take_map)
  moreover have "k > 0" using assms(2) by (simp add: k_def)
  ultimately have "route_ref ?es inode = of_nat (k - 1)"
    using assms(2) by (simp add: route_ref_def last_map even_entry_def)
  moreover have "k - 1 = min ?q (n - 1)" using assms(2) by (simp add: k_def)
  ultimately show ?thesis
    using route_eq_ref from_shard_count_wf [OF assms] by metis
qed

lemma from_entries_ok:
  assumes "length (sm_entries m) = POWERFS_MAX_SHARDS" "1 \<le> len div 25" "len div 25 \<le> POWERFS_MAX_SHARDS"
    "n = len div 25" "es = map (shard_entry_decode b) [0..<n]"
    "shard_map_from_entries (Some b) len m = (ret, m')"
  shows "ret = 0 \<and> shard_map_wf m' \<and> sm_count m' = n \<and> take n (sm_entries m') = sort_key range_start es"
proof -
  let ?f = "es @ drop n (sm_entries m)"
  have n: "0 < n" "n \<le> length ?f" "n \<le> 64" using assms(2-5) by simp_all
  have ret: "ret = 0" "m' = m\<lparr>sm_count := n, sm_entries := shard_sort n ?f\<rparr>"
    using assms n fold_fill [of n "sm_entries m" "shard_entry_decode b"]
    by (auto simp: shard_map_from_entries_def Let_def split: if_splits)
  have "take n ?f = es" using assms(5) by simp
  then have "take n (shard_sort n ?f) = sort_key range_start es"
    using shard_sort_eq_sort_key [OF n(2)] by simp
  then show ?thesis
    using ret shard_sort_prefix [OF n(1,2)] n(3) assms(1,5) by (simp add: shard_map_wf_def)
qed


section \<open>Properties\<close>

text \<open>On a map whose valid entries are sorted, the binary search routes every inode to the shard
  of the last entry that starts at or below it, to the first entry's shard when all start above it,
  and to shard 0 when the map is empty; the search terminates and stays inside the valid entries.\<close>

theorem shard_map_route_correct:
  assumes "shard_map_wf m"
  shows "shard_map_route m inode = route_ref (take (sm_count m) (sm_entries m)) inode"
  using route_eq_ref [OF assms] .

theorem shard_map_route_correct_witness:
  "shard_map_route (shard_map_from_shard_count 3 \<lparr>sm_entries = replicate 64 (even_entry 0), sm_count = 0\<rparr>) 2500000
   = route_ref (map even_entry [0..<3]) 2500000"
proof -
  let ?m = "\<lparr>sm_entries = replicate 64 (even_entry 0), sm_count = 0\<rparr>"
  have w: "shard_map_wf (shard_map_from_shard_count 3 ?m)"
    "sm_count (shard_map_from_shard_count 3 ?m) = 3"
    "take 3 (sm_entries (shard_map_from_shard_count 3 ?m)) = map even_entry [0..<3]"
    using from_shard_count_wf [of ?m 3] by simp_all
  show ?thesis using shard_map_route_correct [OF w(1), of 2500000] unfolding w(2,3) .
qed

text \<open>C13: Installing the entries blob of the Master succeeds exactly when it holds between 1 and 64
  records; then the map holds the decoded records stably sorted by range start, and routing on it is
  the reference lookup over the sorted records. A refused blob leaves the map unchanged.\<close>

theorem shard_map_from_entries_correct:
  assumes "length (sm_entries m) = POWERFS_MAX_SHARDS" "n = len div 25"
    "es = map (shard_entry_decode b) [0..<n]" "shard_map_from_entries (Some b) len m = (ret, m')"
  shows "if 1 \<le> n \<and> n \<le> POWERFS_MAX_SHARDS
    then ret = 0 \<and> shard_map_wf m' \<and> take (sm_count m') (sm_entries m') = sort_key range_start es \<and>
      shard_map_route m' inode = route_ref (sort_key range_start es) inode
    else ret = - EINVAL \<and> m' = m"
proof (cases "1 \<le> n \<and> n \<le> POWERFS_MAX_SHARDS")
  case True
  then show ?thesis
    using from_entries_ok [OF assms(1) _ _ assms(2-4)] assms(2) route_eq_ref [of m' inode] by simp
next
  case False
  then show ?thesis using assms(2,4)
    by (auto simp: shard_map_from_entries_def Let_def split: if_splits)
qed

theorem shard_map_from_entries_correct_witness:
  "fst (shard_map_from_entries (Some (replicate 50 0)) 50
     \<lparr>sm_entries = replicate 64 (even_entry 0), sm_count = 0\<rparr>) = 0"
proof -
  let ?m = "\<lparr>sm_entries = replicate 64 (even_entry 0), sm_count = 0\<rparr>"
  obtain r m' where e: "shard_map_from_entries (Some (replicate 50 0)) 50 ?m = (r, m')"
    by (cases "shard_map_from_entries (Some (replicate 50 0)) 50 ?m")
  show ?thesis using shard_map_from_entries_correct [OF _ refl refl e, of 0] e by simp
qed

text \<open>After \<open>shard_map_from_shard_count\<close> with 1 to 64 shards, the range map sends an inode to its
  million-block, capped at the last shard, and this agrees with the modulo formula of
  \<open>powerfs_calc_shard_id\<close> exactly when the block number is below the shard count or congruent to the
  last shard: the two routing rules used by the client diverge on every other inode.\<close>

theorem shard_map_vs_calc_shard_id:
  assumes "length (sm_entries m) = POWERFS_MAX_SHARDS" "1 < n" "n \<le> POWERFS_MAX_SHARDS"
    "m' = shard_map_from_shard_count (of_nat n) m" "q = unat inode div 1000000"
  shows "shard_map_route m' inode = of_nat (min q (n - 1)) \<and>
    (shard_map_route m' inode = powerfs_calc_shard_id (of_nat n) inode \<longleftrightarrow> q < n \<or> q mod n = n - 1)"
proof -
  have r: "shard_map_route m' inode = of_nat (min q (n - 1))"
    using route_even [OF assms(1) _ assms(3)] assms(2,4,5) by simp
  have u: "unat (of_nat n :: u64) = n" "n < 2 ^ 64"
    using assms(3) by (simp_all add: unat_of_nat_small)
  then have "\<not> (of_nat n :: u64) \<le> 1" using assms(2) by (simp add: word_le_nat_alt)
  then have c: "unat (powerfs_calc_shard_id (of_nat n) inode) = q mod n"
    using u assms(5) by (simp add: powerfs_calc_shard_id_def unat_div unat_mod)
  have m: "unat (of_nat (min q (n - 1)) :: u64) = min q (n - 1)"
    by (rule unat_of_nat_small) (use assms(2,3) in simp)
  have "shard_map_route m' inode = powerfs_calc_shard_id (of_nat n) inode \<longleftrightarrow> min q (n - 1) = q mod n"
    using r c m by (metis word_unat_eq_iff)
  moreover have "min q (n - 1) = q mod n \<longleftrightarrow> q < n \<or> q mod n = n - 1"
    using assms(2) by (cases "q < n") (auto simp: min_def)
  ultimately show ?thesis using r by simp
qed

theorem shard_map_vs_calc_shard_id_witness:
  "shard_map_route (shard_map_from_shard_count 4 \<lparr>sm_entries = replicate 64 (even_entry 0), sm_count = 0\<rparr>)
     4000000 = 3 \<and> powerfs_calc_shard_id 4 4000000 = 0"
  using shard_map_vs_calc_shard_id [of "\<lparr>sm_entries = replicate 64 (even_entry 0), sm_count = 0\<rparr>" 4 _
      "unat (4000000 :: u64) div 1000000" 4000000, OF _ _ _ refl refl]
  by (simp add: powerfs_calc_shard_id_def)

end
