(* ===== verification/Frame.thy ===== *)
theory Frame
  imports Prelude
begin

text \<open>
  The CRC32C checksum and the 28 byte frame header of \<open>powerfs_net_shard.c\<close>. The lazily filled
  lookup table is the constant \<open>crc32c_table\<close>: every entry point fills it before its first use.
  A header in memory is its 28 bytes, in the layout of the packed struct; the decoded header is a
  record in CPU byte order.
\<close>


section \<open>CRC32C\<close>

definition crc32c_shift :: "u32 \<Rightarrow> u32" where
  "crc32c_shift c = (if c AND 1 \<noteq> 0 then drop_bit 1 c XOR 0x82F63B78 else drop_bit 1 c)"

definition powerfs_crc32c_init_table :: "u32 list" where
  "powerfs_crc32c_init_table = map (\<lambda>i. (crc32c_shift ^^ 8) (of_nat i)) [0..<256]"

definition crc32c_byte :: "u8 \<Rightarrow> u32 \<Rightarrow> u32" where
  "crc32c_byte b crc =
    powerfs_crc32c_init_table ! unat ((crc XOR ucast b) AND 0xFF) XOR drop_bit 8 crc"

definition powerfs_crc32c :: "bytes \<Rightarrow> u32" where
  "powerfs_crc32c data = fold crc32c_byte data 0xFFFFFFFF XOR 0xFFFFFFFF"

definition powerfs_crc32c_append :: "u32 \<Rightarrow> bytes \<Rightarrow> u32" where
  "powerfs_crc32c_append crc data = NOT (fold crc32c_byte data (NOT crc))"

text \<open>Bit-serial reference: shift the register eight times after adding the byte.\<close>

definition crc32c_byte_ref :: "u8 \<Rightarrow> u32 \<Rightarrow> u32" where
  "crc32c_byte_ref b crc = (crc32c_shift ^^ 8) (crc XOR ucast b)"


section \<open>Frame header\<close>

abbreviation POWERFS_NET_MAGIC :: u32 where "POWERFS_NET_MAGIC \<equiv> 0x5046534E"
abbreviation POWERFS_NET_VERSION :: u8 where "POWERFS_NET_VERSION \<equiv> 1"
abbreviation POWERFS_NET_PROTOCOL_VER :: u8 where "POWERFS_NET_PROTOCOL_VER \<equiv> 1"
abbreviation POWERFS_NET_FRAME_HDR_SIZE :: nat where "POWERFS_NET_FRAME_HDR_SIZE \<equiv> 28"

record frame_hdr =
  fh_flags :: u8
  fh_seq :: u32
  fh_msg_type :: u16
  fh_status :: u16
  fh_data_len :: u32
  fh_body_len :: u32
  fh_route_hash :: u8
  fh_protocol_ver :: u8

definition frame_hdr_prefix :: "u16 \<Rightarrow> u8 \<Rightarrow> u32 \<Rightarrow> u16 \<Rightarrow> u32 \<Rightarrow> u32 \<Rightarrow> u8 \<Rightarrow> bytes" where
  "frame_hdr_prefix msg_type flags seq status body_len data_len route_hash =
    be32 POWERFS_NET_MAGIC @ [POWERFS_NET_VERSION, flags] @ le32 seq @ le16 msg_type @ le16 status @
    le32 data_len @ le32 body_len @ [route_hash, POWERFS_NET_PROTOCOL_VER]"

definition powerfs_net_frame_hdr_encode ::
    "u16 \<Rightarrow> u8 \<Rightarrow> u32 \<Rightarrow> u16 \<Rightarrow> u32 \<Rightarrow> u32 \<Rightarrow> u8 \<Rightarrow> bytes" where
  "powerfs_net_frame_hdr_encode msg_type flags seq status body_len data_len route_hash =
    (let hdr = frame_hdr_prefix msg_type flags seq status body_len data_len route_hash
     in hdr @ le32 (powerfs_crc32c_append 0 (take 24 hdr)))"

definition powerfs_net_frame_hdr_decode :: "bytes \<Rightarrow> nat \<Rightarrow> frame_hdr option" where
  "powerfs_net_frame_hdr_decode buf len =
    (if len < POWERFS_NET_FRAME_HDR_SIZE then None
     else if get_be32 (subarr 0 4 buf) \<noteq> POWERFS_NET_MAGIC then None
     else if buf ! 4 \<noteq> POWERFS_NET_VERSION then None
     else if get_le32 (subarr 24 4 buf) \<noteq> powerfs_crc32c_append 0 (take 24 buf) then None
     else Some \<lparr>fh_flags = buf ! 5, fh_seq = get_le32 (subarr 6 4 buf),
       fh_msg_type = get_le16 (subarr 10 2 buf), fh_status = get_le16 (subarr 12 2 buf),
       fh_data_len = get_le32 (subarr 14 4 buf), fh_body_len = get_le32 (subarr 18 4 buf),
       fh_route_hash = buf ! 22, fh_protocol_ver = buf ! 23\<rparr>)"


section \<open>The register is linear and invertible\<close>

lemma crc32c_shift_xor: "crc32c_shift (a XOR b) = crc32c_shift a XOR crc32c_shift b"
proof -
  have "(a XOR b) AND 1 \<noteq> 0 \<longleftrightarrow> (a AND 1 \<noteq> 0) \<noteq> (b AND 1 \<noteq> 0)"
    by (simp add: and_one_eq even_xor_iff mod_2_eq_odd)
  then show ?thesis
    by (auto simp: crc32c_shift_def drop_bit_xor xor.assoc xor.left_commute xor.commute)
qed

lemma crc32c_shift_pow_xor: "(crc32c_shift ^^ n) (a XOR b) = (crc32c_shift ^^ n) a XOR (crc32c_shift ^^ n) b"
  by (induction n) (simp_all add: crc32c_shift_xor)

lemma crc32c_shift_zero [simp]: "crc32c_shift 0 = 0"
  by (simp add: crc32c_shift_def)

text \<open>The top bit of the polynomial is set, so a shifted register tells which branch was taken.\<close>

lemma crc32c_shift_kernel: "crc32c_shift a = 0 \<Longrightarrow> a = 0"
proof -
  assume z: "crc32c_shift a = 0"
  have t: "\<not> bit (drop_bit 1 a) 31" by (auto simp: bit_drop_bit_eq dest: bit_imp_le_length)
  have p: "bit (0x82F63B78 :: u32) 31" by simp
  have even: "a AND 1 = 0"
  proof (rule ccontr)
    assume "a AND 1 \<noteq> 0"
    then have "drop_bit 1 a XOR 0x82F63B78 = 0" using z by (simp add: crc32c_shift_def)
    then show False using t p by (metis bit_xor_iff bit_0_eq bot_apply bot_bool_def)
  qed
  then have d: "drop_bit 1 a = 0" using z by (simp add: crc32c_shift_def)
  show "a = 0"
  proof (rule bit_eqI)
    fix n
    have "bit a (Suc m) = bit (drop_bit 1 a) m" for m by (simp add: bit_drop_bit_eq)
    moreover have "\<not> bit a 0" using even by (simp add: and_one_eq mod_2_eq_odd bit_0)
    ultimately show "bit a n = bit (0 :: u32) n" using d by (cases n) simp_all
  qed
qed

lemma crc32c_shift_inj: "crc32c_shift a = crc32c_shift b \<longleftrightarrow> a = b"
proof
  assume "crc32c_shift a = crc32c_shift b"
  then have "crc32c_shift (a XOR b) = 0" by (simp add: crc32c_shift_xor)
  then have "a XOR b = a XOR a" by (simp add: crc32c_shift_kernel)
  then show "a = b" by (metis xor_cancel_left)
qed simp

lemma crc32c_shift_pow_inj: "(crc32c_shift ^^ n) a = (crc32c_shift ^^ n) b \<longleftrightarrow> a = b"
  by (induction n) (simp_all add: crc32c_shift_inj)

text \<open>On a register whose low bits are clear the shifts are plain shifts.\<close>

lemma crc32c_shift_pow_high:
  "(\<forall>i < n. \<not> bit a i) \<Longrightarrow> (crc32c_shift ^^ n) a = drop_bit n a"
proof (induction n arbitrary: a)
  case (Suc n)
  then have "\<not> bit a 0" by simp
  then have s: "crc32c_shift a = drop_bit 1 a"
    by (simp add: crc32c_shift_def and_one_eq mod_2_eq_odd bit_0)
  have "\<forall>i < n. \<not> bit (drop_bit 1 a) i" using Suc.prems by (simp add: bit_drop_bit_eq)
  from Suc.IH [OF this] show ?case
    unfolding funpow_Suc_right comp_def s by simp
qed simp

lemma crc32c_table_nth:
  "i < 256 \<Longrightarrow> powerfs_crc32c_init_table ! i = (crc32c_shift ^^ 8) (of_nat i)"
  by (simp add: powerfs_crc32c_init_table_def del: funpow.simps)

lemma crc32c_byte_eq_ref: "crc32c_byte b crc = crc32c_byte_ref b crc"
proof -
  let ?x = "crc XOR ucast b" and ?m = "0xFF :: u32"
  have m: "?m = mask 8" by (simp add: mask_eq_exp_minus_1)
  have lt: "unat (?x AND ?m) < 256"
    unfolding m using and_mask_less' [of 8 ?x] by (simp add: word_less_nat_alt)
  have split: "?x = (?x AND ?m) XOR (?x AND NOT ?m)"
    by (rule bit_eqI) (auto simp: bit_simps)
  have "(crc32c_shift ^^ 8) (?x AND NOT ?m) = drop_bit 8 (?x AND NOT ?m)"
    by (rule crc32c_shift_pow_high) (simp add: m bit_simps)
  also have "\<dots> = drop_bit 8 crc"
    by (rule bit_eqI) (auto simp: m bit_simps dest: bit_imp_le_length)
  finally show ?thesis
    unfolding crc32c_byte_ref_def crc32c_byte_def crc32c_table_nth [OF lt]
    by (subst (2) split) (simp add: crc32c_shift_pow_xor del: funpow.simps)
qed

lemma crc32c_byte_inj:
  "crc32c_byte b c = crc32c_byte b c' \<longleftrightarrow> c = c'"
  "crc32c_byte b c = crc32c_byte b' c \<longleftrightarrow> b = b'"
  unfolding crc32c_byte_eq_ref crc32c_byte_ref_def crc32c_shift_pow_inj by simp_all

lemma crc32c_fold_inj: "fold crc32c_byte data c = fold crc32c_byte data c' \<longleftrightarrow> c = c'"
  by (induction data arbitrary: c c') (simp_all add: crc32c_byte_inj)

lemma crc32c_append_inj: "powerfs_crc32c_append c data = powerfs_crc32c_append c' data \<longleftrightarrow> c = c'"
  by (simp add: powerfs_crc32c_append_def crc32c_fold_inj)

lemma crc32c_update_differs:
  assumes "i < length data" "data ! i \<noteq> b"
  shows "powerfs_crc32c_append c (data[i := b]) \<noteq> powerfs_crc32c_append c data"
proof
  assume eq: "powerfs_crc32c_append c (data[i := b]) = powerfs_crc32c_append c data"
  have d: "data = take i data @ data ! i # drop (Suc i) data"
    using assms(1) by (simp add: id_take_nth_drop)
  have u: "data[i := b] = take i data @ b # drop (Suc i) data"
    using assms(1) by (simp add: upd_conv_take_nth_drop)
  have "fold crc32c_byte (take i data @ b # drop (Suc i) data) (NOT c) =
      fold crc32c_byte (take i data @ data ! i # drop (Suc i) data) (NOT c)"
    using eq d u by (simp add: powerfs_crc32c_append_def)
  then show False using assms(2) by (simp add: crc32c_fold_inj crc32c_byte_inj)
qed


section \<open>Header layout\<close>

lemma length_frame_hdr_prefix [simp]:
  "length (frame_hdr_prefix msg_type flags seq status body_len data_len route_hash) = 24"
  by (simp add: frame_hdr_prefix_def)

lemma length_frame_hdr_encode [simp]:
  "length (powerfs_net_frame_hdr_encode msg_type flags seq status body_len data_len route_hash) = 28"
  by (simp add: powerfs_net_frame_hdr_encode_def Let_def)

lemmas bytes_get =
  get_le16_le16' [unfolded le16_def] get_le32_le32' [unfolded le32_def]
  get_be32_be32 [where r = "[]", unfolded be32_def append_Nil2]

lemma frame_hdr_prefix_get:
  assumes "buf = frame_hdr_prefix msg_type flags seq status body_len data_len route_hash @ rest"
  shows "get_be32 (subarr 0 4 buf) = POWERFS_NET_MAGIC" "buf ! 4 = POWERFS_NET_VERSION" "buf ! 5 = flags"
    "get_le32 (subarr 6 4 buf) = seq" "get_le16 (subarr 10 2 buf) = msg_type"
    "get_le16 (subarr 12 2 buf) = status" "get_le32 (subarr 14 4 buf) = data_len"
    "get_le32 (subarr 18 4 buf) = body_len" "buf ! 22 = route_hash" "buf ! 23 = POWERFS_NET_PROTOCOL_VER"
  unfolding assms frame_hdr_prefix_def subarr_def le16_def le32_def be32_def
  by (simp_all add: bytes_get [unfolded One_nat_def])

lemma frame_hdr_decode_crc:
  "powerfs_net_frame_hdr_decode buf len = Some h \<Longrightarrow>
    get_le32 (subarr 24 4 buf) = powerfs_crc32c_append 0 (take 24 buf)"
  by (simp add: powerfs_net_frame_hdr_decode_def split: if_splits)


section \<open>Properties\<close>

text \<open>C28: The table-driven CRC32C of the client equals the bit-serial Castagnoli register, the
  one-shot form is the incremental form started at 0, and checksumming a concatenation is the same
  as continuing from the checksum of its first part.\<close>

theorem crc32c_correct:
  "powerfs_crc32c data = NOT (fold crc32c_byte_ref data (NOT 0)) \<and>
   powerfs_crc32c_append 0 data = powerfs_crc32c data \<and>
   powerfs_crc32c_append c (data @ data2) = powerfs_crc32c_append (powerfs_crc32c_append c data) data2"
proof -
  have "crc32c_byte_ref = crc32c_byte" by (intro ext) (simp add: crc32c_byte_eq_ref)
  moreover have m: "(0xFFFFFFFF :: u32) = - 1" by simp
  ultimately show ?thesis unfolding powerfs_crc32c_def powerfs_crc32c_append_def m
    by simp
qed

lemma frame_hdr_decode_encode:
  assumes "28 \<le> len"
  shows "powerfs_net_frame_hdr_decode
      (powerfs_net_frame_hdr_encode msg_type flags seq status body_len data_len route_hash @ rest) len =
    Some \<lparr>fh_flags = flags, fh_seq = seq, fh_msg_type = msg_type, fh_status = status,
      fh_data_len = data_len, fh_body_len = body_len, fh_route_hash = route_hash,
      fh_protocol_ver = POWERFS_NET_PROTOCOL_VER\<rparr>"
proof -
  let ?p = "frame_hdr_prefix msg_type flags seq status body_len data_len route_hash"
  let ?crc = "powerfs_crc32c_append 0 ?p"
  let ?buf = "?p @ le32 ?crc @ rest"
  have e: "powerfs_net_frame_hdr_encode msg_type flags seq status body_len data_len route_hash @ rest = ?buf"
    by (simp add: powerfs_net_frame_hdr_encode_def Let_def)
  have "subarr 24 4 ?buf = le32 ?crc" by simp
  then show ?thesis
    unfolding e powerfs_net_frame_hdr_decode_def
    using frame_hdr_prefix_get [of ?buf msg_type flags seq status body_len data_len route_hash "le32 ?crc @ rest"] assms
    by simp
qed

text \<open>A frame header the client encodes is accepted by its own decoder, whatever follows it in
  the receive buffer, and every field comes back unchanged.\<close>

theorem frame_hdr_roundtrip:
  assumes "28 \<le> len"
  shows "powerfs_net_frame_hdr_decode
      (powerfs_net_frame_hdr_encode msg_type flags seq status body_len data_len route_hash @ rest) len =
    Some \<lparr>fh_flags = flags, fh_seq = seq, fh_msg_type = msg_type, fh_status = status,
      fh_data_len = data_len, fh_body_len = body_len, fh_route_hash = route_hash,
      fh_protocol_ver = POWERFS_NET_PROTOCOL_VER\<rparr>"
  using assms by (rule frame_hdr_decode_encode)

theorem frame_hdr_roundtrip_witness:
  "map_option fh_seq (powerfs_net_frame_hdr_decode (powerfs_net_frame_hdr_encode 1 0 77 0 10 20 3 @ [1, 2]) 30)
    = Some 77"
  by (simp add: frame_hdr_roundtrip)

text \<open>C14: Corruption of any single byte of a frame header is detected: changing one of the 28 bytes
  of an encoded header in any way makes the decoder reject it.\<close>

theorem frame_hdr_single_byte_corruption:
  assumes "i < 28" "b \<noteq> powerfs_net_frame_hdr_encode msg_type flags seq status body_len data_len route_hash ! i"
  shows "powerfs_net_frame_hdr_decode
    ((powerfs_net_frame_hdr_encode msg_type flags seq status body_len data_len route_hash)[i := b] @ rest) len = None"
proof (rule ccontr)
  let ?p = "frame_hdr_prefix msg_type flags seq status body_len data_len route_hash"
  let ?crc = "powerfs_crc32c_append 0 ?p"
  let ?hdr = "?p @ le32 ?crc"
  have e: "powerfs_net_frame_hdr_encode msg_type flags seq status body_len data_len route_hash = ?hdr"
    by (simp add: powerfs_net_frame_hdr_encode_def Let_def)
  assume "\<not> ?thesis"
  then have crc: "get_le32 (subarr 24 4 (?hdr[i := b] @ rest)) =
      powerfs_crc32c_append 0 (take 24 (?hdr[i := b] @ rest))"
    unfolding e using frame_hdr_decode_crc by blast
  show False
  proof (cases "i < 24")
    case True
    then have u: "?hdr[i := b] @ rest = ?p[i := b] @ le32 ?crc @ rest"
      by (simp add: list_update_append)
    have "subarr 24 4 (?p[i := b] @ le32 ?crc @ rest) = le32 ?crc" by simp
    then have "?crc = powerfs_crc32c_append 0 (?p[i := b])" using crc unfolding u by simp
    then show False
      using crc32c_update_differs [of i ?p b 0] True assms(2) unfolding e by (simp add: nth_append)
  next
    case False
    then have u: "?hdr[i := b] @ rest = ?p @ (le32 ?crc)[i - 24 := b] @ rest"
      by (simp add: list_update_append)
    have "subarr 24 4 (?p @ (le32 ?crc)[i - 24 := b] @ rest) = (le32 ?crc)[i - 24 := b]" by simp
    then have "get_le32 ((le32 ?crc)[i - 24 := b]) = ?crc" using crc unfolding u by simp
    then have "(le32 ?crc)[i - 24 := b] = le32 ?crc"
      using le32_get_le32 [of "(le32 ?crc)[i - 24 := b]"] by simp
    moreover have "i - 24 < 4" using False assms(1) by simp
    ultimately have "le32 ?crc ! (i - 24) = b" by (metis length_le32 nth_list_update_eq)
    then show False using False assms(2) unfolding e by (simp add: nth_append)
  qed
qed

theorem frame_hdr_single_byte_corruption_witness:
  "powerfs_net_frame_hdr_decode ((powerfs_net_frame_hdr_encode 1 0 77 0 10 20 3)[4 := 2]) 28 = None"
proof -
  have "powerfs_net_frame_hdr_encode 1 0 77 0 10 20 3 ! 4 = 1"
    using frame_hdr_prefix_get(2) [of _ 1 0 77 0 10 20 3, OF refl]
    by (simp add: powerfs_net_frame_hdr_encode_def Let_def)
  then show ?thesis using frame_hdr_single_byte_corruption [of 4 2 1 0 77 0 10 20 3 "[]" 28] by simp
qed

end
