(* ===== verification/GF.thy ===== *)
theory GF
  imports Prelude
begin

text \<open>
  The arithmetic of \<open>powerfs_ec.c\<close> over GF(2^8) with polynomial \<open>0x11d\<close>: the exponent and
  logarithm tables that \<open>gf_init\<close> fills in place, and the table-driven operations. The lemmas show
  that the table operations form a field (with XOR as addition); the locale \<open>gf_field\<close> is that
  contract, and carries the linear algebra the erasure codec needs.
\<close>

record gf_tables =
  gf_exp :: bytes
  gf_log :: bytes

text \<open>One iteration of the first loop of \<open>gf_init\<close>; \<open>x\<close> is the 32-bit loop variable.\<close>

definition gf_init_step :: "nat \<Rightarrow> gf_tables \<times> u32 \<Rightarrow> gf_tables \<times> u32" where
  "gf_init_step i = (\<lambda>(gf, x).
    let gf = gf\<lparr>gf_exp := (gf_exp gf)[i := ucast x], gf_log := (gf_log gf)[unat x := of_nat i]\<rparr>;
        x = push_bit 1 x
    in (gf, if x AND 0x100 \<noteq> 0 then x XOR 0x11d else x))"

definition gf_init :: "gf_tables \<Rightarrow> gf_tables" where
  "gf_init gf =
    (let gf = fst (fold gf_init_step [0..<255] (gf, 1));
         gf = gf\<lparr>gf_exp := fold (\<lambda>i e. e[i := e ! (i - 255)]) [255..<512] (gf_exp gf)\<rparr>
     in gf\<lparr>gf_log := (gf_log gf)[0 := 0]\<rparr>)"

definition gf_mul :: "gf_tables \<Rightarrow> u8 \<Rightarrow> u8 \<Rightarrow> u8" where
  "gf_mul gf a b =
    (if a = 0 \<or> b = 0 then 0
     else gf_exp gf ! (unat (gf_log gf ! unat a) + unat (gf_log gf ! unat b)))"

definition gf_div :: "gf_tables \<Rightarrow> u8 \<Rightarrow> u8 \<Rightarrow> u8" where
  "gf_div gf a b =
    (if a = 0 then 0
     else gf_exp gf ! ((unat (gf_log gf ! unat a) + 255 - unat (gf_log gf ! unat b)) mod 255))"

definition gf_inv :: "gf_tables \<Rightarrow> u8 \<Rightarrow> u8" where
  "gf_inv gf a = gf_exp gf ! (255 - unat (gf_log gf ! unat a))"

text \<open>The product of the logarithm and the exponent is taken in 32 bits.\<close>

definition gf_pow :: "gf_tables \<Rightarrow> u8 \<Rightarrow> u32 \<Rightarrow> u8" where
  "gf_pow gf a e =
    (if a = 0 then 0 else if e = 0 then 1
     else gf_exp gf ! (unat ((ucast (gf_log gf ! unat a) :: u32) * e) mod 255))"

text \<open>Zero-allocated tables, as \<open>kzalloc\<close> returns them, and the tables after initialisation.\<close>

definition gf_zero :: gf_tables where
  "gf_zero = \<lparr>gf_exp = replicate 512 0, gf_log = replicate 256 0\<rparr>"

definition gf0 :: gf_tables where
  "gf0 = gf_init gf_zero"


section \<open>Multiplication by x\<close>

definition xt :: "u8 \<Rightarrow> u8" where
  "xt a = (if bit a 7 then push_bit 1 a XOR 0x1d else push_bit 1 a)"

abbreviation xpow :: "nat \<Rightarrow> u8" where "xpow n \<equiv> (xt ^^ n) 1"

lemma xt_xor: "xt (a XOR b) = xt a XOR xt b"
  by (auto simp: xt_def push_bit_xor bit_xor_iff xor.assoc xor.left_commute xor.commute)

lemma xt_zero [simp]: "xt 0 = 0"
  by (simp add: xt_def)

lemma xt_pow_xor: "(xt ^^ n) (a XOR b) = (xt ^^ n) a XOR (xt ^^ n) b"
  by (induction n) (simp_all add: xt_xor)

lemma xt_pow_zero [simp]: "(xt ^^ n) 0 = 0"
  by (induction n) simp_all

lemma xt_kernel: "xt a = 0 \<Longrightarrow> a = 0"
proof -
  assume z: "xt a = 0"
  have "\<not> bit a 7"
  proof
    assume "bit a 7"
    then have "push_bit 1 a XOR 0x1d = 0" using z by (simp add: xt_def)
    moreover have "bit (push_bit 1 a XOR 0x1d :: u8) 0"
      by (simp add: bit_0 even_xor_iff)
    ultimately show False by simp
  qed
  then have p: "push_bit 1 a = 0" using z by (simp add: xt_def)
  show "a = 0"
  proof (rule bit_eqI)
    fix n assume "possible_bit TYPE(8 word) n"
    then have n: "n < 8" by (simp add: possible_bit_word)
    have "bit (push_bit 1 a) (Suc n) = (n < 7 \<and> bit a n)"
      by (subst bit_push_bit_iff) auto
    then have "n < 7 \<Longrightarrow> \<not> bit a n" using p by simp
    moreover have "n = 7 \<Longrightarrow> \<not> bit a n" using \<open>\<not> bit a 7\<close> by simp
    ultimately show "bit a n = bit (0 :: u8) n" using n by (cases "n = 7") auto
  qed
qed

lemma xt_inj: "xt a = xt b \<longleftrightarrow> a = b"
proof
  assume "xt a = xt b"
  then have "xt (a XOR b) = 0" by (simp add: xt_xor)
  then have "a XOR b = a XOR a" by (simp add: xt_kernel)
  then show "a = b" by (metis xor_cancel_left)
qed simp

lemma xt_pow_inj: "(xt ^^ n) a = (xt ^^ n) b \<longleftrightarrow> a = b"
  by (induction n) (simp_all add: xt_inj)

lemma xpow_nonzero [simp]: "xpow n \<noteq> 0"
  using xt_pow_inj [of n 1 0] by simp


section \<open>The element x has order 255\<close>

fun xt_iter :: "nat \<Rightarrow> u8 \<Rightarrow> u8 list" where
  "xt_iter 0 a = []" |
  "xt_iter (Suc n) a = a # xt_iter n (xt a)"

lemma length_xt_iter [simp]: "length (xt_iter n a) = n"
  by (induction n arbitrary: a) auto

lemma xt_iter_nth: "i < n \<Longrightarrow> xt_iter n a ! i = (xt ^^ i) a"
proof (induction n arbitrary: a i)
  case (Suc n)
  then show ?case by (cases i) (simp_all add: funpow_swap1)
qed simp

lemma xt_cycle: "list_all (\<lambda>a. a \<noteq> 1) (xt_iter 254 2) \<and> xt (xt_iter 254 2 ! 253) = 1"
  by code_simp

lemma xpow_period: "xpow 255 = 1"
proof -
  have "xpow 255 = xt ((xt ^^ 253) (xt 1))"
    by (simp add: numeral_eq_Suc funpow_swap1)
  moreover have "xt 1 = 2" by (simp add: xt_def)
  ultimately show ?thesis using xt_cycle xt_iter_nth [of 253 254 2] by simp
qed

lemma xpow_not_one: "0 < d \<Longrightarrow> d < 255 \<Longrightarrow> xpow d \<noteq> 1"
proof -
  assume d: "0 < d" "d < 255"
  then obtain k where k: "d = Suc k" "k < 254" by (cases d) auto
  have "xpow d = (xt ^^ k) 2" using k by (simp add: funpow_swap1 xt_def)
  also have "\<dots> = xt_iter 254 2 ! k" using k by (simp add: xt_iter_nth)
  finally show "xpow d \<noteq> 1" using xt_cycle k(2) by (auto simp: list_all_length)
qed

lemma xpow_add: "xpow (i + j) = (xt ^^ i) (xpow j)"
  by (simp add: funpow_add)

lemma xpow_mod: "xpow (i mod 255) = xpow i"
proof -
  have step: "xpow (n + 255) = xpow n" for n
    using xpow_add [of n 255] by (simp only: xpow_period)
  have "xpow (n * 255 + j) = xpow j" for n j
  proof (induction n)
    case (Suc n)
    have "Suc n * 255 + j = (n * 255 + j) + 255" by simp
    then show ?case using Suc step [of "n * 255 + j"] by (simp only:)
  qed simp
  from this [of "i div 255" "i mod 255"] show ?thesis by simp
qed

lemma xpow_inj: "i < 255 \<Longrightarrow> j < 255 \<Longrightarrow> xpow i = xpow j \<longleftrightarrow> i = j"
proof (induction i j rule: linorder_wlog)
  case (le i j)
  show ?case
  proof
    assume "xpow i = xpow j"
    then have "(xt ^^ i) 1 = (xt ^^ i) (xpow (j - i))"
      using le(1) xpow_add [of i "j - i"] by simp
    then have "xpow (j - i) = 1" by (simp add: xt_pow_inj)
    then show "i = j" using xpow_not_one [of "j - i"] le by (cases "i = j") auto
  qed simp
qed auto

lemma xpow_surj: "a \<noteq> 0 \<Longrightarrow> \<exists>i < 255. xpow i = a"
proof -
  assume a: "a \<noteq> 0"
  have "inj_on xpow {0..<255}" by (auto simp: inj_on_def xpow_inj)
  then have "card (xpow ` {0..<255}) = 255" by (simp add: card_image)
  moreover have "card (- {0 :: u8}) = 255" by (simp add: card_Diff_singleton Compl_eq_Diff_UNIV card_word)
  moreover have "xpow ` {0..<255} \<subseteq> - {0}" by auto
  ultimately have "xpow ` {0..<255} = - {0}" by (intro card_subset_eq) auto
  then have "a \<in> xpow ` {0..<255}" using a by simp
  then show ?thesis by auto
qed


section \<open>The tables\<close>

lemma xt_u32_all:
  "list_all (\<lambda>a :: u8.
    (if push_bit 1 (ucast a :: u32) AND 0x100 \<noteq> 0 then push_bit 1 (ucast a :: u32) XOR 0x11d
     else push_bit 1 (ucast a)) = ucast (xt a)) (map of_nat [0..<256])"
  by code_simp

lemmas xt_u32 = u8_all [OF xt_u32_all]

lemma unat_u8_u32 [simp]: "unat (ucast (a :: u8) :: u32) = unat a"
proof -
  have "unat a < 2 ^ 32" using unat_u8_less [of a] by (simp del: unat_u8_less)
  then show ?thesis by (simp add: unsigned_ucast_eq take_bit_nat_eq_self)
qed

lemma ucast_u32_u8 [simp]: "(ucast (ucast (a :: u8) :: u32) :: u8) = a"
  by (rule bit_eqI) (auto simp: bit_simps)

lemma gf_init_loop:
  "n \<le> 255 \<Longrightarrow> \<exists>gf. fold gf_init_step [0..<n] (gf_zero, 1) = (gf, ucast (xpow n)) \<and>
    length (gf_exp gf) = 512 \<and> length (gf_log gf) = 256 \<and>
    (\<forall>i < n. gf_exp gf ! i = xpow i \<and> gf_log gf ! unat (xpow i) = of_nat i)"
proof (induction n)
  case 0
  then show ?case by (simp add: gf_zero_def)
next
  case (Suc n)
  then obtain gf where gf: "fold gf_init_step [0..<n] (gf_zero, 1) = (gf, ucast (xpow n))"
    "length (gf_exp gf) = 512" "length (gf_log gf) = 256"
    "\<forall>i < n. gf_exp gf ! i = xpow i \<and> gf_log gf ! unat (xpow i) = of_nat i" by auto
  let ?g = "gf\<lparr>gf_exp := (gf_exp gf)[n := xpow n], gf_log := (gf_log gf)[unat (xpow n) := of_nat n]\<rparr>"
  have "fold gf_init_step [0..<Suc n] (gf_zero, 1) = (?g, ucast (xpow (Suc n)))"
    using gf(1) xt_u32 [of "xpow n"] by (simp add: gf_init_step_def Let_def split: if_splits)
  moreover have "gf_log ?g ! unat (xpow i) = of_nat i" if "i < Suc n" for i
  proof (cases "i = n")
    case False
    then have "xpow i \<noteq> xpow n" using that Suc.prems xpow_inj by simp
    then have "unat (xpow i) \<noteq> unat (xpow n)" by (simp add: word_unat_eq_iff)
    then show ?thesis using that False gf(3,4) by simp
  qed (use gf(3) in simp)
  moreover have "gf_exp ?g ! i = xpow i" if "i < Suc n" for i
    using that gf(2,4) Suc.prems by (cases "i = n") simp_all
  ultimately show ?case using gf(2,3) by (intro exI [of _ ?g]) simp
qed

lemma exp_extend:
  "length e = 512 \<Longrightarrow> (\<forall>i < 255. e ! i = xpow i) \<Longrightarrow> n \<le> 257 \<Longrightarrow>
    length (fold (\<lambda>i e. e[i := e ! (i - 255)]) [255..<255 + n] e) = 512 \<and>
    (\<forall>i < 255 + n. fold (\<lambda>i e. e[i := e ! (i - 255)]) [255..<255 + n] e ! i = xpow i)"
proof (induction n)
  case (Suc n)
  let ?f = "fold (\<lambda>i e. e[i := e ! (i - 255)]) [255..<255 + n] e"
  have f: "length ?f = 512" "\<forall>i < 255 + n. ?f ! i = xpow i" using Suc by auto
  have e: "fold (\<lambda>i e. e[i := e ! (i - 255)]) [255..<255 + Suc n] e = ?f[255 + n := xpow n]"
    using f(2) upt_Suc_append [of 255 "255 + n"] by simp
  have "xpow (255 + n) = xpow n" using xpow_add [of n 255] by (simp only: xpow_period add.commute)
  then show ?case unfolding e using f Suc.prems(3)
    by (auto simp: nth_list_update less_Suc_eq simp del: funpow.simps)
qed simp

lemma gf0_tables:
  "i < 512 \<Longrightarrow> gf_exp gf0 ! i = xpow i"
  "i < 255 \<Longrightarrow> gf_log gf0 ! unat (xpow i) = of_nat i"
proof -
  obtain gf where gf: "fold gf_init_step [0..<255] (gf_zero, 1) = (gf, ucast (xpow 255))"
    "length (gf_exp gf) = 512" "length (gf_log gf) = 256"
    "\<forall>i < 255. gf_exp gf ! i = xpow i \<and> gf_log gf ! unat (xpow i) = of_nat i"
    using gf_init_loop [OF order_refl] by blast
  define e where "e = fold (\<lambda>i e. e[i := e ! (i - 255)]) [255..<512] (gf_exp gf)"
  have u: "255 + 257 = (512 :: nat)" by simp
  have e: "\<forall>i < 512. e ! i = xpow i"
    using exp_extend [of "gf_exp gf" 257] gf(2,4) unfolding u e_def by blast
  have g: "gf0 = gf\<lparr>gf_exp := e, gf_log := (gf_log gf)[0 := 0]\<rparr>"
    unfolding gf0_def gf_init_def Let_def gf(1) fst_conv e_def [symmetric] by simp
  show "i < 512 \<Longrightarrow> gf_exp gf0 ! i = xpow i"
    using e by (simp add: g)
  show "i < 255 \<Longrightarrow> gf_log gf0 ! unat (xpow i) = of_nat i"
    using gf(4) by (simp add: g nth_list_update unat_eq_zero)
qed


section \<open>Field laws\<close>

lemma gf_log_xpow [simp]: "i < 255 \<Longrightarrow> unat (gf_log gf0 ! unat (xpow i)) = i"
  by (simp add: gf0_tables unat_of_nat_small)

lemma gf_mul_xpow: "i < 255 \<Longrightarrow> gf_mul gf0 (xpow i) b = (xt ^^ i) b"
proof (cases "b = 0")
  case False
  assume i: "i < 255"
  obtain j where j: "j < 255" "b = xpow j" using xpow_surj [OF False] by auto
  show ?thesis using i j(1) unfolding j(2)
    by (simp add: gf_mul_def gf0_tables(1) xpow_add)
qed (simp add: gf_mul_def)

lemma gf_mul_zero [simp]: "gf_mul gf 0 b = 0" "gf_mul gf a 0 = 0"
  by (simp_all add: gf_mul_def)

lemma gf_mul_commute: "gf_mul gf a b = gf_mul gf b a"
  by (simp add: gf_mul_def add.commute)

lemma gf_mul_xor: "gf_mul gf0 a (b XOR c) = gf_mul gf0 a b XOR gf_mul gf0 a c"
proof (cases "a = 0")
  case False
  then obtain i where "i < 255" "a = xpow i" using xpow_surj by blast
  then show ?thesis by (simp add: gf_mul_xpow xt_pow_xor)
qed simp

lemma gf_mul_assoc: "gf_mul gf0 (gf_mul gf0 a b) c = gf_mul gf0 a (gf_mul gf0 b c)"
proof (cases "a = 0 \<or> b = 0")
  case False
  then obtain i j where ij: "i < 255" "a = xpow i" "j < 255" "b = xpow j" using xpow_surj by metis
  have "gf_mul gf0 a b = xpow ((i + j) mod 255)"
    using ij by (simp only: gf_mul_xpow xpow_mod xpow_add)
  then have "gf_mul gf0 (gf_mul gf0 a b) c = (xt ^^ ((i + j) mod 255)) c"
    by (simp only: gf_mul_xpow mod_less_divisor zero_less_numeral)
  also have "\<dots> = (xt ^^ (i + j)) c"
  proof (cases "c = 0")
    case False
    then obtain k where k: "c = xpow k" using xpow_surj by blast
    have "xpow ((i + j) mod 255 + k) = xpow (i + j + k)"
      by (metis mod_add_left_eq xpow_mod)
    then show ?thesis unfolding k by (simp only: xpow_add)
  qed simp
  also have "\<dots> = gf_mul gf0 a (gf_mul gf0 b c)"
    using ij by (simp only: gf_mul_xpow funpow_add comp_def)
  finally show ?thesis .
qed auto

lemma gf_mul_one [simp]: "gf_mul gf0 1 b = b"
  using gf_mul_xpow [of 0 b] by simp

lemma gf_inv_right: "a \<noteq> 0 \<Longrightarrow> gf_mul gf0 a (gf_inv gf0 a) = 1"
proof -
  assume "a \<noteq> 0"
  then obtain i where i: "i < 255" "a = xpow i" using xpow_surj by blast
  then have "gf_inv gf0 a = xpow (255 - i)" by (simp only: gf_inv_def gf_log_xpow) (simp add: gf0_tables)
  then have "gf_mul gf0 a (gf_inv gf0 a) = xpow (i + (255 - i))"
    using i by (simp only: gf_mul_xpow xpow_add)
  then show ?thesis using i(1) xpow_period by (simp only: le_add_diff_inverse less_imp_le)
qed

text \<open>Sums are iterated XOR.\<close>

primrec xsum :: "(nat \<Rightarrow> u8) \<Rightarrow> nat \<Rightarrow> u8" where
  "xsum f 0 = 0" |
  "xsum f (Suc n) = xsum f n XOR f n"

lemma xsum_cong [cong]: "n = m \<Longrightarrow> (\<And>i. i < m \<Longrightarrow> f i = g i) \<Longrightarrow> xsum f n = xsum g m"
  by (induction m arbitrary: n) auto

lemma xsum_zero [simp]: "xsum (\<lambda>i. 0) n = 0"
  by (induction n) auto

lemma xsum_xor: "xsum (\<lambda>i. f i XOR g i) n = xsum f n XOR xsum g n"
  by (induction n) (simp_all add: xor.assoc xor.left_commute xor.commute)

lemma xsum_swap: "xsum (\<lambda>i. xsum (f i) m) n = xsum (\<lambda>j. xsum (\<lambda>i. f i j) n) m"
  by (induction n) (simp_all add: xsum_xor)

lemma xsum_delta: "xsum (\<lambda>i. if i = k then f i else 0) n = (if k < n then f k else 0)"
  by (induction n) (auto simp: less_Suc_eq)

text \<open>The contract the codec relies on: a field of characteristic two on bytes.\<close>

locale gf_field =
  fixes mul :: "u8 \<Rightarrow> u8 \<Rightarrow> u8" and inv :: "u8 \<Rightarrow> u8"
  assumes mul_commute: "mul a b = mul b a"
    and mul_assoc: "mul (mul a b) c = mul a (mul b c)"
    and mul_xor: "mul a (b XOR c) = mul a b XOR mul a c"
    and mul_one: "mul 1 a = a"
    and mul_inv: "a \<noteq> 0 \<Longrightarrow> mul a (inv a) = 1"
begin

lemma mul_zero: "mul a 0 = 0" "mul 0 a = 0"
proof -
  have "mul a 0 = mul a 0 XOR mul a 0" using mul_xor [of a 0 0] by simp
  then show "mul a 0 = 0" by simp
  then show "mul 0 a = 0" by (simp add: mul_commute)
qed

lemma mul_xor_left: "mul (a XOR b) c = mul a c XOR mul b c"
  using mul_xor [of c a b] by (simp add: mul_commute [of c])

lemma mul_xsum: "mul a (xsum f n) = xsum (\<lambda>i. mul a (f i)) n"
  by (induction n) (simp_all add: mul_zero mul_xor)

lemma mul_xsum_left: "mul (xsum f n) a = xsum (\<lambda>i. mul (f i) a) n"
  by (induction n) (simp_all add: mul_zero mul_xor_left)

lemma mat_vec_assoc:
  "xsum (\<lambda>k. mul (a k) (xsum (\<lambda>c. mul (b k c) (v c)) m)) n =
   xsum (\<lambda>c. mul (xsum (\<lambda>k. mul (a k) (b k c)) n) (v c)) m"
proof -
  have "xsum (\<lambda>k. mul (a k) (xsum (\<lambda>c. mul (b k c) (v c)) m)) n =
      xsum (\<lambda>k. xsum (\<lambda>c. mul (mul (a k) (b k c)) (v c)) m) n"
    by (simp add: mul_xsum mul_assoc)
  also have "\<dots> = xsum (\<lambda>c. xsum (\<lambda>k. mul (mul (a k) (b k c)) (v c)) n) m"
    by (rule xsum_swap)
  finally show ?thesis by (simp add: mul_xsum_left)
qed

lemma unit_row_vec: "i < n \<Longrightarrow> xsum (\<lambda>c. mul (if c = i then 1 else 0) (v c)) n = v i"
proof -
  assume "i < n"
  have e: "(\<lambda>c. mul (if c = i then 1 else 0) (v c)) = (\<lambda>c. if c = i then v c else 0)"
    by (auto simp: mul_one mul_zero)
  show ?thesis unfolding e using \<open>i < n\<close> xsum_delta [of i v n] by simp
qed

lemma mul_eq_zero: "mul a b = 0 \<longleftrightarrow> a = 0 \<or> b = 0"
proof
  assume z: "mul a b = 0"
  show "a = 0 \<or> b = 0"
  proof (rule ccontr)
    assume "\<not> (a = 0 \<or> b = 0)"
    then have "mul (inv a) (mul a b) = b"
      using mul_inv [of a] mul_assoc [of "inv a" a b] by (simp add: mul_one mul_commute [of "inv a"])
    then show False using z \<open>\<not> (a = 0 \<or> b = 0)\<close> by (simp add: mul_zero)
  qed
qed (auto simp: mul_zero)

end

interpretation gf: gf_field "gf_mul gf0" "gf_inv gf0"
  by unfold_locales (fact gf_mul_commute gf_mul_assoc gf_mul_xor gf_mul_one gf_inv_right)+

lemma gf_div_mul: "b \<noteq> 0 \<Longrightarrow> gf_mul gf0 (gf_div gf0 a b) b = a"
proof (cases "a = 0")
  case False
  assume "b \<noteq> 0"
  then obtain i j where ij: "i < 255" "a = xpow i" "j < 255" "b = xpow j"
    using False xpow_surj by metis
  let ?k = "(i + 255 - j) mod 255"
  have "gf_div gf0 a b = xpow ?k"
    using ij by (simp only: gf_div_def gf_log_xpow xpow_nonzero if_False) (simp add: gf0_tables(1))
  then have "gf_mul gf0 (gf_div gf0 a b) b = xpow (?k + j)"
    unfolding ij(4) by (simp only: gf_mul_xpow mod_less_divisor zero_less_numeral xpow_add)
  also have "\<dots> = xpow ((i + 255 - j) + j)" by (metis mod_add_left_eq xpow_mod)
  also have "(i + 255 - j) + j = i + 255" using ij(3) by simp
  also have "xpow (i + 255) = xpow i" using xpow_mod [of "i + 255"] xpow_mod [of i] by simp
  finally show ?thesis using ij(2) by simp
qed (simp add: gf_div_def)


section \<open>Properties\<close>

text \<open>The exponent and logarithm tables filled by \<open>gf_init\<close> make the table-driven operations a
  field on bytes with XOR as addition: multiplication is commutative, associative, distributes over
  XOR and has unit 1, and the inverse and division routines undo multiplication by any nonzero
  element.\<close>

theorem gf_tables_field:
  "gf_mul gf0 a b = gf_mul gf0 b a \<and>
   gf_mul gf0 (gf_mul gf0 a b) c = gf_mul gf0 a (gf_mul gf0 b c) \<and>
   gf_mul gf0 a (b XOR c) = gf_mul gf0 a b XOR gf_mul gf0 a c \<and>
   gf_mul gf0 1 a = a \<and>
   (a \<noteq> 0 \<longrightarrow> gf_mul gf0 a (gf_inv gf0 a) = 1) \<and>
   (b \<noteq> 0 \<longrightarrow> gf_mul gf0 (gf_div gf0 a b) b = a)"
  using gf_mul_commute gf_mul_assoc gf_mul_xor gf_mul_one gf_inv_right gf_div_mul by blast

theorem gf_tables_field_witness:
  "gf_mul gf0 7 (gf_inv gf0 7) = 1 \<and> gf_mul gf0 (gf_div gf0 7 3) 3 = 7"
  using gf_tables_field [of 7 3 0] by simp

end
