(* ===== verification/ErasureCode.thy ===== *)
theory ErasureCode
  imports GF
begin

text \<open>
  The Reed-Solomon codec of \<open>powerfs_ec.c\<close>. A row-major \<open>u8\<close> matrix is the list of its rows, an
  array of shard pointers is a list of optional byte arrays (\<^term>\<open>None\<close> for NULL), each of
  \<open>shard_size\<close> bytes. Whether each \<open>kmalloc\<close> succeeds is the parameter \<open>alloc\<close>, indexed by the
  call site. The shard size is below \<open>2^32\<close>, so the 32-bit byte counters do not wrap.
\<close>


section \<open>Row operations\<close>

datatype alloc_site = A_codec | A_vmatrix | A_enc_matrix | A_identity | A_indices | A_matrices | A_shard nat

definition scale_from :: "gf_tables \<Rightarrow> nat \<Rightarrow> u8 \<Rightarrow> bytes \<Rightarrow> bytes" where
  "scale_from gf c k row = map (\<lambda>r. if c \<le> r then gf_mul gf (row ! r) k else row ! r) [0..<length row]"

definition axpy_from :: "gf_tables \<Rightarrow> nat \<Rightarrow> u8 \<Rightarrow> bytes \<Rightarrow> bytes \<Rightarrow> bytes" where
  "axpy_from gf c coef src dst =
    map (\<lambda>r. if c \<le> r then dst ! r XOR gf_mul gf (src ! r) coef else dst ! r) [0..<length dst]"

definition swap_rows :: "nat \<Rightarrow> nat \<Rightarrow> bytes list \<Rightarrow> bytes list" where
  "swap_rows i j m = m[i := m ! j, j := m ! i]"

definition find_pivot :: "bytes list \<Rightarrow> nat \<Rightarrow> nat \<Rightarrow> nat option" where
  "find_pivot m col rows =
    (if m ! col ! col \<noteq> 0 then Some col else List.find (\<lambda>p. m ! p ! col \<noteq> 0) [Suc col..<rows])"


section \<open>The encoding matrix\<close>

definition vandermonde_matrix :: "gf_tables \<Rightarrow> nat \<Rightarrow> nat \<Rightarrow> bytes list" where
  "vandermonde_matrix gf rows cols =
    map (\<lambda>r. map (\<lambda>c. gf_pow gf (of_nat c) (of_nat r)) [0..<cols]) [0..<rows]"

definition systematic_elim :: "gf_tables \<Rightarrow> nat \<Rightarrow> nat \<Rightarrow> bytes list \<Rightarrow> bytes list" where
  "systematic_elim gf rows col m = fold (\<lambda>row m.
      if row = col \<or> m ! row ! col = 0 then m
      else m[row := axpy_from gf col (m ! row ! col) (m ! col) (m ! row)]) [0..<rows] m"

fun systematic_cols :: "gf_tables \<Rightarrow> nat \<Rightarrow> nat list \<Rightarrow> bytes list \<Rightarrow> int \<times> bytes list" where
  "systematic_cols gf rows [] m = (0, m)" |
  "systematic_cols gf rows (col # cols) m =
    (case find_pivot m col rows of
       None \<Rightarrow> (- EINVAL, m)
     | Some pivot \<Rightarrow>
       let m = swap_rows col pivot m;
           m = m[col := scale_from gf col (gf_inv gf (m ! col ! col)) (m ! col)]
       in systematic_cols gf rows cols (systematic_elim gf rows col m))"

definition vandermonde_to_systematic :: "gf_tables \<Rightarrow> bytes list \<Rightarrow> nat \<Rightarrow> nat \<Rightarrow> int \<times> bytes list" where
  "vandermonde_to_systematic gf matrix total_rows data =
    systematic_cols gf total_rows [0..<data] matrix"

record ec_codec =
  ec_data :: nat
  ec_parity :: nat
  ec_total :: nat
  ec_gf :: gf_tables
  ec_matrix :: "bytes list"

text \<open>The argument check adds the two counts in 32 bits.\<close>

definition powerfs_ec_init :: "(alloc_site \<Rightarrow> bool) \<Rightarrow> u32 \<Rightarrow> u32 \<Rightarrow> int + ec_codec" where
  "powerfs_ec_init alloc data_shards parity_shards =
    (if data_shards = 0 \<or> parity_shards = 0 \<or> data_shards + parity_shards > 255 then Inl (- EINVAL)
     else if \<not> alloc A_codec then Inl (- ENOMEM)
     else let total = unat (data_shards + parity_shards); data = unat data_shards; gf = gf_init gf_zero
     in if \<not> alloc A_vmatrix then Inl (- ENOMEM)
     else let (ret, vmatrix) = vandermonde_to_systematic gf (vandermonde_matrix gf total data) total data
     in if ret \<noteq> 0 then Inl ret
     else if \<not> alloc A_enc_matrix then Inl (- ENOMEM)
     else Inr \<lparr>ec_data = data, ec_parity = unat parity_shards, ec_total = total, ec_gf = gf,
       ec_matrix = take (unat parity_shards) (drop data vmatrix)\<rparr>)"


section \<open>Encoding\<close>

definition ec_mac :: "gf_tables \<Rightarrow> u8 \<Rightarrow> bytes \<Rightarrow> bytes \<Rightarrow> bytes" where
  "ec_mac gf coef src acc = map2 (\<lambda>a x. a XOR gf_mul gf x coef) acc src"

text \<open>The accumulation loop of the encoder and both reconstruction loops: skip zero coefficients
  and NULL shards, multiply-add the others into a zeroed shard.\<close>

definition ec_accumulate ::
    "gf_tables \<Rightarrow> nat \<Rightarrow> nat \<Rightarrow> (nat \<Rightarrow> u8) \<Rightarrow> (nat \<Rightarrow> bytes option) \<Rightarrow> bytes" where
  "ec_accumulate gf shard_size n coef src =
    fold (\<lambda>d acc. if coef d = 0 then acc else case src d of None \<Rightarrow> acc | Some s \<Rightarrow> ec_mac gf (coef d) s acc)
      [0..<n] (replicate shard_size 0)"

definition ec_parity_shard :: "ec_codec \<Rightarrow> nat \<Rightarrow> bytes option list \<Rightarrow> nat \<Rightarrow> bytes" where
  "ec_parity_shard codec shard_size shards p =
    ec_accumulate (ec_gf codec) shard_size (ec_data codec) (\<lambda>d. ec_matrix codec ! p ! d) (\<lambda>d. shards ! d)"

fun ec_encode_loop :: "ec_codec \<Rightarrow> nat \<Rightarrow> nat list \<Rightarrow> bytes option list \<Rightarrow> int \<times> bytes option list" where
  "ec_encode_loop codec shard_size [] shards = (0, shards)" |
  "ec_encode_loop codec shard_size (p # ps) shards =
    (if shards ! (ec_data codec + p) = None \<or> shards ! 0 = None then (- EINVAL, shards)
     else ec_encode_loop codec shard_size ps
       (shards[ec_data codec + p := Some (ec_parity_shard codec shard_size shards p)]))"

definition powerfs_ec_encode ::
    "ec_codec option \<Rightarrow> bytes option list \<Rightarrow> nat \<Rightarrow> int \<times> bytes option list" where
  "powerfs_ec_encode codec shards shard_size =
    (case codec of None \<Rightarrow> (- EINVAL, shards)
     | Some codec \<Rightarrow> ec_encode_loop codec shard_size [0..<ec_parity codec] shards)"


section \<open>Decoding\<close>

definition powerfs_ec_can_recover :: "ec_codec option \<Rightarrow> bool list \<Rightarrow> bool" where
  "powerfs_ec_can_recover codec available =
    (case codec of None \<Rightarrow> False
     | Some codec \<Rightarrow> length (filter (\<lambda>i. available ! i) [0..<ec_total codec]) \<ge> ec_data codec)"

definition gf_identity :: "nat \<Rightarrow> bytes list" where
  "gf_identity n = map (\<lambda>r. (replicate n 0)[r := 1]) [0..<n]"

definition invert_elim :: "gf_tables \<Rightarrow> nat \<Rightarrow> nat \<Rightarrow> bytes list \<times> bytes list \<Rightarrow> bytes list \<times> bytes list" where
  "invert_elim gf n col s = fold (\<lambda>row (m, e).
      if row = col \<or> m ! row ! col = 0 then (m, e)
      else let coef = m ! row ! col in
        (m[row := axpy_from gf 0 coef (m ! col) (m ! row)], e[row := axpy_from gf 0 coef (e ! col) (e ! row)]))
      [0..<n] s"

fun invert_cols ::
    "gf_tables \<Rightarrow> nat \<Rightarrow> nat list \<Rightarrow> bytes list \<Rightarrow> bytes list \<Rightarrow> int \<times> bytes list \<times> bytes list" where
  "invert_cols gf n [] m e = (0, m, e)" |
  "invert_cols gf n (col # cols) m e =
    (case find_pivot m col n of
       None \<Rightarrow> (- EINVAL, m, e)
     | Some pivot \<Rightarrow>
       let m = swap_rows col pivot m; e = swap_rows col pivot e;
           inv_matrix = gf_inv gf (m ! col ! col);
           m = m[col := scale_from gf 0 inv_matrix (m ! col)];
           e = e[col := scale_from gf 0 inv_matrix (e ! col)];
           (m, e) = invert_elim gf n col (m, e)
       in invert_cols gf n cols m e)"

definition gf_matrix_invert :: "(alloc_site \<Rightarrow> bool) \<Rightarrow> gf_tables \<Rightarrow> bytes list \<Rightarrow> nat \<Rightarrow> int \<times> bytes list" where
  "gf_matrix_invert alloc gf matrix n =
    (if \<not> alloc A_identity then (- ENOMEM, matrix)
     else case invert_cols gf n [0..<n] matrix (gf_identity n) of
       (ret, m, e) \<Rightarrow> if ret = 0 then (0, e) else (ret, m))"

definition ec_sub_row :: "ec_codec \<Rightarrow> nat \<Rightarrow> bytes" where
  "ec_sub_row codec shard_idx =
    (if shard_idx < ec_data codec then (replicate (ec_data codec) 0)[shard_idx := 1]
     else ec_matrix codec ! (shard_idx - ec_data codec))"

fun ec_rebuild_data ::
    "(alloc_site \<Rightarrow> bool) \<Rightarrow> ec_codec \<Rightarrow> nat \<Rightarrow> bytes list \<Rightarrow> nat list \<Rightarrow> nat list \<Rightarrow> bytes option list
      \<Rightarrow> int \<times> bytes option list" where
  "ec_rebuild_data alloc codec shard_size inv_matrix avail [] shards = (0, shards)" |
  "ec_rebuild_data alloc codec shard_size inv_matrix avail (m # ms) shards =
    (if shards ! m = None \<and> \<not> alloc (A_shard m) then (- ENOMEM, shards)
     else ec_rebuild_data alloc codec shard_size inv_matrix avail ms
       (shards[m := Some (ec_accumulate (ec_gf codec) shard_size (ec_data codec)
          (\<lambda>i. inv_matrix ! m ! i) (\<lambda>i. shards ! (avail ! i)))]))"

fun ec_rebuild_parity ::
    "(alloc_site \<Rightarrow> bool) \<Rightarrow> ec_codec \<Rightarrow> nat \<Rightarrow> bool list \<Rightarrow> nat list \<Rightarrow> bytes option list
      \<Rightarrow> int \<times> bytes option list" where
  "ec_rebuild_parity alloc codec shard_size available [] shards = (0, shards)" |
  "ec_rebuild_parity alloc codec shard_size available (i # is) shards =
    (if available ! i then ec_rebuild_parity alloc codec shard_size available is shards
     else if shards ! i = None \<and> \<not> alloc (A_shard i) then (- ENOMEM, shards)
     else ec_rebuild_parity alloc codec shard_size available is
       (shards[i := Some (ec_parity_shard codec shard_size shards (i - ec_data codec))]))"

definition powerfs_ec_decode ::
    "(alloc_site \<Rightarrow> bool) \<Rightarrow> ec_codec option \<Rightarrow> bytes option list \<Rightarrow> bool list \<Rightarrow> nat
      \<Rightarrow> int \<times> bytes option list" where
  "powerfs_ec_decode alloc codec shards available shard_size =
    (case codec of None \<Rightarrow> (- EINVAL, shards)
     | Some codec \<Rightarrow>
       if \<not> powerfs_ec_can_recover (Some codec) available then (- EBADMSG, shards)
       else if \<not> alloc A_indices then (- ENOMEM, shards)
       else let avail = filter (\<lambda>i. available ! i) [0..<ec_total codec];
                missing = filter (\<lambda>i. \<not> available ! i) [0..<ec_data codec];
                parities = [ec_data codec..<ec_total codec]
       in if missing = [] then ec_rebuild_parity alloc codec shard_size available parities shards
       else if \<not> alloc A_matrices then (- ENOMEM, shards)
       else let sub_matrix = map (\<lambda>i. ec_sub_row codec (avail ! i)) [0..<ec_data codec];
                (ret, inv_matrix) = gf_matrix_invert alloc (ec_gf codec) sub_matrix (ec_data codec)
       in if ret \<noteq> 0 then (ret, shards)
       else let (ret, shards) = ec_rebuild_data alloc codec shard_size inv_matrix avail missing shards
       in if ret \<noteq> 0 then (ret, shards)
       else ec_rebuild_parity alloc codec shard_size available parities shards)"


section \<open>Row operation lemmas\<close>

abbreviation gmul :: "u8 \<Rightarrow> u8 \<Rightarrow> u8" where "gmul \<equiv> gf_mul gf0"

definition square :: "nat \<Rightarrow> bytes list \<Rightarrow> bool" where
  "square n m \<longleftrightarrow> length m = n \<and> (\<forall>r < n. length (m ! r) = n)"

lemma length_scale_from [simp]: "length (scale_from gf c k row) = length row"
  by (simp add: scale_from_def)

lemma length_axpy_from [simp]: "length (axpy_from gf c k src dst) = length dst"
  by (simp add: axpy_from_def)

lemma scale_from_nth [simp]: "r < length row \<Longrightarrow> scale_from gf 0 k row ! r = gf_mul gf (row ! r) k"
  by (simp add: scale_from_def)

lemma axpy_from_nth [simp]:
  "r < length dst \<Longrightarrow> axpy_from gf 0 k src dst ! r = dst ! r XOR gf_mul gf (src ! r) k"
  by (simp add: axpy_from_def)

lemma swap_rows_nth:
  "i < length m \<Longrightarrow> j < length m \<Longrightarrow> r < length m \<Longrightarrow>
    swap_rows i j m ! r = m ! (if r = i then j else if r = j then i else r)"
  by (auto simp: swap_rows_def nth_list_update)

lemma length_swap_rows [simp]: "length (swap_rows i j m) = length m"
  by (simp add: swap_rows_def)

lemma square_swap: "square n m \<Longrightarrow> i < n \<Longrightarrow> j < n \<Longrightarrow> square n (swap_rows i j m)"
  by (auto simp: square_def swap_rows_nth)

lemma square_update: "square n m \<Longrightarrow> length row = n \<Longrightarrow> square n (m[i := row])"
  unfolding square_def by (metis length_list_update nth_list_update_eq nth_list_update_neq)

lemma square_identity: "square n (gf_identity n)"
  by (simp add: square_def gf_identity_def)

lemma identity_nth: "r < n \<Longrightarrow> c < n \<Longrightarrow> gf_identity n ! r ! c = (if c = r then 1 else 0)"
  by (auto simp: gf_identity_def nth_list_update)

text \<open>The elimination loop in closed form: every row is changed independently of the others.\<close>

definition elim_row :: "gf_tables \<Rightarrow> nat \<Rightarrow> bytes list \<Rightarrow> bytes list \<Rightarrow> nat \<Rightarrow> bytes" where
  "elim_row gf col m e r =
    (if r = col \<or> m ! r ! col = 0 then e ! r else axpy_from gf 0 (m ! r ! col) (e ! col) (e ! r))"

lemma invert_elim_prefix:
  assumes "length m = n" "length e = n" "col < n" "k \<le> n"
  shows "fold (\<lambda>row (m, e).
      if row = col \<or> m ! row ! col = 0 then (m, e)
      else let coef = m ! row ! col in
        (m[row := axpy_from gf 0 coef (m ! col) (m ! row)], e[row := axpy_from gf 0 coef (e ! col) (e ! row)]))
      [0..<k] (m, e) =
    (map (elim_row gf col m m) [0..<k] @ drop k m, map (elim_row gf col m e) [0..<k] @ drop k e)"
  using assms(4)
proof (induction k)
  case (Suc k)
  let ?m = "map (elim_row gf col m m) [0..<k] @ drop k m" and ?e = "map (elim_row gf col m e) [0..<k] @ drop k e"
  have d: "drop k m = m ! k # drop (Suc k) m" "drop k e = e ! k # drop (Suc k) e"
    using assms(1,2) Suc.prems by (simp_all add: Cons_nth_drop_Suc)
  have self: "elim_row gf col m x col = x ! col" for x by (simp add: elim_row_def)
  have c: "?m ! col = m ! col" "?e ! col = e ! col"
    using assms Suc.prems self by (auto simp: nth_append)
  have k: "?m ! k = m ! k" "?e ! k = e ! k" using d by (simp_all add: nth_append)
  show ?case using Suc c k d
    by (simp add: elim_row_def [of gf col m m k] elim_row_def [of gf col m e k] list_update_append Let_def)
qed simp

lemma invert_elim_eq:
  assumes "length m = n" "length e = n" "col < n"
  shows "invert_elim gf n col (m, e) = (map (elim_row gf col m m) [0..<n], map (elim_row gf col m e) [0..<n])"
  using invert_elim_prefix [OF assms order_refl, of gf] assms by (simp add: invert_elim_def)

lemma elim_row_nth:
  assumes "c < length (e ! r)"
  shows "elim_row gf col m e r ! c = e ! r ! c XOR gf_mul gf (e ! col ! c) (if r = col then 0 else m ! r ! col)"
  using assms by (auto simp: elim_row_def)

lemma length_elim_row [simp]: "length (elim_row gf col m e r) = length (e ! r)"
  by (simp add: elim_row_def)


section \<open>Matrix inversion\<close>

definition in_kernel :: "nat \<Rightarrow> bytes list \<Rightarrow> (nat \<Rightarrow> u8) \<Rightarrow> bool" where
  "in_kernel n m v \<longleftrightarrow> (\<forall>r < n. xsum (\<lambda>c. gmul (m ! r ! c) (v c)) n = 0)"

text \<open>The pair \<open>(m, e)\<close> is reached from \<open>(m0, I)\<close>: \<open>e\<close> times \<open>m0\<close> is \<open>m\<close>, and the row operations
  can be undone, so the kernel has not grown.\<close>

definition reached :: "nat \<Rightarrow> bytes list \<Rightarrow> bytes list \<Rightarrow> bytes list \<Rightarrow> bool" where
  "reached n m0 m e \<longleftrightarrow> square n m \<and> square n e \<and>
    (\<forall>r < n. \<forall>c < n. m ! r ! c = xsum (\<lambda>k. gmul (e ! r ! k) (m0 ! k ! c)) n) \<and>
    (\<forall>v. in_kernel n m v \<longrightarrow> in_kernel n m0 v)"

lemma reached_init: "square n m \<Longrightarrow> reached n m m (gf_identity n)"
proof -
  assume s: "square n m"
  have "xsum (\<lambda>k. gmul (gf_identity n ! r ! k) (m ! k ! c)) n = m ! r ! c" if "r < n" for r c
  proof -
    have "xsum (\<lambda>k. gmul (gf_identity n ! r ! k) (m ! k ! c)) n =
        xsum (\<lambda>k. gmul (if k = r then 1 else 0) (m ! k ! c)) n"
      using that by (intro xsum_cong refl) (simp add: identity_nth)
    then show ?thesis using gf.unit_row_vec [OF that] by simp
  qed
  then show ?thesis using s by (simp add: reached_def square_identity)
qed

lemma reached_swap:
  assumes "reached n m0 m e" "i < n" "j < n"
  shows "reached n m0 (swap_rows i j m) (swap_rows i j e)"
proof -
  define p where "p r = (if r = i then j else if r = j then i else r)" for r
  have sq: "square n m" "square n e" using assms(1) by (simp_all add: reached_def)
  have p: "p r < n" "p (p r) = r" if "r < n" for r using that assms by (simp_all add: p_def)
  have rows: "swap_rows i j m ! r = m ! p r" "swap_rows i j e ! r = e ! p r" if "r < n" for r
    using that assms sq by (simp_all add: swap_rows_nth square_def p_def)
  have "in_kernel n m v" if ker: "in_kernel n (swap_rows i j m) v" for v
    unfolding in_kernel_def
  proof (intro allI impI)
    fix r assume r: "r < n"
    have "swap_rows i j m ! p r = m ! r" using rows(1) [of "p r"] p r by simp
    moreover have "xsum (\<lambda>c. gmul (swap_rows i j m ! p r ! c) (v c)) n = 0"
      using ker p(1) [OF r] by (simp add: in_kernel_def)
    ultimately show "xsum (\<lambda>c. gmul (m ! r ! c) (v c)) n = 0" by simp
  qed
  then show ?thesis using assms(1) sq assms(2,3) p
    by (simp add: reached_def square_swap rows)
qed

lemma reached_scale:
  assumes "reached n m0 m e" "i < n" "k \<noteq> 0"
  shows "reached n m0 (m[i := scale_from gf0 0 k (m ! i)]) (e[i := scale_from gf0 0 k (e ! i)])"
proof -
  let ?m = "m[i := scale_from gf0 0 k (m ! i)]" and ?e = "e[i := scale_from gf0 0 k (e ! i)]"
  have sq0: "square n m" "square n e" using assms(1) by (simp_all add: reached_def)
  then have "length (m ! i) = n" "length (e ! i) = n" using assms(2) by (simp_all add: square_def)
  then have sq: "square n m" "square n e" "square n ?m" "square n ?e"
    using sq0 by (simp_all add: square_update)
  have ent: "?m ! r ! c = (if r = i then gmul (m ! r ! c) k else m ! r ! c)"
    "?e ! r ! c = (if r = i then gmul (e ! r ! c) k else e ! r ! c)" if "r < n" "c < n" for r c
    using that sq(1,2) by (auto simp: square_def)
  have old: "m ! r ! c = xsum (\<lambda>k. gmul (e ! r ! k) (m0 ! k ! c)) n" if "r < n" "c < n" for r c
    using that assms(1) by (simp add: reached_def)
  have pull: "xsum (\<lambda>c. gmul (gmul (f c) k) (g c)) n = gmul (xsum (\<lambda>c. gmul (f c) (g c)) n) k" for f g
    unfolding gf.mul_xsum_left
    by (intro xsum_cong refl) (metis gf.mul_assoc gf.mul_commute)
  have prod: "?m ! r ! c = xsum (\<lambda>k. gmul (?e ! r ! k) (m0 ! k ! c)) n" if "r < n" "c < n" for r c
  proof (cases "r = i")
    case True
    have "xsum (\<lambda>j. gmul (?e ! r ! j) (m0 ! j ! c)) n = xsum (\<lambda>j. gmul (gmul (e ! r ! j) k) (m0 ! j ! c)) n"
      using True that by (intro xsum_cong refl) (simp add: ent)
    then show ?thesis using True that old ent pull by simp
  qed (use that old ent in simp)
  have "in_kernel n m v" if ker: "in_kernel n ?m v" for v
    unfolding in_kernel_def
  proof (intro allI impI)
    fix r assume r: "r < n"
    have z: "xsum (\<lambda>c. gmul (?m ! r ! c) (v c)) n = 0" using ker r by (simp add: in_kernel_def)
    have "xsum (\<lambda>c. gmul (?m ! r ! c) (v c)) n =
        (if r = i then xsum (\<lambda>c. gmul (gmul (m ! r ! c) k) (v c)) n else xsum (\<lambda>c. gmul (m ! r ! c) (v c)) n)"
      using r by (auto intro!: xsum_cong simp: ent)
    then show "xsum (\<lambda>c. gmul (m ! r ! c) (v c)) n = 0"
      using z assms(3) by (simp add: pull gf.mul_eq_zero split: if_splits)
  qed
  then show ?thesis using sq prod assms(1) by (simp add: reached_def)
qed

lemma reached_elim:
  assumes "reached n m0 m e" "i < n" "invert_elim gf0 n i (m, e) = (m', e')"
  shows "reached n m0 m' e'"
proof -
  have sq: "square n m" "square n e" using assms(1) by (simp_all add: reached_def)
  have eqs: "m' = map (elim_row gf0 i m m) [0..<n]" "e' = map (elim_row gf0 i m e) [0..<n]"
    using invert_elim_eq [of m n e i gf0] sq assms(2,3) by (simp_all add: square_def)
  define f where "f r = (if r = i then 0 else m ! r ! i)" for r
  have ent: "m' ! r ! c = m ! r ! c XOR gmul (m ! i ! c) (f r)"
    "e' ! r ! c = e ! r ! c XOR gmul (e ! i ! c) (f r)" if "r < n" "c < n" for r c
    using that sq by (simp_all add: eqs elim_row_nth square_def f_def)
  have sq': "square n m'" "square n e'" using sq by (simp_all add: eqs square_def)
  have old: "m ! r ! c = xsum (\<lambda>k. gmul (e ! r ! k) (m0 ! k ! c)) n" if "r < n" "c < n" for r c
    using that assms(1) by (simp add: reached_def)
  have lin: "xsum (\<lambda>k. gmul (a k XOR gmul (b k) t) (g k)) n =
      xsum (\<lambda>k. gmul (a k) (g k)) n XOR gmul (xsum (\<lambda>k. gmul (b k) (g k)) n) t" for a b g t
    unfolding gf.mul_xsum_left xsum_xor [symmetric]
    by (intro xsum_cong refl) (metis gf.mul_assoc gf.mul_commute gf.mul_xor_left)
  have prod: "m' ! r ! c = xsum (\<lambda>k. gmul (e' ! r ! k) (m0 ! k ! c)) n" if "r < n" "c < n" for r c
  proof -
    have "xsum (\<lambda>k. gmul (e' ! r ! k) (m0 ! k ! c)) n =
        xsum (\<lambda>k. gmul (e ! r ! k XOR gmul (e ! i ! k) (f r)) (m0 ! k ! c)) n"
      using that by (intro xsum_cong refl) (simp add: ent)
    then show ?thesis
      unfolding lin using that ent(1) old [OF that] old [OF assms(2) that(2)] by simp
  qed
  have "in_kernel n m v" if ker: "in_kernel n m' v" for v
  proof -
    have row: "xsum (\<lambda>c. gmul (m ! r ! c) (v c)) n XOR
        gmul (xsum (\<lambda>c. gmul (m ! i ! c) (v c)) n) (f r) = 0" if "r < n" for r
    proof -
      have "xsum (\<lambda>c. gmul (m' ! r ! c) (v c)) n =
          xsum (\<lambda>c. gmul (m ! r ! c XOR gmul (m ! i ! c) (f r)) (v c)) n"
        using that by (intro xsum_cong refl) (simp add: ent)
      then show ?thesis using ker that unfolding lin in_kernel_def by simp
    qed
    have "xsum (\<lambda>c. gmul (m ! i ! c) (v c)) n = 0" using row [OF assms(2)] by (simp add: f_def)
    then show ?thesis using row by (simp add: in_kernel_def)
  qed
  then show ?thesis using sq' prod assms(1) by (simp add: reached_def)
qed

text \<open>The first \<open>k\<close> columns are unit columns.\<close>

definition unit_cols :: "nat \<Rightarrow> nat \<Rightarrow> bytes list \<Rightarrow> bool" where
  "unit_cols n k m \<longleftrightarrow> (\<forall>r < n. \<forall>c < k. m ! r ! c = (if c = r then 1 else 0))"

lemma find_pivot_cases:
  assumes "find_pivot m col n = Some p" "col < n"
  shows "col \<le> p" "p < n" "m ! p ! col \<noteq> 0"
  using assms by (auto simp: find_pivot_def find_Some_iff split: if_splits)

lemma find_pivot_none:
  assumes "find_pivot m col n = None"
  shows "col \<le> r \<Longrightarrow> r < n \<Longrightarrow> m ! r ! col = 0"
  using assms by (cases "r = col") (auto simp: find_pivot_def find_None_iff split: if_splits)

text \<open>One round of the elimination turns the next column into a unit column.\<close>

lemma gf_inv_nonzero: "a \<noteq> 0 \<Longrightarrow> gf_inv gf0 a \<noteq> 0"
  using gf.mul_inv [of a] gf.mul_zero(1) [of a] by force

lemma unit_cols_step:
  assumes "square n m" "square n e" "col < n" "unit_cols n col m" "find_pivot m col n = Some p"
    "ms = swap_rows col p m" "es = swap_rows col p e" "k = gf_inv gf0 (ms ! col ! col)"
    "invert_elim gf0 n col (ms[col := scale_from gf0 0 k (ms ! col)], es[col := scale_from gf0 0 k (es ! col)])
      = (m', e')"
  shows "unit_cols n (Suc col) m'"
proof -
  note pv = find_pivot_cases [OF assms(5,3)]
  have sqs: "square n ms" "square n es" using assms(1,2,6,7) pv assms(3) by (simp_all add: square_swap)
  have row: "ms ! r = m ! (if r = col then p else if r = p then col else r)" if "r < n" for r
    using that assms(1,3,6) pv(2) by (simp add: swap_rows_nth square_def)
  have us: "ms ! r ! c = (if c = r then 1 else 0)" if "r < n" "c < col" for r c
    using that assms(3,4) pv row [OF that(1)] by (auto simp: unit_cols_def)
  have piv: "ms ! col ! col \<noteq> 0" using row [OF assms(3)] pv(3) by simp
  let ?mn = "ms[col := scale_from gf0 0 k (ms ! col)]" and ?en = "es[col := scale_from gf0 0 k (es ! col)]"
  have len: "length ms = n" "length es = n" "length (ms ! col) = n" using sqs assms(3) by (simp_all add: square_def)
  have mn: "?mn ! r ! c = (if r = col then gmul (ms ! col ! c) k else ms ! r ! c)" if "c < n" "r < n" for r c
    using that len by auto
  have lens: "length (?mn ! r) = n" if "r < n" for r
    using that square_update [OF sqs(1), of "scale_from gf0 0 k (ms ! col)" col] len by (simp add: square_def)
  have m': "m' = map (elim_row gf0 col ?mn ?mn) [0..<n]"
    using invert_elim_eq [of ?mn n ?en col gf0] len assms(3,9) by simp
  have ent: "m' ! r ! c = ?mn ! r ! c XOR gmul (?mn ! col ! c) (if r = col then 0 else ?mn ! r ! col)"
    if "r < n" "c < n" for r c
    using that lens by (simp add: m' elim_row_nth)
  have one: "gmul (ms ! col ! col) k = 1" using piv assms(8) gf.mul_inv by simp
  show ?thesis unfolding unit_cols_def
  proof (intro allI impI)
    fix r c assume r: "r < n" and c: "c < Suc col"
    then have cn: "c < n" using assms(3) by simp
    show "m' ! r ! c = (if c = r then 1 else 0)"
    proof (cases "c = col")
      case True
      then show ?thesis using r cn ent mn one assms(3) by (cases "r = col") (simp_all add: gf.mul_one)
    next
      case False
      then have "c < col" using c by simp
      then have "ms ! col ! c = 0" "ms ! r ! c = (if c = r then 1 else 0)" using us r assms(3) by auto
      then show ?thesis using r cn ent mn assms(3) \<open>c < col\<close> by (auto simp: gf.mul_zero)
    qed
  qed
qed

text \<open>A column without pivot gives a kernel vector.\<close>

lemma no_pivot_kernel:
  assumes "square n m" "col < n" "unit_cols n col m" "find_pivot m col n = None"
  shows "in_kernel n m (\<lambda>c. if c < col then m ! c ! col else if c = col then 1 else 0)"
  unfolding in_kernel_def
proof (intro allI impI)
  fix r assume r: "r < n"
  let ?v = "\<lambda>c. if c < col then m ! c ! col else if c = col then 1 else 0"
  let ?a = "if r < col then m ! r ! col else 0"
  have "xsum (\<lambda>c. gmul (m ! r ! c) (?v c)) n =
      xsum (\<lambda>c. (if c = r then ?a else 0) XOR (if c = col then m ! r ! col else 0)) n"
  proof (intro xsum_cong refl)
    fix c assume c: "c < n"
    have "c < col \<Longrightarrow> m ! r ! c = (if c = r then 1 else 0)" using assms(3) r by (simp add: unit_cols_def)
    then show "gmul (m ! r ! c) (?v c) = (if c = r then ?a else 0) XOR (if c = col then m ! r ! col else 0)"
      by (auto simp: gf.mul_one gf.mul_zero gf.mul_commute [of _ 1])
  qed
  also have "\<dots> = ?a XOR m ! r ! col"
    unfolding xsum_xor using r assms(2) xsum_delta [of r "\<lambda>_. ?a" n] xsum_delta [of col "\<lambda>_. m ! r ! col" n]
    by simp
  also have "\<dots> = 0" using find_pivot_none [OF assms(4), of r] r by auto
  finally show "xsum (\<lambda>c. gmul (m ! r ! c) (?v c)) n = 0" .
qed

lemma invert_cols_correct:
  assumes "reached n m0 m e" "unit_cols n col m" "col \<le> n"
    "invert_cols gf0 n [col..<n] m e = (ret, m', e')"
  shows "ret = 0 \<and> reached n m0 m' e' \<and> unit_cols n n m' \<or>
    ret = - EINVAL \<and> (\<exists>v. (\<exists>c < n. v c \<noteq> 0) \<and> in_kernel n m0 v)"
  using assms
proof (induction "n - col" arbitrary: col m e)
  case 0
  then show ?case by simp
next
  case (Suc d)
  then have col: "col < n" and up: "[col..<n] = col # [Suc col..<n]" by (simp_all add: upt_conv_Cons)
  have sq: "square n m" "square n e" using Suc.prems(1) by (simp_all add: reached_def)
  show ?case
  proof (cases "find_pivot m col n")
    case None
    let ?v = "\<lambda>c. if c < col then m ! c ! col else if c = col then 1 else 0"
    have "in_kernel n m0 ?v"
      using no_pivot_kernel [OF sq(1) col Suc.prems(2) None] Suc.prems(1) by (simp add: reached_def)
    moreover have "\<exists>c < n. ?v c \<noteq> 0" using col by (intro exI [of _ col]) simp
    ultimately have "\<exists>v. (\<exists>c < n. v c \<noteq> 0) \<and> in_kernel n m0 v" by (intro exI [of _ ?v] conjI)
    then show ?thesis using None Suc.prems(4) unfolding up by simp
  next
    case (Some p)
    note pv = find_pivot_cases [OF Some col]
    define ms es where "ms = swap_rows col p m" and "es = swap_rows col p e"
    define k where "k = gf_inv gf0 (ms ! col ! col)"
    obtain m1 e1 where el: "invert_elim gf0 n col
        (ms[col := scale_from gf0 0 k (ms ! col)], es[col := scale_from gf0 0 k (es ! col)]) = (m1, e1)"
      by (cases "invert_elim gf0 n col
        (ms[col := scale_from gf0 0 k (ms ! col)], es[col := scale_from gf0 0 k (es ! col)])")
    have "ms ! col = m ! p" using sq(1) col pv(2) by (simp add: ms_def swap_rows_nth square_def)
    then have k: "k \<noteq> 0" using gf_inv_nonzero pv(3) by (simp add: k_def)
    have r1: "reached n m0 m1 e1"
      using reached_elim [OF reached_scale [OF reached_swap [OF Suc.prems(1) col pv(2)] col k] col]
        el unfolding ms_def es_def by simp
    have u1: "unit_cols n (Suc col) m1"
      using unit_cols_step [OF sq col Suc.prems(2) Some ms_def es_def k_def el] .
    have "invert_cols gf0 n [Suc col..<n] m1 e1 = (ret, m', e')"
      using Suc.prems(4) Some el unfolding up by (simp add: ms_def es_def k_def Let_def)
    then show ?thesis using Suc.hyps(1) [OF _ r1 u1] Suc.hyps(2) col by simp
  qed
qed

lemma gf_matrix_invert_cases:
  assumes "square n m" "alloc A_identity" "gf_matrix_invert alloc gf0 m n = (ret, e)"
  shows "ret = 0 \<and> square n e \<and>
      (\<forall>r < n. \<forall>c < n. xsum (\<lambda>k. gmul (e ! r ! k) (m ! k ! c)) n = (if c = r then 1 else 0)) \<or>
    ret = - EINVAL \<and> (\<exists>v. (\<exists>c < n. v c \<noteq> 0) \<and> in_kernel n m v)"
proof -
  obtain r1 m1 e1 where i: "invert_cols gf0 n [0..<n] m (gf_identity n) = (r1, m1, e1)"
    by (cases "invert_cols gf0 n [0..<n] m (gf_identity n)")
  have "unit_cols n 0 m" by (simp add: unit_cols_def)
  from invert_cols_correct [OF reached_init [OF assms(1)] this _ i] show ?thesis
    using assms(2,3) i by (auto simp: gf_matrix_invert_def reached_def unit_cols_def)
qed


section \<open>Reconstruction\<close>

lemma length_ec_mac: "length s = length acc \<Longrightarrow> length (ec_mac gf c s acc) = length acc"
  by (simp add: ec_mac_def)

lemma ec_accumulate_props:
  assumes "\<And>d s. d < n \<Longrightarrow> src d = Some s \<Longrightarrow> length s = sz"
  shows "length (ec_accumulate gf sz n coef src) = sz \<and>
    (\<forall>k < sz. ec_accumulate gf sz n coef src ! k =
      xsum (\<lambda>d. case src d of None \<Rightarrow> 0 | Some s \<Rightarrow> gf_mul gf (s ! k) (coef d)) n)"
  using assms
proof (induction n)
  case (Suc n)
  let ?acc = "ec_accumulate gf sz n coef src"
  have e: "ec_accumulate gf sz (Suc n) coef src = (if coef n = 0 then ?acc else
      case src n of None \<Rightarrow> ?acc | Some s \<Rightarrow> ec_mac gf (coef n) s ?acc)"
    by (cases "src n") (simp_all add: ec_accumulate_def)
  have IH: "length ?acc = sz" "\<forall>k < sz. ?acc ! k =
      xsum (\<lambda>d. case src d of None \<Rightarrow> 0 | Some s \<Rightarrow> gf_mul gf (s ! k) (coef d)) n"
    using Suc.IH [OF Suc.prems [OF less_SucI]] by simp_all
  show ?case
  proof (cases "src n")
    case None
    then show ?thesis using IH by (simp add: e)
  next
    case (Some s)
    then have "length s = sz" using Suc.prems [of n s] by simp
    then show ?thesis using IH Some by (simp add: e ec_mac_def)
  qed
qed (simp add: ec_accumulate_def)

definition ec_wf :: "ec_codec \<Rightarrow> bool" where
  "ec_wf c \<longleftrightarrow> ec_gf c = gf0 \<and> 0 < ec_data c \<and> ec_total c = ec_data c + ec_parity c \<and>
    length (ec_matrix c) = ec_parity c \<and> (\<forall>p < ec_parity c. length (ec_matrix c ! p) = ec_data c)"

definition shards_wf :: "nat \<Rightarrow> nat \<Rightarrow> bytes option list \<Rightarrow> bool" where
  "shards_wf n sz shards \<longleftrightarrow> length shards = n \<and> (\<forall>i < n. \<exists>s. shards ! i = Some s \<and> length s = sz)"

text \<open>A code word: every shard is present and the parity shards are those of the data shards.\<close>

definition codeword :: "ec_codec \<Rightarrow> nat \<Rightarrow> bytes option list \<Rightarrow> bool" where
  "codeword c sz shards \<longleftrightarrow> shards_wf (ec_total c) sz shards \<and>
    (\<forall>p < ec_parity c. shards ! (ec_data c + p) = Some (ec_parity_shard c sz shards p))"

lemma ec_accumulate_cong:
  "(\<And>d. d < n \<Longrightarrow> src d = src' d) \<Longrightarrow> ec_accumulate gf sz n coef src = ec_accumulate gf sz n coef src'"
  unfolding ec_accumulate_def by (rule fold_cong) auto

lemma parity_shard_cong:
  "(\<And>d. d < ec_data c \<Longrightarrow> s ! d = s' ! d) \<Longrightarrow> ec_parity_shard c sz s p = ec_parity_shard c sz s' p"
  unfolding ec_parity_shard_def by (rule ec_accumulate_cong)

lemma shards_wf_nth:
  "shards_wf n sz shards \<Longrightarrow> i < n \<Longrightarrow> shards ! i = Some s \<Longrightarrow> length s = sz"
  "shards_wf n sz shards \<Longrightarrow> i < n \<Longrightarrow> shards ! i \<noteq> None"
  by (fastforce simp: shards_wf_def)+

lemma length_parity_shard:
  assumes "ec_wf c" "shards_wf (ec_total c) sz shards"
  shows "length (ec_parity_shard c sz shards p) = sz"
proof -
  have "length s = sz" if "d < ec_data c" "shards ! d = Some s" for d s
    using shards_wf_nth(1) [OF assms(2) _ that(2)] that(1) assms(1) by (simp add: ec_wf_def)
  then show ?thesis unfolding ec_parity_shard_def using ec_accumulate_props by blast
qed

lemma shards_wf_update:
  "shards_wf n sz shards \<Longrightarrow> length s = sz \<Longrightarrow> shards_wf n sz (shards[i := Some s])"
  unfolding shards_wf_def by (metis length_list_update nth_list_update_eq nth_list_update_neq)

lemma ec_encode_loop_ok:
  assumes "ec_wf c" "shards_wf (ec_total c) sz shards" "k \<le> ec_parity c"
    "\<forall>q < k. shards ! (ec_data c + q) = Some (ec_parity_shard c sz shards q)"
  shows "\<exists>out. ec_encode_loop c sz [k..<ec_parity c] shards = (0, out) \<and> codeword c sz out \<and>
    take (ec_data c) out = take (ec_data c) shards"
  using assms
proof (induction "ec_parity c - k" arbitrary: k shards)
  case 0
  then show ?case by (simp add: codeword_def)
next
  case (Suc x)
  let ?d = "ec_data c" and ?p = "ec_parity_shard c sz shards k"
  let ?s = "shards[?d + k := Some ?p]"
  have k: "k < ec_parity c" and up: "[k..<ec_parity c] = k # [Suc k..<ec_parity c]"
    using Suc.hyps(2) by (simp_all add: upt_conv_Cons)
  have dk: "?d + k < ec_total c" "0 < ec_total c" using Suc.prems(1) k by (simp_all add: ec_wf_def)
  have len: "length ?p = sz"
    using length_parity_shard Suc.prems(1,2) .
  have wf: "shards_wf (ec_total c) sz ?s"
    using Suc.prems(2) len by (rule shards_wf_update)
  have same: "ec_parity_shard c sz ?s q = ec_parity_shard c sz shards q" for q
    by (rule parity_shard_cong) simp
  have "\<forall>q < Suc k. ?s ! (?d + q) = Some (ec_parity_shard c sz ?s q)"
    using Suc.prems(2,4) dk(1) same by (simp add: less_Suc_eq shards_wf_def nth_list_update)
  moreover have "x = ec_parity c - Suc k" "Suc k \<le> ec_parity c" using k Suc.hyps(2) by simp_all
  ultimately obtain out where out: "ec_encode_loop c sz [Suc k..<ec_parity c] ?s = (0, out)" "codeword c sz out"
    "take ?d out = take ?d ?s" using Suc.hyps(1) [OF _ Suc.prems(1) wf] by blast
  have "shards ! (?d + k) \<noteq> None" "shards ! 0 \<noteq> None"
    using shards_wf_nth(2) [OF Suc.prems(2)] dk by blast+
  then show ?case using out unfolding up by simp
qed

text \<open>Every shard of a code word is a linear combination of the data shards.\<close>

lemma codeword_row:
  assumes "ec_wf c" "codeword c sz orig" "i < ec_total c" "k < sz"
  shows "the (orig ! i) ! k = xsum (\<lambda>d. gmul (ec_sub_row c i ! d) (the (orig ! d) ! k)) (ec_data c)"
proof (cases "i < ec_data c")
  case True
  have "xsum (\<lambda>d. gmul (ec_sub_row c i ! d) (the (orig ! d) ! k)) (ec_data c) =
      xsum (\<lambda>d. gmul (if d = i then 1 else 0) (the (orig ! d) ! k)) (ec_data c)"
    using True by (intro xsum_cong refl) (auto simp: ec_sub_row_def)
  then show ?thesis using gf.unit_row_vec [OF True] by simp
next
  case False
  let ?p = "i - ec_data c"
  have p: "?p < ec_parity c" "ec_data c + ?p = i" using assms(1,3) False by (auto simp: ec_wf_def)
  have swf: "shards_wf (ec_total c) sz orig" using assms(2) by (simp add: codeword_def)
  have lt: "d < ec_total c" if "d < ec_data c" for d using that assms(1) by (simp add: ec_wf_def)
  have wf: "length s = sz" if "d < ec_data c" "orig ! d = Some s" for d s
    using shards_wf_nth(1) [OF swf lt] that by blast
  have "the (orig ! i) = ec_parity_shard c sz orig ?p"
    using assms(2) p unfolding codeword_def by (metis option.sel)
  then have "the (orig ! i) ! k = xsum (\<lambda>d. case orig ! d of None \<Rightarrow> 0
      | Some s \<Rightarrow> gmul (s ! k) (ec_matrix c ! ?p ! d)) (ec_data c)"
    using ec_accumulate_props [OF wf] assms(1,4) by (simp add: ec_parity_shard_def ec_wf_def)
  also have "\<dots> = xsum (\<lambda>d. gmul (ec_sub_row c i ! d) (the (orig ! d) ! k)) (ec_data c)"
  proof (intro xsum_cong refl)
    fix d assume "d < ec_data c"
    then obtain s where "orig ! d = Some s" using shards_wf_nth(2) [OF swf lt] by blast
    then show "(case orig ! d of None \<Rightarrow> 0 | Some s \<Rightarrow> gmul (s ! k) (ec_matrix c ! ?p ! d)) =
        gmul (ec_sub_row c i ! d) (the (orig ! d) ! k)"
      using False by (simp add: ec_sub_row_def gf_mul_commute)
  qed
  finally show ?thesis .
qed

lemma rebuild_parity_ok:
  assumes "ec_wf c" "codeword c sz orig" "alloc = (\<lambda>_. True)" "length shards = ec_total c"
    "\<forall>d < ec_data c. shards ! d = orig ! d" "\<forall>i < ec_total c. available ! i \<longrightarrow> shards ! i = orig ! i"
    "\<forall>i \<in> set is. ec_data c \<le> i \<and> i < ec_total c"
  shows "\<exists>out. ec_rebuild_parity alloc c sz available is shards = (0, out) \<and> length out = ec_total c \<and>
    (\<forall>i < ec_total c. shards ! i = orig ! i \<or> i \<in> set is \<longrightarrow> out ! i = orig ! i)"
  using assms(4-)
proof (induction "is" arbitrary: shards)
  case (Cons i "is")
  show ?case
  proof (cases "available ! i")
    case True
    then show ?thesis using Cons by force
  next
    case False
    let ?s = "shards[i := Some (ec_parity_shard c sz shards (i - ec_data c))]"
    have i: "ec_data c \<le> i" "i < ec_total c" using Cons.prems(4) by simp_all
    have p: "i - ec_data c < ec_parity c" "ec_data c + (i - ec_data c) = i"
      using assms(1) i by (simp_all add: ec_wf_def)
    have "ec_parity_shard c sz shards (i - ec_data c) = ec_parity_shard c sz orig (i - ec_data c)"
      using Cons.prems(2) by (intro parity_shard_cong) simp
    then have fix_i: "?s ! i = orig ! i"
      using assms(2) p i(2) Cons.prems(1) unfolding codeword_def by (metis nth_list_update_eq)
    have keep: "j \<noteq> i \<Longrightarrow> ?s ! j = shards ! j" for j by simp
    have dat: "\<forall>d < ec_data c. ?s ! d = orig ! d"
      using Cons.prems(2) keep i(1) by (metis leD)
    have av: "\<forall>j < ec_total c. available ! j \<longrightarrow> ?s ! j = orig ! j"
      using Cons.prems(3) keep False by metis
    have rest: "\<forall>j \<in> set is. ec_data c \<le> j \<and> j < ec_total c" "length ?s = ec_total c"
      using Cons.prems(1,4) by simp_all
    obtain out where out: "ec_rebuild_parity alloc c sz available is ?s = (0, out)" "length out = ec_total c"
      "\<forall>j < ec_total c. ?s ! j = orig ! j \<or> j \<in> set is \<longrightarrow> out ! j = orig ! j"
      using Cons.IH [OF rest(2) dat av rest(1)] by blast
    have "\<forall>j < ec_total c. shards ! j = orig ! j \<or> j \<in> set (i # is) \<longrightarrow> out ! j = orig ! j"
      using out(3) fix_i keep by (metis set_ConsD)
    then show ?thesis using False out(1,2) assms(3) by simp
  qed
qed simp

text \<open>The left inverse of the sub-matrix applied to the available shards gives each data shard.\<close>

lemma reconstruct_shard:
  assumes "ec_wf c" "codeword c sz orig" "m < ec_data c" "orig ! m = Some s"
    "\<And>i. i < ec_data c \<Longrightarrow> a i < ec_total c \<and> src i = orig ! a i"
    "\<And>d. d < ec_data c \<Longrightarrow>
      xsum (\<lambda>i. gmul (inv_m ! m ! i) (ec_sub_row c (a i) ! d)) (ec_data c) = (if d = m then 1 else 0)"
  shows "ec_accumulate (ec_gf c) sz (ec_data c) (\<lambda>i. inv_m ! m ! i) src = s"
proof -
  let ?n = "ec_data c" and ?o = "\<lambda>i k. the (orig ! i) ! k"
  have swf: "shards_wf (ec_total c) sz orig" and gf: "ec_gf c = gf0" and lt: "m < ec_total c"
    using assms(1-3) by (simp_all add: codeword_def ec_wf_def)
  have src: "src i \<noteq> None" "src i = Some t \<Longrightarrow> length t = sz" if "i < ?n" for i t
    using shards_wf_nth [OF swf] assms(5) [OF that] by metis+
  note acc = ec_accumulate_props [of ?n src sz gf0 "\<lambda>i. inv_m ! m ! i", OF src(2)]
  have "ec_accumulate gf0 sz ?n (\<lambda>i. inv_m ! m ! i) src ! k = s ! k" if k: "k < sz" for k
  proof -
    have "ec_accumulate gf0 sz ?n (\<lambda>i. inv_m ! m ! i) src ! k =
        xsum (\<lambda>i. case src i of None \<Rightarrow> 0 | Some s \<Rightarrow> gmul (s ! k) (inv_m ! m ! i)) ?n"
      using acc k by simp
    also have "\<dots> = xsum (\<lambda>i. gmul (inv_m ! m ! i)
        (xsum (\<lambda>d. gmul (ec_sub_row c (a i) ! d) (?o d k)) ?n)) ?n"
    proof (intro xsum_cong refl)
      fix i assume i: "i < ?n"
      then obtain t where t: "src i = Some t" using src(1) by blast
      have o: "orig ! a i = Some t" "a i < ec_total c" using assms(5) [OF i] t by simp_all
      have "t ! k = xsum (\<lambda>d. gmul (ec_sub_row c (a i) ! d) (?o d k)) ?n"
        using codeword_row [OF assms(1,2) o(2) k] unfolding o(1) by simp
      then show "(case src i of None \<Rightarrow> 0 | Some s \<Rightarrow> gmul (s ! k) (inv_m ! m ! i)) =
          gmul (inv_m ! m ! i) (xsum (\<lambda>d. gmul (ec_sub_row c (a i) ! d) (?o d k)) ?n)"
        using t by (simp add: gf_mul_commute)
    qed
    also have "\<dots> = xsum (\<lambda>d. gmul (if d = m then 1 else 0) (?o d k)) ?n"
      unfolding gf.mat_vec_assoc by (intro xsum_cong refl) (simp add: assms(6))
    also have "\<dots> = s ! k" using gf.unit_row_vec [OF assms(3)] assms(4) by simp
    finally show ?thesis .
  qed
  moreover have "length s = sz" using shards_wf_nth(1) [OF swf lt assms(4)] .
  ultimately show ?thesis using acc unfolding gf by (intro nth_equalityI) simp_all
qed

lemma rebuild_data_ok:
  assumes "ec_wf c" "codeword c sz orig" "alloc = (\<lambda>_. True)" "length shards = ec_total c"
    "\<And>i. i < ec_data c \<Longrightarrow> avail ! i < ec_total c \<and> available ! (avail ! i)"
    "\<forall>i < ec_total c. available ! i \<longrightarrow> shards ! i = orig ! i"
    "\<And>r d. r < ec_data c \<Longrightarrow> d < ec_data c \<Longrightarrow>
      xsum (\<lambda>i. gmul (inv_m ! r ! i) (ec_sub_row c (avail ! i) ! d)) (ec_data c) = (if d = r then 1 else 0)"
    "\<forall>m \<in> set ms. m < ec_data c \<and> \<not> available ! m"
  shows "\<exists>out. ec_rebuild_data alloc c sz inv_m avail ms shards = (0, out) \<and> length out = ec_total c \<and>
    (\<forall>i < ec_total c. shards ! i = orig ! i \<or> i \<in> set ms \<longrightarrow> out ! i = orig ! i)"
  using assms(4,6,8)
proof (induction ms arbitrary: shards)
  case (Cons m ms)
  let ?s = "shards[m := Some (ec_accumulate (ec_gf c) sz (ec_data c)
      (\<lambda>i. inv_m ! m ! i) (\<lambda>i. shards ! (avail ! i)))]"
  have m: "m < ec_data c" "\<not> available ! m" "m < ec_total c" using Cons.prems(3) assms(1) by (simp_all add: ec_wf_def)
  have swf: "shards_wf (ec_total c) sz orig" using assms(2) by (simp add: codeword_def)
  obtain s where s: "orig ! m = Some s" using shards_wf_nth(2) [OF swf m(3)] by blast
  have fix_m: "?s ! m = orig ! m"
    using reconstruct_shard [OF assms(1,2) m(1) s, of "\<lambda>i. avail ! i" "\<lambda>i. shards ! (avail ! i)" inv_m]
      assms(5,7) m(1,3) Cons.prems(1,2) s by simp
  have keep: "j \<noteq> m \<Longrightarrow> ?s ! j = shards ! j" for j by simp
  have av: "\<forall>i < ec_total c. available ! i \<longrightarrow> ?s ! i = orig ! i" using Cons.prems(2) keep m(2) by metis
  have ms: "\<forall>m \<in> set ms. m < ec_data c \<and> \<not> available ! m" "length ?s = ec_total c"
    using Cons.prems(1,3) by simp_all
  obtain out where out: "ec_rebuild_data alloc c sz inv_m avail ms ?s = (0, out)" "length out = ec_total c"
    "\<forall>i < ec_total c. ?s ! i = orig ! i \<or> i \<in> set ms \<longrightarrow> out ! i = orig ! i"
    using Cons.IH [OF ms(2) av ms(1)] by blast
  have "\<forall>i < ec_total c. shards ! i = orig ! i \<or> i \<in> set (m # ms) \<longrightarrow> out ! i = orig ! i"
    using out(3) fix_m keep by (metis set_ConsD)
  then show ?case using out(1,2) assms(3) by simp
qed simp

lemma can_recover_avail:
  assumes "powerfs_ec_can_recover (Some c) available" "i < ec_data c"
    "avail = filter (\<lambda>i. available ! i) [0..<ec_total c]"
  shows "avail ! i < ec_total c \<and> available ! (avail ! i)"
proof -
  have "i < length avail" using assms by (simp add: powerfs_ec_can_recover_def)
  then have "avail ! i \<in> set avail" by simp
  then show ?thesis using assms(3) by simp
qed

lemma decode_finish:
  assumes "ec_wf c" "codeword c sz orig" "alloc = (\<lambda>_. True)" "length shards = ec_total c"
    "\<forall>d < ec_data c. shards ! d = orig ! d" "\<forall>i < ec_total c. available ! i \<longrightarrow> shards ! i = orig ! i"
  shows "ec_rebuild_parity alloc c sz available [ec_data c..<ec_total c] shards = (0, orig)"
proof -
  obtain out where out: "ec_rebuild_parity alloc c sz available [ec_data c..<ec_total c] shards = (0, out)"
    "length out = ec_total c"
    "\<forall>i < ec_total c. shards ! i = orig ! i \<or> i \<in> set [ec_data c..<ec_total c] \<longrightarrow> out ! i = orig ! i"
    using rebuild_parity_ok [OF assms, where ?is = "[ec_data c..<ec_total c]"] by auto
  have "out ! i = orig ! i" if "i < ec_total c" for i
    using out(3) that assms(5) by (cases "i < ec_data c") simp_all
  moreover have "length orig = ec_total c" using assms(2) by (simp add: codeword_def shards_wf_def)
  ultimately have "out = orig" using out(2) by (intro nth_equalityI) simp_all
  then show ?thesis using out(1) by simp
qed


text \<open>A two plus one code, used to exercise the theorems below.\<close>

definition ec_xor21 :: ec_codec where
  "ec_xor21 = \<lparr>ec_data = 2, ec_parity = 1, ec_total = 3, ec_gf = gf0, ec_matrix = [[1, 1]]\<rparr>"

lemma gmul_one_right [simp]: "gmul a 1 = a"
  using gf_mul_one [of a] by (simp add: gf_mul_commute)

lemma ec_xor21_wf: "ec_wf ec_xor21"
  by (simp add: ec_wf_def ec_xor21_def)

lemma ec_xor21_codeword: "codeword ec_xor21 1 [Some [5], Some [3], Some [6]]"
  by (auto simp: codeword_def shards_wf_def ec_xor21_def ec_parity_shard_def ec_accumulate_def ec_mac_def
      numeral_eq_Suc less_Suc_eq)


section \<open>Properties\<close>

text \<open>C4: Degraded read. If the available shards are those of a code word and at least as many as
  there are data shards, decoding returns the complete code word, every missing data and parity shard
  included; the only other outcome (allocations succeeding) is EINVAL with the shards untouched, and
  then the selected rows of the encoding matrix are linearly dependent.\<close>

theorem ec_decode_recovers:
  assumes "ec_wf c" "codeword c sz orig" "alloc = (\<lambda>_. True)" "length shards = ec_total c"
    "\<forall>i < ec_total c. available ! i \<longrightarrow> shards ! i = orig ! i"
    "powerfs_ec_can_recover (Some c) available"
    "avail = filter (\<lambda>i. available ! i) [0..<ec_total c]"
    "powerfs_ec_decode alloc (Some c) shards available sz = (ret, out)"
  shows "ret = 0 \<and> out = orig \<or> ret = - EINVAL \<and> out = shards \<and>
    (\<exists>v. (\<exists>d < ec_data c. v d \<noteq> 0) \<and>
      (\<forall>i < ec_data c. xsum (\<lambda>d. gmul (ec_sub_row c (avail ! i) ! d) (v d)) (ec_data c) = 0))"
proof -
  let ?n = "ec_data c" and ?missing = "filter (\<lambda>i. \<not> available ! i) [0..<ec_data c]"
  let ?sub = "map (\<lambda>i. ec_sub_row c (avail ! i)) [0..<?n]"
  have nt: "?n \<le> ec_total c" and gf: "ec_gf c = gf0" using assms(1) by (simp_all add: ec_wf_def)
  note av = can_recover_avail [OF assms(6) _ assms(7)]
  show ?thesis
  proof (cases "?missing = []")
    case True
    then have "\<forall>d < ?n. shards ! d = orig ! d"
      using assms(5) nt by (simp add: filter_empty_conv)
    from decode_finish [OF assms(1-4) this assms(5)] show ?thesis
      using True assms(3,6,8) by (simp add: powerfs_ec_decode_def)
  next
    case False
    have "length (ec_sub_row c (avail ! i)) = ?n" if "i < ?n" for i
      using av [OF that] assms(1) by (auto simp: ec_sub_row_def ec_wf_def)
    then have sq: "square ?n ?sub" by (simp add: square_def)
    obtain r1 inv_m where inv: "gf_matrix_invert alloc gf0 ?sub ?n = (r1, inv_m)"
      by (cases "gf_matrix_invert alloc gf0 ?sub ?n")
    have dec: "powerfs_ec_decode alloc (Some c) shards available sz =
        (if r1 \<noteq> 0 then (r1, shards) else
          let (ret, shards) = ec_rebuild_data alloc c sz inv_m avail ?missing shards in
          if ret \<noteq> 0 then (ret, shards)
          else ec_rebuild_parity alloc c sz available [?n..<ec_total c] shards)"
      using assms(6) False inv unfolding assms(3)
      by (simp add: powerfs_ec_decode_def gf assms(7) [symmetric])
    from gf_matrix_invert_cases [OF sq _ inv] assms(3) consider
      (ok) "r1 = 0" "\<And>r d. r < ?n \<Longrightarrow> d < ?n \<Longrightarrow>
        xsum (\<lambda>k. gmul (inv_m ! r ! k) (?sub ! k ! d)) ?n = (if d = r then 1 else 0)"
      | (sing) v where "r1 = - EINVAL" "\<exists>d < ?n. v d \<noteq> 0" "in_kernel ?n ?sub v" by blast
    then show ?thesis
    proof cases
      case ok
      have inv_sub: "xsum (\<lambda>k. gmul (inv_m ! r ! k) (ec_sub_row c (avail ! k) ! d)) ?n = (if d = r then 1 else 0)"
        if "r < ?n" "d < ?n" for r d
        using ok(2) [OF that] by simp
      have mis: "\<forall>m \<in> set ?missing. m < ?n \<and> \<not> available ! m" by simp
      obtain s1 where s1: "ec_rebuild_data alloc c sz inv_m avail ?missing shards = (0, s1)"
        "length s1 = ec_total c"
        "\<forall>i < ec_total c. shards ! i = orig ! i \<or> i \<in> set ?missing \<longrightarrow> s1 ! i = orig ! i"
        using rebuild_data_ok [OF assms(1-4) av assms(5) inv_sub mis] by blast
      have "s1 ! d = orig ! d" if "d < ?n" for d
      proof (cases "available ! d")
        case True
        then show ?thesis using s1(3) assms(5) order_less_le_trans [OF that nt] by blast
      next
        case False
        then show ?thesis using s1(3) that order_less_le_trans [OF that nt] by simp
      qed
      moreover have "\<forall>i < ec_total c. available ! i \<longrightarrow> s1 ! i = orig ! i"
        using s1(3) assms(5) by blast
      ultimately show ?thesis using decode_finish [OF assms(1-3) s1(2)]
        using dec assms(8) ok(1) s1(1) by simp
    next
      case sing
      then have "\<forall>i < ?n. xsum (\<lambda>d. gmul (ec_sub_row c (avail ! i) ! d) (v d)) ?n = 0"
        by (simp add: in_kernel_def)
      then have "\<exists>v. (\<exists>d < ?n. v d \<noteq> 0) \<and>
          (\<forall>i < ?n. xsum (\<lambda>d. gmul (ec_sub_row c (avail ! i) ! d) (v d)) ?n = 0)"
        using sing(2) by (intro exI [of _ v] conjI)
      then show ?thesis using dec assms(8) sing(1) by simp
    qed
  qed
qed

theorem ec_decode_recovers_witness:
  "powerfs_ec_decode (\<lambda>_. True) (Some ec_xor21) [None, Some [3], Some [6]] [False, True, True] 1 =
    (0, [Some [5], Some [3], Some [6]])"
proof -
  let ?s = "[None, Some [3], Some [6]]" and ?a = "[False, True, True]"
  obtain ret out where e: "powerfs_ec_decode (\<lambda>_. True) (Some ec_xor21) ?s ?a 1 = (ret, out)"
    by (cases "powerfs_ec_decode (\<lambda>_. True) (Some ec_xor21) ?s ?a 1")
  have avail: "filter (\<lambda>i. ?a ! i) [0..<ec_total ec_xor21] = [1, 2]"
    by (simp add: ec_xor21_def upt_conv_Cons)
  have agree: "\<forall>i < ec_total ec_xor21. ?a ! i \<longrightarrow> ?s ! i = [Some [5], Some [3], Some [6]] ! i"
    by (simp add: ec_xor21_def numeral_eq_Suc less_Suc_eq)
  have rec: "powerfs_ec_can_recover (Some ec_xor21) ?a"
    using avail by (simp add: powerfs_ec_can_recover_def) (simp add: ec_xor21_def)
  have sub: "ec_sub_row ec_xor21 1 = [0, 1]" "ec_sub_row ec_xor21 2 = [1, 1]"
    by (simp_all add: ec_sub_row_def ec_xor21_def numeral_eq_Suc)
  have dims: "ec_data ec_xor21 = 2" "ec_total ec_xor21 = 3" by (simp_all add: ec_xor21_def)
  have indep: False if v: "\<exists>d < 2. v d \<noteq> 0"
    and k: "\<forall>i < 2. xsum (\<lambda>d. gmul (ec_sub_row ec_xor21 ([1, 2] ! i) ! d) (v d)) 2 = 0" for v
  proof -
    have x2: "xsum f 2 = f 0 XOR f 1" for f by (simp add: numeral_2_eq_2)
    have "v 1 = 0" "v 0 XOR v 1 = 0"
      using k [rule_format, of 0] k [rule_format, of 1] by (simp_all add: x2 sub sub [unfolded One_nat_def])
    then show False using v by (auto dest: less_2_cases)
  qed
  have "length [None, Some [3], Some [6]] = ec_total ec_xor21" by (simp add: dims)
  from ec_decode_recovers [OF ec_xor21_wf ec_xor21_codeword refl this agree rec avail [symmetric] e]
  have "ret = 0 \<and> out = [Some [5], Some [3], Some [6]]"
    unfolding dims using indep by blast
  then show ?thesis using e by simp
qed

text \<open>Encoding a full set of shards succeeds, leaves the data shards as they are and produces a
  code word, so that the parity shards can later stand in for lost data.\<close>

theorem ec_encode_codeword:
  assumes "ec_wf c" "shards_wf (ec_total c) sz shards"
    "powerfs_ec_encode (Some c) shards sz = (ret, out)"
  shows "ret = 0 \<and> codeword c sz out \<and> take (ec_data c) out = take (ec_data c) shards"
  using ec_encode_loop_ok [OF assms(1,2), of 0] assms(3) by (auto simp: powerfs_ec_encode_def)

theorem ec_encode_codeword_witness:
  "fst (powerfs_ec_encode (Some ec_xor21) [Some [5], Some [3], Some [0]] 1) = 0"
proof -
  obtain ret out where e: "powerfs_ec_encode (Some ec_xor21) [Some [5], Some [3], Some [0]] 1 = (ret, out)"
    by (cases "powerfs_ec_encode (Some ec_xor21) [Some [5], Some [3], Some [0]] 1")
  have "shards_wf (ec_total ec_xor21) 1 [Some [5], Some [3], Some [0]]"
    by (simp add: shards_wf_def ec_xor21_def numeral_eq_Suc less_Suc_eq)
  from ec_encode_codeword [OF ec_xor21_wf this e] show ?thesis using e by simp
qed

text \<open>Gauss-Jordan inversion over the code's tables either returns a left inverse of the matrix,
  or reports EINVAL, and then the matrix is singular: it sends a nonzero vector to zero.\<close>

theorem gf_matrix_invert_correct:
  assumes "square n m" "alloc A_identity" "gf_matrix_invert alloc gf0 m n = (ret, e)"
  shows "ret = 0 \<and>
      (\<forall>r c. r < n \<and> c < n \<longrightarrow> xsum (\<lambda>k. gmul (e ! r ! k) (m ! k ! c)) n = (if c = r then 1 else 0)) \<or>
    ret = - EINVAL \<and> (\<exists>v. (\<exists>c < n. v c \<noteq> 0) \<and> (\<forall>r < n. xsum (\<lambda>c. gmul (m ! r ! c) (v c)) n = 0))"
  using gf_matrix_invert_cases [OF assms] by (auto simp: in_kernel_def)

theorem gf_matrix_invert_correct_witness:
  "fst (gf_matrix_invert (\<lambda>_. True) gf0 [[1]] 1) \<in> {0, - EINVAL}"
proof -
  obtain ret e where i: "gf_matrix_invert (\<lambda>_. True) gf0 [[1]] 1 = (ret, e)"
    by (cases "gf_matrix_invert (\<lambda>_. True) gf0 [[1]] 1")
  have "square 1 [[1]]" by (simp add: square_def)
  from gf_matrix_invert_correct [OF this _ i] show ?thesis using i by auto
qed

text \<open>The codec constructor never returns a codec: for every admissible pair of shard counts the
  Vandermonde matrix has an all-zero first column (the power routine returns 0 for base 0 even with
  exponent 0), so the systematic form does not exist and the result is EINVAL (ENOMEM if an
  allocation fails first).\<close>

theorem ec_init_never_succeeds:
  assumes "unat data_shards + unat parity_shards < 2 ^ 32"
  shows "powerfs_ec_init alloc data_shards parity_shards \<in> {Inl (- EINVAL), Inl (- ENOMEM)}"
proof (cases "data_shards = 0 \<or> parity_shards = 0 \<or> data_shards + parity_shards > 255")
  case False
  let ?t = "unat (data_shards + parity_shards)" and ?d = "unat data_shards" and ?g = "gf_init gf_zero"
  have d: "0 < ?d" using False by (simp add: unat_gt_0)
  have "?t = ?d + unat parity_shards" using assms by (simp add: unat_word_ariths)
  then have t: "0 < ?t" using d by simp
  let ?v = "vandermonde_matrix ?g ?t ?d"
  have z: "?v ! r ! 0 = 0" if "r < ?t" for r
    using that d by (simp add: vandermonde_matrix_def gf_pow_def)
  have "find_pivot ?v 0 ?t = None"
    using z t by (auto simp: find_pivot_def find_None_iff)
  then have "vandermonde_to_systematic ?g ?v ?t ?d = (- EINVAL, ?v)"
    using d by (simp add: vandermonde_to_systematic_def upt_conv_Cons)
  then show ?thesis using False by (simp add: powerfs_ec_init_def Let_def)
qed (simp add: powerfs_ec_init_def)

theorem ec_init_never_succeeds_witness:
  "powerfs_ec_init (\<lambda>_. True) 4 2 \<in> {Inl (- EINVAL), Inl (- ENOMEM)}"
  by (rule ec_init_never_succeeds) simp

end
