(* ===== verification/Flow.thy ===== *)
theory Flow
  imports Prelude "HOL-Library.Signed_Division"
begin

text \<open>
  The client flow controller of \<open>powerfs_flow.c\<close>: per-connection and global in-flight counters,
  admission decisions that shrink with the server's load factor, and latency tracking by an
  exponentially weighted average. Each call is one atomic step on the controller; a thread that
  waits on \<open>admit_wq\<close> sees a sequence of such steps made by other threads, which is an argument of
  the waiting operations. In-flight counters are mathematical integers (their 32-bit range is never
  reached), totals and latencies are 64-bit words, the limits are 32-bit words converted to
  \<open>int\<close> where the code converts them.
\<close>

abbreviation POWERFS_NET_MAX_FILERS :: nat where "POWERFS_NET_MAX_FILERS \<equiv> 16"
abbreviation POWERFS_NET_MAX_VOLUMES :: nat where "POWERFS_NET_MAX_VOLUMES \<equiv> 32"
abbreviation POWERFS_FLOW_MAX_CONNS :: nat where
  "POWERFS_FLOW_MAX_CONNS \<equiv> POWERFS_NET_MAX_FILERS + POWERFS_NET_MAX_VOLUMES"

abbreviation LF_NORMAL :: u8 where "LF_NORMAL \<equiv> 1"
abbreviation LF_BUSY :: u8 where "LF_BUSY \<equiv> 2"
abbreviation LF_OVERLOAD :: u8 where "LF_OVERLOAD \<equiv> 3"

datatype flow_decision = FLOW_ADMIT | FLOW_QUEUE | FLOW_REJECT

record flow_conn_stats =
  fc_active :: int
  fc_lf :: u8
  fc_slow :: int
  fc_total_reqs :: u64
  fc_total_errs :: u64
  fc_total_bytes :: u64
  fc_total_lat_ns :: u64
  fc_ewma :: u64
  fc_lf_jiffies :: u64

record flow_global =
  fg_active :: int
  fg_active_conns :: int
  fg_slow_conns :: int
  fg_total_reqs :: u64
  fg_total_errs :: u64
  fg_bytes_sent :: u64
  fg_bytes_recv :: u64
  fg_queue_count :: u64
  fg_reject_count :: u64
  fg_queue_wakeups :: u64

record flow_controller =
  fl_global :: flow_global
  fl_conns :: "flow_conn_stats list"
  fl_max_global :: u32
  fl_max_per_conn :: u32
  fl_slow_thresh :: u64

definition flow_get_stats :: "flow_controller \<Rightarrow> int \<Rightarrow> nat option" where
  "flow_get_stats s flow_idx =
    (if flow_idx \<ge> 0 \<and> flow_idx < int POWERFS_FLOW_MAX_CONNS then Some (nat flow_idx) else None)"

definition ewma_update :: "u64 \<Rightarrow> u64 \<Rightarrow> u64" where
  "ewma_update old new_val = old - drop_bit 3 old + drop_bit 3 new_val"

definition powerfs_flow_max_load_factor :: "flow_controller \<Rightarrow> u8" where
  "powerfs_flow_max_load_factor s =
    fold (\<lambda>i max_lf. if fc_lf (fl_conns s ! i) > max_lf then fc_lf (fl_conns s ! i) else max_lf)
      [0..<POWERFS_NET_MAX_FILERS] 0"

text \<open>The shared scaling of a limit by the load factor; the tripled limit wraps in 32 bits.\<close>

definition flow_scale :: "u8 \<Rightarrow> int \<Rightarrow> int" where
  "flow_scale lf max0 =
    (let m = (if lf = LF_OVERLOAD then max0 sdiv 4
              else if lf = LF_BUSY then max0 sdiv 2
              else if lf = LF_NORMAL then sint (of_int (max0 * 3) :: u32) sdiv 4
              else max0)
     in if m < 1 then 1 else m)"

definition powerfs_flow_admit_vfs :: "flow_controller \<Rightarrow> flow_decision" where
  "powerfs_flow_admit_vfs s =
    (let lf = powerfs_flow_max_load_factor s;
         m = flow_scale lf (sint (fl_max_global s))
     in if fg_active (fl_global s) \<ge> m then (if lf \<ge> LF_OVERLOAD then FLOW_REJECT else FLOW_QUEUE)
        else FLOW_ADMIT)"

definition powerfs_flow_admit :: "flow_controller \<Rightarrow> int \<Rightarrow> flow_decision" where
  "powerfs_flow_admit s flow_idx =
    (case flow_get_stats s flow_idx of
       None \<Rightarrow> FLOW_ADMIT
     | Some i \<Rightarrow>
       let c = fl_conns s ! i; lf = fc_lf c; m = flow_scale lf (sint (fl_max_per_conn s)) in
       if fg_active (fl_global s) \<ge> sint (fl_max_global s)
       then (if lf \<ge> LF_OVERLOAD then FLOW_REJECT else FLOW_QUEUE)
       else if fc_active c \<ge> m then (if lf \<ge> LF_OVERLOAD then FLOW_REJECT else FLOW_QUEUE)
       else FLOW_ADMIT)"

definition flow_conn_zero :: flow_conn_stats where
  "flow_conn_zero = \<lparr>fc_active = 0, fc_lf = 0, fc_slow = 0, fc_total_reqs = 0, fc_total_errs = 0,
     fc_total_bytes = 0, fc_total_lat_ns = 0, fc_ewma = 0, fc_lf_jiffies = 0\<rparr>"

definition powerfs_flow_init :: flow_controller where
  "powerfs_flow_init =
    \<lparr>fl_global = \<lparr>fg_active = 0, fg_active_conns = 0, fg_slow_conns = 0, fg_total_reqs = 0,
       fg_total_errs = 0, fg_bytes_sent = 0, fg_bytes_recv = 0, fg_queue_count = 0,
       fg_reject_count = 0, fg_queue_wakeups = 0\<rparr>,
     fl_conns = replicate POWERFS_FLOW_MAX_CONNS flow_conn_zero,
     fl_max_global = 256, fl_max_per_conn = 64, fl_slow_thresh = 200000000\<rparr>"

definition powerfs_flow_record_start :: "int \<Rightarrow> u32 \<Rightarrow> flow_controller \<Rightarrow> flow_controller" where
  "powerfs_flow_record_start flow_idx est_bytes s =
    (case flow_get_stats s flow_idx of
       None \<Rightarrow> s
     | Some i \<Rightarrow>
       let c = fl_conns s ! i; g = fl_global s;
           g = g\<lparr>fg_active := fg_active g + 1\<rparr>;
           g = (if est_bytes > 0 then g\<lparr>fg_bytes_sent := fg_bytes_sent g + ucast est_bytes\<rparr> else g)
       in s\<lparr>fl_conns := (fl_conns s)[i := c\<lparr>fc_active := fc_active c + 1\<rparr>], fl_global := g\<rparr>)"

definition powerfs_flow_record_complete ::
    "int \<Rightarrow> u64 \<Rightarrow> u32 \<Rightarrow> bool \<Rightarrow> flow_controller \<Rightarrow> flow_controller" where
  "powerfs_flow_record_complete flow_idx lat_ns nbytes err s =
    (case flow_get_stats s flow_idx of
       None \<Rightarrow> s
     | Some i \<Rightarrow>
       let c = fl_conns s ! i; g = fl_global s;
           ewma = ewma_update (fc_ewma c) lat_ns;
           was_slow = fc_slow c \<noteq> 0;
           is_slow = ewma > fl_slow_thresh s;
           c = c\<lparr>fc_active := fc_active c - 1, fc_total_reqs := fc_total_reqs c + 1,
                 fc_total_lat_ns := fc_total_lat_ns c + lat_ns,
                 fc_total_bytes := fc_total_bytes c + ucast nbytes,
                 fc_total_errs := fc_total_errs c + of_bool err,
                 fc_ewma := ewma,
                 fc_slow := (if was_slow \<noteq> is_slow then of_bool is_slow else fc_slow c)\<rparr>;
           g = g\<lparr>fg_active := fg_active g - 1, fg_total_reqs := fg_total_reqs g + 1,
                 fg_bytes_recv := fg_bytes_recv g + ucast nbytes,
                 fg_total_errs := fg_total_errs g + of_bool err,
                 fg_slow_conns := (if was_slow \<noteq> is_slow
                   then (if is_slow then fg_slow_conns g + 1 else fg_slow_conns g - 1)
                   else fg_slow_conns g)\<rparr>
       in s\<lparr>fl_conns := (fl_conns s)[i := c], fl_global := g\<rparr>)"

definition powerfs_flow_on_load_factor :: "int \<Rightarrow> u8 \<Rightarrow> u64 \<Rightarrow> flow_controller \<Rightarrow> flow_controller" where
  "powerfs_flow_on_load_factor flow_idx lf0 jiffies s =
    (case flow_get_stats s flow_idx of
       None \<Rightarrow> s
     | Some i \<Rightarrow>
       let c = fl_conns s ! i; lf = min lf0 3 in
       if fc_lf c \<noteq> lf
       then s\<lparr>fl_conns := (fl_conns s)[i := c\<lparr>fc_lf := lf, fc_lf_jiffies := jiffies\<rparr>]\<rparr>
       else s)"

definition powerfs_flow_conn_active :: "flow_controller \<Rightarrow> int \<Rightarrow> int" where
  "powerfs_flow_conn_active s flow_idx =
    (case flow_get_stats s flow_idx of None \<Rightarrow> 0 | Some i \<Rightarrow> fc_active (fl_conns s ! i))"

definition powerfs_flow_conn_load_factor :: "flow_controller \<Rightarrow> int \<Rightarrow> u8" where
  "powerfs_flow_conn_load_factor s flow_idx =
    (case flow_get_stats s flow_idx of None \<Rightarrow> 0 | Some i \<Rightarrow> fc_lf (fl_conns s ! i))"

text \<open>The debugfs write: the decimal parse of the user's text is an argument
  (\<^term>\<open>None\<close> when \<open>kstrtouint\<close> fails).\<close>

definition flow_max_global_write :: "u32 option \<Rightarrow> int \<Rightarrow> flow_controller \<Rightarrow> int \<times> flow_controller" where
  "flow_max_global_write val cnt s =
    (case val of
       None \<Rightarrow> (- EINVAL, s)
     | Some v \<Rightarrow> if v = 0 then (- EINVAL, s) else (cnt, s\<lparr>fl_max_global := v\<rparr>))"


section \<open>Operations of other threads, and waiting\<close>

datatype flow_act =
    Start int u32
  | Complete int u64 u32 bool
  | LoadFactor int u8 u64
  | SetMax "u32 option" int

fun flow_step :: "flow_act \<Rightarrow> flow_controller \<Rightarrow> flow_controller" where
  "flow_step (Start i b) s = powerfs_flow_record_start i b s" |
  "flow_step (Complete i l b e) s = powerfs_flow_record_complete i l b e s" |
  "flow_step (LoadFactor i lf j) s = powerfs_flow_on_load_factor i lf j s" |
  "flow_step (SetMax v c) s = snd (flow_max_global_write v c s)"

text \<open>\<open>wait_event_timeout\<close>: the condition is evaluated on entry and after each batch of steps of
  other threads; when the batches are used up the timeout has expired.\<close>

fun flow_wait :: "(flow_controller \<Rightarrow> bool) \<Rightarrow> flow_act list list \<Rightarrow> flow_controller \<Rightarrow> bool \<times> flow_controller" where
  "flow_wait cond [] s = (cond s, s)" |
  "flow_wait cond (acts # rest) s =
    (if cond s then (True, s) else flow_wait cond rest (fold flow_step acts s))"

definition flow_count_queue :: "flow_controller \<Rightarrow> flow_controller" where
  "flow_count_queue s =
    s\<lparr>fl_global := (fl_global s)\<lparr>fg_queue_count := fg_queue_count (fl_global s) + 1\<rparr>\<rparr>"

definition flow_count_wakeup :: "flow_controller \<Rightarrow> flow_controller" where
  "flow_count_wakeup s =
    s\<lparr>fl_global := (fl_global s)\<lparr>fg_queue_wakeups := fg_queue_wakeups (fl_global s) + 1\<rparr>\<rparr>"

definition flow_count_reject :: "flow_controller \<Rightarrow> flow_controller" where
  "flow_count_reject s =
    s\<lparr>fl_global := (fl_global s)\<lparr>fg_reject_count := fg_reject_count (fl_global s) + 1\<rparr>\<rparr>"

definition powerfs_flow_admit_wait :: "flow_act list list \<Rightarrow> flow_controller \<Rightarrow> int \<times> flow_controller" where
  "powerfs_flow_admit_wait env s =
    (if powerfs_flow_admit_vfs s = FLOW_ADMIT then (0, s)
     else let (woken, s) = flow_wait (\<lambda>s. powerfs_flow_admit_vfs s = FLOW_ADMIT) env (flow_count_queue s)
     in if woken then (0, flow_count_wakeup s)
        else if powerfs_flow_admit_vfs s = FLOW_ADMIT then (0, flow_count_wakeup s)
        else (- EBUSY, flow_count_reject s))"

definition powerfs_flow_wait_wr_slot :: "int \<Rightarrow> flow_act list list \<Rightarrow> flow_controller \<Rightarrow> int \<times> flow_controller" where
  "powerfs_flow_wait_wr_slot flow_idx env s =
    (case flow_get_stats s flow_idx of
       None \<Rightarrow> (0, s)
     | Some i \<Rightarrow>
       let cap0 = sint (fl_max_per_conn s div 4); cap = (if cap0 < 1 then 1 else cap0) in
       if fc_active (fl_conns s ! i) < cap then (0, s)
       else let (woken, s) = flow_wait (\<lambda>s. fc_active (fl_conns s ! i) < cap) env (flow_count_queue s)
       in if woken \<or> fc_active (fl_conns s ! i) < cap then (0, flow_count_wakeup s)
          else (- EBUSY, flow_count_reject s))"


section \<open>Invariant\<close>

definition flow_inv :: "flow_controller \<Rightarrow> bool" where
  "flow_inv s \<longleftrightarrow> length (fl_conns s) = POWERFS_FLOW_MAX_CONNS \<and>
    (\<forall>c \<in> set (fl_conns s). 0 \<le> fc_active c \<and> fc_lf c \<le> 3 \<and> fc_slow c \<in> {0, 1}) \<and>
    fg_active (fl_global s) = sum_list (map fc_active (fl_conns s)) \<and>
    fg_slow_conns (fl_global s) = sum_list (map fc_slow (fl_conns s))"

text \<open>A completion is reported only for a connection with a request in flight.\<close>

fun flow_ok :: "flow_act \<Rightarrow> flow_controller \<Rightarrow> bool" where
  "flow_ok (Complete i l b e) s = (powerfs_flow_conn_active s i > 0 \<or> flow_get_stats s i = None)" |
  "flow_ok _ s = True"

lemma sum_list_update_int:
  "i < length xs \<Longrightarrow> sum_list (map f (xs[i := x])) = sum_list (map f xs) + (f x - f (xs ! i) :: int)"
proof (induction xs arbitrary: i)
  case (Cons a xs)
  then show ?case by (cases i) auto
qed simp

lemma get_stats_bound:
  "flow_inv s \<Longrightarrow> flow_get_stats s idx = Some i \<Longrightarrow> i < length (fl_conns s)"
  by (auto simp: flow_get_stats_def flow_inv_def split: if_splits)

lemma flow_inv_update:
  assumes "flow_inv s" "i < length (fl_conns s)" "0 \<le> fc_active c" "fc_lf c \<le> 3" "fc_slow c \<in> {0, 1}"
    "fg_active g = fg_active (fl_global s) + (fc_active c - fc_active (fl_conns s ! i))"
    "fg_slow_conns g = fg_slow_conns (fl_global s) + (fc_slow c - fc_slow (fl_conns s ! i))"
  shows "flow_inv (s\<lparr>fl_conns := (fl_conns s)[i := c], fl_global := g\<rparr>)"
  using assms set_update_subset_insert [of "fl_conns s" i c]
  by (auto simp: flow_inv_def sum_list_update_int)

lemma flow_step_inv:
  assumes "flow_inv s" "flow_ok a s"
  shows "flow_inv (flow_step a s)"
proof (cases a)
  case (Start idx b)
  show ?thesis
  proof (cases "flow_get_stats s idx")
    case (Some i)
    note ib = get_stats_bound [OF assms(1) Some]
    have "fl_conns s ! i \<in> set (fl_conns s)" using ib by simp
    then have "0 \<le> fc_active (fl_conns s ! i)" "fc_lf (fl_conns s ! i) \<le> 3" "fc_slow (fl_conns s ! i) \<in> {0, 1}"
      using assms(1) by (auto simp: flow_inv_def)
    then show ?thesis using Some Start ib assms(1)
      by (auto simp: powerfs_flow_record_start_def Let_def intro!: flow_inv_update)
  qed (simp add: Start powerfs_flow_record_start_def assms(1))
next
  case (Complete idx l b e)
  show ?thesis
  proof (cases "flow_get_stats s idx")
    case (Some i)
    note ib = get_stats_bound [OF assms(1) Some]
    have "fl_conns s ! i \<in> set (fl_conns s)" using ib by simp
    then have "fc_lf (fl_conns s ! i) \<le> 3" "fc_slow (fl_conns s ! i) \<in> {0, 1}"
      using assms(1) by (auto simp: flow_inv_def)
    moreover have "0 < fc_active (fl_conns s ! i)"
      using assms(2) Some Complete by (simp add: powerfs_flow_conn_active_def)
    ultimately show ?thesis using Some Complete ib assms(1)
      by (auto simp: powerfs_flow_record_complete_def Let_def intro!: flow_inv_update)
  qed (simp add: Complete powerfs_flow_record_complete_def assms(1))
next
  case (LoadFactor idx lf j)
  show ?thesis
  proof (cases "flow_get_stats s idx")
    case (Some i)
    note ib = get_stats_bound [OF assms(1) Some]
    have "fl_conns s ! i \<in> set (fl_conns s)" using ib by simp
    then have "0 \<le> fc_active (fl_conns s ! i)" "fc_slow (fl_conns s ! i) \<in> {0, 1}"
      using assms(1) by (auto simp: flow_inv_def)
    then have "flow_inv (s\<lparr>fl_conns := (fl_conns s)[i := (fl_conns s ! i)\<lparr>fc_lf := min lf 3, fc_lf_jiffies := j\<rparr>],
        fl_global := fl_global s\<rparr>)"
      using ib assms(1) by (intro flow_inv_update) auto
    then show ?thesis using Some LoadFactor assms(1)
      by (simp add: powerfs_flow_on_load_factor_def Let_def)
  qed (simp add: LoadFactor powerfs_flow_on_load_factor_def assms(1))
next
  case (SetMax v c)
  then show ?thesis using assms(1)
    by (auto simp: flow_max_global_write_def flow_inv_def split: option.split)
qed

interpretation flow: op_machine flow_step flow_ok flow_inv
  by unfold_locales (rule flow_step_inv)

lemma flow_init_inv: "flow_inv powerfs_flow_init"
  by (simp add: flow_inv_def powerfs_flow_init_def flow_conn_zero_def sum_list_replicate)


section \<open>Latency average\<close>

lemma ewma_unat:
  assumes "unat old \<le> b" "unat new_val \<le> b" "b < 2 ^ 64"
  shows "unat (ewma_update old new_val) = unat old - unat old div 8 + unat new_val div 8"
proof -
  have d: "unat (drop_bit 3 w) = unat w div 8" for w :: u64
    by (simp add: drop_bit_eq_div unat_div)
  have le: "drop_bit 3 old \<le> old" by (simp add: word_le_nat_alt d)
  have s: "unat (old - drop_bit 3 old) = unat old - unat old div 8"
    using le by (simp add: unat_sub d)
  have "unat old - unat old div 8 + unat new_val div 8 \<le> b" using assms(1,2) by linarith
  then have "unat (old - drop_bit 3 old) + unat (drop_bit 3 new_val) < 2 ^ 64"
    using s assms(3) by (simp add: d)
  then have "unat (old - drop_bit 3 old + drop_bit 3 new_val) =
      unat (old - drop_bit 3 old) + unat (drop_bit 3 new_val)"
    by (simp add: unat_word_ariths)
  then show ?thesis by (simp add: ewma_update_def s d)
qed

lemma u64_lt: "unat (w :: u64) < 2 ^ 64"
proof -
  have "unat w < 2 ^ LENGTH(64)" by (rule unsigned_less)
  then show ?thesis by simp
qed

lemma ewma_bounds:
  assumes "a \<le> unat old" "unat old \<le> b" "a \<le> unat new_val" "unat new_val \<le> b" "b < 2 ^ 64"
  shows "a \<le> unat (ewma_update old new_val)" "unat (ewma_update old new_val) \<le> b"
  unfolding ewma_unat [OF assms(2,4,5)] using assms by linarith+

lemma ewma_decreases:
  assumes "unat new_val \<le> l" "l + 7 < unat old"
  shows "unat (ewma_update old new_val) < unat old"
proof -
  have "unat old div 8 > unat new_val div 8" using assms by linarith
  moreover have "unat (ewma_update old new_val) = unat old - unat old div 8 + unat new_val div 8"
    using assms u64_lt [of old] by (intro ewma_unat [of _ "unat old"]) simp_all
  ultimately show ?thesis by (metis add.commute div_le_dividend le_add_diff_inverse nat_add_left_cancel_less)
qed

lemma ewma_stays_low:
  assumes "unat new_val \<le> l" "unat old \<le> l + 7" "l + 7 < 2 ^ 64"
  shows "unat (ewma_update old new_val) \<le> l + 7"
  using ewma_bounds(2) [of 0 old "l + 7" new_val] assms by simp

lemma ewma_converges:
  "l + 7 < 2 ^ 64 \<Longrightarrow> \<forall>v \<in> set vs. unat v \<le> l \<Longrightarrow> unat old \<le> l + 7 + length vs \<Longrightarrow>
    unat (fold (\<lambda>v e. ewma_update e v) vs old) \<le> l + 7"
proof (induction vs arbitrary: old)
  case (Cons v vs)
  show ?case
  proof (cases "unat old \<le> l + 7")
    case True
    then have "unat (ewma_update old v) \<le> l + 7" using Cons.prems by (intro ewma_stays_low) auto
    then show ?thesis using Cons by simp
  next
    case False
    then have "unat (ewma_update old v) < unat old" using Cons.prems by (intro ewma_decreases) auto
    then show ?thesis using Cons by simp
  qed
qed simp


section \<open>Properties\<close>



text \<open>An admitted request never takes a connection over its limit: if \<open>powerfs_flow_admit\<close> admits,
  then after \<open>record_start\<close> the connection has at most 100, 75, 50 or 25 percent of the
  per-connection limit in flight, by its load factor (and always room for one), and the global count
  is at most the global limit.\<close>

theorem flow_admit_respects_limits:
  assumes "flow_inv s" "flow_get_stats s idx = Some i" "powerfs_flow_admit s idx = FLOW_ADMIT"
    "fl_max_per_conn s = of_nat m" "m < 2 ^ 29" "c = fl_conns s ! i"
    "s' = powerfs_flow_record_start idx b s"
  shows "fc_active (fl_conns s' ! i) = fc_active c + 1 \<and>
    fc_active (fl_conns s' ! i) \<le> max 1 (if fc_lf c = 3 then int m div 4 else if fc_lf c = 2 then int m div 2
      else if fc_lf c = 1 then (3 * int m) div 4 else int m) \<and>
    fg_active (fl_global s') \<le> sint (fl_max_global s)"
proof -
  have i: "i < length (fl_conns s)" using get_stats_bound [OF assms(1,2)] .
  have "fc_lf c \<le> 3" using assms(1,6) i nth_mem [OF i] unfolding flow_inv_def by blast
  have sm: "sint (of_int k :: u32) = k" if "0 \<le> k" "k < 2 ^ 31" for k
    using that by (simp add: signed_of_int signed_take_bit_int_eq_self)
  have mp: "sint (fl_max_per_conn s) = int m" using sm [of "int m"] assms(4,5) by simp
  have sd: "int m sdiv k = int m div k" if "k > 0" for k
    using that by (cases "m = 0") (simp_all add: signed_divide_int_def)
  have m3: "sint (of_int (int m * 3) :: u32) sdiv 4 = (3 * int m) div 4"
    using sm [of "int m * 3"] assms(5)
    by (cases "m = 0") (simp_all add: signed_divide_int_def mult.commute)
  have "fc_active c < flow_scale (fc_lf c) (int m)" "fg_active (fl_global s) < sint (fl_max_global s)"
    using assms(2,3,6) mp by (auto simp: powerfs_flow_admit_def Let_def split: if_splits)
  moreover have "flow_scale (fc_lf c) (int m) = max 1 (if fc_lf c = 3 then int m div 4
      else if fc_lf c = 2 then int m div 2 else if fc_lf c = 1 then (3 * int m) div 4 else int m)"
    unfolding flow_scale_def Let_def m3 by (auto simp: sd max_def)
  moreover have "fc_active (fl_conns s' ! i) = fc_active c + 1"
    "fg_active (fl_global s') = fg_active (fl_global s) + 1"
    using assms(2,6,7) i by (simp_all add: powerfs_flow_record_start_def Let_def)
  ultimately show ?thesis by linarith
qed

theorem flow_admit_respects_limits_witness:
  "fc_active (fl_conns (powerfs_flow_record_start 3 0 powerfs_flow_init) ! 3) \<le> 64"
proof -
  have g: "flow_get_stats powerfs_flow_init 3 = Some 3" by (simp add: flow_get_stats_def)
  have a: "powerfs_flow_admit powerfs_flow_init 3 = FLOW_ADMIT"
    unfolding powerfs_flow_admit_def g
    by (simp add: powerfs_flow_init_def flow_conn_zero_def flow_scale_def Let_def)
  have m: "fl_max_per_conn powerfs_flow_init = of_nat 64" by (simp add: powerfs_flow_init_def)
  show ?thesis
    using flow_admit_respects_limits [OF flow_init_inv g a m _ refl refl, of 0]
    by (simp add: powerfs_flow_init_def flow_conn_zero_def)
qed

text \<open>A thread that asks for a write slot gets 0 only in a state in which its connection is below
  the cap (a quarter of the per-connection limit, at least one), gets EBUSY only when the wait ended
  with the connection still at the cap, and is never blocked for a connection without statistics.\<close>

theorem flow_wr_slot_sound:
  assumes "powerfs_flow_wait_wr_slot idx env s = (ret, s')"
    "cap = max 1 (sint (fl_max_per_conn s div 4))"
  shows "case flow_get_stats s idx of
      None \<Rightarrow> ret = 0 \<and> s' = s
    | Some i \<Rightarrow> ret = 0 \<and> fc_active (fl_conns s' ! i) < cap \<or>
        ret = - EBUSY \<and> cap \<le> fc_active (fl_conns s' ! i)"
proof -
  have w: "flow_wait cond env t = (b, t') \<Longrightarrow> b = cond t'" for cond t t' b
    by (induction cond env t rule: flow_wait.induct) (auto split: if_splits)
  have c: "fl_conns (flow_count_wakeup t) = fl_conns t" "fl_conns (flow_count_reject t) = fl_conns t" for t
    by (simp_all add: flow_count_wakeup_def flow_count_reject_def)
  have cap: "cap = (if sint (fl_max_per_conn s div 4) < 1 then 1 else sint (fl_max_per_conn s div 4))"
    using assms(2) by (simp add: max_def)
  show ?thesis
    using assms(1) by (auto simp: powerfs_flow_wait_wr_slot_def Let_def cap [symmetric] c
        dest!: w split: option.splits prod.splits if_splits)
qed

theorem flow_wr_slot_sound_witness:
  "fst (powerfs_flow_wait_wr_slot 5 [[Complete 5 1 1 False]]
     (powerfs_flow_init\<lparr>fl_conns := (fl_conns powerfs_flow_init)[5 := flow_conn_zero\<lparr>fc_active := 17\<rparr>]\<rparr>))
   \<in> {0, - EBUSY}"
proof -
  let ?s = "powerfs_flow_init\<lparr>fl_conns := (fl_conns powerfs_flow_init)[5 := flow_conn_zero\<lparr>fc_active := 17\<rparr>]\<rparr>"
  obtain r t where e: "powerfs_flow_wait_wr_slot 5 [[Complete 5 1 1 False]] ?s = (r, t)"
    by (cases "powerfs_flow_wait_wr_slot 5 [[Complete 5 1 1 False]] ?s")
  have "flow_get_stats ?s 5 = Some 5" by (simp add: flow_get_stats_def)
  with flow_wr_slot_sound [OF e refl] show ?thesis using e by auto
qed

text \<open>The latency average always lies between the smallest and the largest of the previous
  average and the samples (so it never wraps), and a run of fast completions clears a slow mark: once
  enough samples of at most \<open>l\<close> have come in, the average is at most \<open>l + 7\<close>.\<close>

theorem flow_latency_average:
  "(a \<le> unat old \<and> unat old \<le> b \<and> a \<le> unat new_val \<and> unat new_val \<le> b \<and> b < 2 ^ 64 \<longrightarrow>
     a \<le> unat (ewma_update old new_val) \<and> unat (ewma_update old new_val) \<le> b) \<and>
   (l + 7 < 2 ^ 64 \<and> (\<forall>v \<in> set vs. unat v \<le> l) \<and> unat old \<le> l + 7 + length vs \<longrightarrow>
     unat (fold (\<lambda>v e. ewma_update e v) vs old) \<le> l + 7)"
  using ewma_bounds ewma_converges by blast

theorem flow_latency_average_witness:
  "unat (ewma_update 100 20) \<le> 100 \<and> unat (fold (\<lambda>v e. ewma_update e v) [1, 1] (10 :: u64)) \<le> 1 + 7"
  using flow_latency_average [of 20 100 100 20 1 "[1, 1]"] flow_latency_average [of 0 10 10 10 1 "[1, 1]"]
  by simp

text \<open>A global limit of \<open>2^31\<close> or more written through debugfs is read back as a negative number
  by the per-connection admission check, which then never admits anything again.\<close>

theorem flow_admit_huge_limit_blocks:
  assumes "flow_inv s" "2 ^ 31 \<le> unat v" "flow_get_stats s idx = Some i"
  shows "powerfs_flow_admit (snd (flow_max_global_write (Some v) cnt s)) idx \<noteq> FLOW_ADMIT"
proof -
  have v: "v \<noteq> 0" using assms(2) by auto
  have "unat v < 2 ^ LENGTH(32)" by (rule unsigned_less)
  then have "unat v div 2 ^ 31 = 1" using assms(2) by simp
  then have "bit (unat v) 31" by (simp add: bit_iff_odd)
  then have "sint v < 0" by (simp add: bit_unsigned_iff bit_last_iff [symmetric])
  moreover have "0 \<le> fg_active (fl_global s)"
    using assms(1) by (auto simp: flow_inv_def intro!: sum_list_nonneg)
  ultimately show ?thesis using v assms(3)
    by (simp add: flow_max_global_write_def powerfs_flow_admit_def flow_get_stats_def Let_def split: if_splits)
qed

theorem flow_admit_huge_limit_blocks_witness:
  "powerfs_flow_admit (snd (flow_max_global_write (Some 0x80000000) 11 powerfs_flow_init)) 0 \<noteq> FLOW_ADMIT"
  by (rule flow_admit_huge_limit_blocks [OF flow_init_inv, of _ _ 0]) (simp_all add: flow_get_stats_def)

end
