(* ===== verification/Tlv.thy ===== *)
theory Tlv
  imports Prelude
begin

text \<open>
  The TLV codec of \<open>powerfs_tlv.c\<close>: the encoder context with its bounded output buffer, the
  sequential decoder and the order-independent \<open>find\<close> functions. A field is one byte of id,
  a four byte big-endian length and the value; integers inside a value are little-endian.
  The buffer is an array of bytes that the encoder writes in place; a pointer into the decoder's
  buffer is an offset. \<open>size_t\<close> sums are taken over \<^typ>\<open>nat\<close> where the operands are a position
  inside a buffer and a 32-bit length, and modulo \<open>2^64\<close> in \<open>dec_skip\<close>, whose length the caller
  chooses. An output parameter that a call leaves untouched is \<^term>\<open>None\<close>.
\<close>


section \<open>Encoder\<close>

record tlv_enc =
  te_buf :: bytes
  te_len :: nat
  te_cap :: nat

abbreviation POWERFS_NET_MAX_TLV :: nat where "POWERFS_NET_MAX_TLV \<equiv> 65535"

definition powerfs_tlv_enc_init :: "bytes \<Rightarrow> nat \<Rightarrow> tlv_enc" where
  "powerfs_tlv_enc_init buf cap = \<lparr>te_buf = buf, te_len = 0, te_cap = cap\<rparr>"

definition put_bytes :: "bytes \<Rightarrow> tlv_enc \<Rightarrow> tlv_enc" where
  "put_bytes bs e = e\<lparr>te_buf := wr_bytes (te_len e) bs (te_buf e), te_len := te_len e + length bs\<rparr>"

definition powerfs_tlv_enc_write_hdr :: "tlv_enc \<Rightarrow> u8 \<Rightarrow> u32 \<Rightarrow> int \<times> tlv_enc" where
  "powerfs_tlv_enc_write_hdr e field len =
    (if te_len e + 5 > te_cap e then (- ENOSPC, e)
     else (0, put_bytes (field # be32 len) e))"

definition powerfs_tlv_enc_u8 :: "tlv_enc \<Rightarrow> u8 \<Rightarrow> u8 \<Rightarrow> int \<times> tlv_enc" where
  "powerfs_tlv_enc_u8 e field val =
    (let (ret, e) = powerfs_tlv_enc_write_hdr e field 1 in
     if ret < 0 then (ret, e)
     else if te_len e + 1 > te_cap e then (- ENOSPC, e)
     else (0, put_bytes [val] e))"

definition powerfs_tlv_enc_u16 :: "tlv_enc \<Rightarrow> u8 \<Rightarrow> u16 \<Rightarrow> int \<times> tlv_enc" where
  "powerfs_tlv_enc_u16 e field val =
    (let (ret, e) = powerfs_tlv_enc_write_hdr e field 2 in
     if ret < 0 then (ret, e)
     else if te_len e + 2 > te_cap e then (- ENOSPC, e)
     else (0, put_bytes (le16 val) e))"

definition powerfs_tlv_enc_u32 :: "tlv_enc \<Rightarrow> u8 \<Rightarrow> u32 \<Rightarrow> int \<times> tlv_enc" where
  "powerfs_tlv_enc_u32 e field val =
    (let (ret, e) = powerfs_tlv_enc_write_hdr e field 4 in
     if ret < 0 then (ret, e)
     else if te_len e + 4 > te_cap e then (- ENOSPC, e)
     else (0, put_bytes (le32 val) e))"

definition powerfs_tlv_enc_u64 :: "tlv_enc \<Rightarrow> u8 \<Rightarrow> u64 \<Rightarrow> int \<times> tlv_enc" where
  "powerfs_tlv_enc_u64 e field val =
    (let (ret, e) = powerfs_tlv_enc_write_hdr e field 8 in
     if ret < 0 then (ret, e)
     else if te_len e + 8 > te_cap e then (- ENOSPC, e)
     else (0, put_bytes (le64 val) e))"

text \<open>A possibly-NULL source pointer is a \<^typ>\<open>bytes option\<close>; the copy takes \<open>len\<close> bytes of it.\<close>

definition powerfs_tlv_enc_string ::
    "tlv_enc \<Rightarrow> u8 \<Rightarrow> bytes option \<Rightarrow> nat \<Rightarrow> int \<times> tlv_enc" where
  "powerfs_tlv_enc_string e field str len =
    (if len > POWERFS_NET_MAX_TLV then (- E2BIG, e)
     else let (ret, e) = powerfs_tlv_enc_write_hdr e field (of_nat len) in
     if ret < 0 then (ret, e)
     else if te_len e + len > te_cap e then (- ENOSPC, e)
     else case str of
         Some s \<Rightarrow> if len > 0 then (0, put_bytes (take len s) e) else (0, e)
       | None \<Rightarrow> (0, e))"

definition powerfs_tlv_enc_bytes ::
    "tlv_enc \<Rightarrow> u8 \<Rightarrow> bytes option \<Rightarrow> nat \<Rightarrow> int \<times> tlv_enc" where
  "powerfs_tlv_enc_bytes e field data len =
    (if len > POWERFS_NET_MAX_TLV then (- E2BIG, e)
     else let (ret, e) = powerfs_tlv_enc_write_hdr e field (of_nat len) in
     if ret < 0 then (ret, e)
     else if te_len e + len > te_cap e then (- ENOSPC, e)
     else case data of
         Some s \<Rightarrow> if len > 0 then (0, put_bytes (take len s) e) else (0, e)
       | None \<Rightarrow> (0, e))"

definition powerfs_tlv_enc_nested ::
    "tlv_enc \<Rightarrow> u8 \<Rightarrow> bytes option \<Rightarrow> nat \<Rightarrow> int \<times> tlv_enc" where
  "powerfs_tlv_enc_nested e field data len =
    (if len > POWERFS_NET_MAX_TLV then (- E2BIG, e)
     else powerfs_tlv_enc_bytes e field data len)"

definition powerfs_tlv_enc_len :: "tlv_enc \<Rightarrow> nat" where
  "powerfs_tlv_enc_len e = te_len e"


section \<open>Decoder\<close>

record tlv_dec =
  td_buf :: bytes
  td_len :: nat
  td_pos :: nat

definition powerfs_tlv_dec_init :: "bytes \<Rightarrow> nat \<Rightarrow> tlv_dec" where
  "powerfs_tlv_dec_init buf len = \<lparr>td_buf = buf, td_len = len, td_pos = 0\<rparr>"

definition powerfs_tlv_dec_next :: "tlv_dec \<Rightarrow> int \<times> (u8 \<times> nat) option \<times> tlv_dec" where
  "powerfs_tlv_dec_next d =
    (if td_pos d + 5 > td_len d then (- ENOENT, None, d)
     else let field = td_buf d ! td_pos d;
              len = unat (get_be32 (subarr (td_pos d + 1) 4 (td_buf d)));
              d = d\<lparr>td_pos := td_pos d + 5\<rparr>
       in if td_pos d + len > td_len d then (- EINVAL, Some (field, len), d)
          else (0, Some (field, len), d))"

text \<open>\<open>dec_read\<close> returns the data offset (or NULL), the actual field and length, and the context.\<close>

definition powerfs_tlv_dec_read ::
    "tlv_dec \<Rightarrow> u8 \<Rightarrow> nat \<Rightarrow> nat option \<times> (u8 \<times> nat) option \<times> tlv_dec" where
  "powerfs_tlv_dec_read d expected_field expected_len =
    (if td_pos d + 5 > td_len d then (None, None, d)
     else let field = td_buf d ! td_pos d;
              len = unat (get_be32 (subarr (td_pos d + 1) 4 (td_buf d)))
       in if td_pos d + 5 + len > td_len d then (None, None, d)
          else let d = d\<lparr>td_pos := td_pos d + 5\<rparr> in
          if field \<noteq> expected_field
          then (None, Some (field, len), d\<lparr>td_pos := td_pos d + len\<rparr>)
          else if expected_len > 0 \<and> len \<noteq> expected_len
          then (None, Some (field, len), d\<lparr>td_pos := td_pos d + len\<rparr>)
          else (Some (td_pos d), Some (field, len), d))"

definition powerfs_tlv_dec_u8 :: "tlv_dec \<Rightarrow> u8 \<Rightarrow> int \<times> u8 option \<times> tlv_dec" where
  "powerfs_tlv_dec_u8 d field =
    (case powerfs_tlv_dec_read d field 1 of
       (None, _, d) \<Rightarrow> (- ENOENT, None, d)
     | (Some p, _, d) \<Rightarrow> (0, Some (td_buf d ! p), d\<lparr>td_pos := td_pos d + 1\<rparr>))"

definition powerfs_tlv_dec_u16 :: "tlv_dec \<Rightarrow> u8 \<Rightarrow> int \<times> u16 option \<times> tlv_dec" where
  "powerfs_tlv_dec_u16 d field =
    (case powerfs_tlv_dec_read d field 2 of
       (None, _, d) \<Rightarrow> (- ENOENT, None, d)
     | (Some p, _, d) \<Rightarrow> (0, Some (get_le16 (subarr p 2 (td_buf d))), d\<lparr>td_pos := td_pos d + 2\<rparr>))"

definition powerfs_tlv_dec_u32 :: "tlv_dec \<Rightarrow> u8 \<Rightarrow> int \<times> u32 option \<times> tlv_dec" where
  "powerfs_tlv_dec_u32 d field =
    (case powerfs_tlv_dec_read d field 4 of
       (None, _, d) \<Rightarrow> (- ENOENT, None, d)
     | (Some p, _, d) \<Rightarrow> (0, Some (get_le32 (subarr p 4 (td_buf d))), d\<lparr>td_pos := td_pos d + 4\<rparr>))"

definition powerfs_tlv_dec_u64 :: "tlv_dec \<Rightarrow> u8 \<Rightarrow> int \<times> u64 option \<times> tlv_dec" where
  "powerfs_tlv_dec_u64 d field =
    (case powerfs_tlv_dec_read d field 8 of
       (None, _, d) \<Rightarrow> (- ENOENT, None, d)
     | (Some p, _, d) \<Rightarrow> (0, Some (get_le64 (subarr p 8 (td_buf d))), d\<lparr>td_pos := td_pos d + 8\<rparr>))"

text \<open>The destination of \<open>dec_string\<close> is an array of \<open>max_len\<close> bytes, returned updated.\<close>

definition powerfs_tlv_dec_string ::
    "tlv_dec \<Rightarrow> u8 \<Rightarrow> bytes \<Rightarrow> nat \<Rightarrow> int \<times> bytes \<times> tlv_dec" where
  "powerfs_tlv_dec_string d field str max_len =
    (case powerfs_tlv_dec_read d field 0 of
       (Some p, Some (actual_field, actual_len), d) \<Rightarrow>
         if actual_field \<noteq> field then (- ENOENT, str, d)
         else if actual_len \<ge> max_len then (- E2BIG, str, d\<lparr>td_pos := td_pos d + actual_len\<rparr>)
         else (0,
           if actual_len > 0 then (wr_bytes 0 (subarr p actual_len (td_buf d)) str)[actual_len := 0]
           else str[0 := 0],
           d\<lparr>td_pos := td_pos d + actual_len\<rparr>)
     | (_, _, d) \<Rightarrow> (- ENOENT, str, d))"

definition powerfs_tlv_dec_skip :: "tlv_dec \<Rightarrow> nat \<Rightarrow> int \<times> tlv_dec" where
  "powerfs_tlv_dec_skip d len =
    (if (td_pos d + len) mod 2 ^ 64 > td_len d then (- EINVAL, d)
     else (0, d\<lparr>td_pos := (td_pos d + len) mod 2 ^ 64\<rparr>))"

definition powerfs_tlv_dec_is_empty :: "tlv_dec \<Rightarrow> bool" where
  "powerfs_tlv_dec_is_empty d \<longleftrightarrow> td_pos d \<ge> td_len d"

text \<open>The loop shared by the four \<open>find\<close> functions: read headers from the current position until
  one matches; the context returned points at the matching field's data.\<close>

function tlv_find_scan :: "(u8 \<Rightarrow> nat \<Rightarrow> bool) \<Rightarrow> tlv_dec \<Rightarrow> (nat \<times> tlv_dec) option" where
  "tlv_find_scan hit d =
    (if td_pos d < td_len d then
       case powerfs_tlv_dec_next d of
         (ret, Some (cur_field, cur_len), d') \<Rightarrow>
           if ret \<noteq> 0 then None
           else if hit cur_field cur_len then Some (cur_len, d')
           else tlv_find_scan hit (d'\<lparr>td_pos := td_pos d' + cur_len\<rparr>)
       | (ret, None, d') \<Rightarrow> None
     else None)"
  by pat_completeness auto
termination
  by (relation "measure (\<lambda>(hit, d). td_len d - td_pos d)")
     (auto simp: powerfs_tlv_dec_next_def Let_def split: if_splits)

declare tlv_find_scan.simps [simp del]

definition powerfs_tlv_dec_find_u64 :: "tlv_dec \<Rightarrow> u8 \<Rightarrow> int \<times> u64 option \<times> tlv_dec" where
  "powerfs_tlv_dec_find_u64 d field =
    (case tlv_find_scan (\<lambda>f l. f = field \<and> l = 8) (d\<lparr>td_pos := 0\<rparr>) of
       Some (_, d') \<Rightarrow> (0, Some (get_le64 (subarr (td_pos d') 8 (td_buf d'))),
                        d'\<lparr>td_pos := td_pos d' + 8\<rparr>)
     | None \<Rightarrow> (- ENOENT, None, d))"

definition powerfs_tlv_dec_find_u32 :: "tlv_dec \<Rightarrow> u8 \<Rightarrow> int \<times> u32 option \<times> tlv_dec" where
  "powerfs_tlv_dec_find_u32 d field =
    (case tlv_find_scan (\<lambda>f l. f = field \<and> l = 4) (d\<lparr>td_pos := 0\<rparr>) of
       Some (_, d') \<Rightarrow> (0, Some (get_le32 (subarr (td_pos d') 4 (td_buf d'))),
                        d'\<lparr>td_pos := td_pos d' + 4\<rparr>)
     | None \<Rightarrow> (- ENOENT, None, d))"

definition powerfs_tlv_dec_find_u8 :: "tlv_dec \<Rightarrow> u8 \<Rightarrow> int \<times> u8 option \<times> tlv_dec" where
  "powerfs_tlv_dec_find_u8 d field =
    (case tlv_find_scan (\<lambda>f l. f = field \<and> l = 1) (d\<lparr>td_pos := 0\<rparr>) of
       Some (_, d') \<Rightarrow> (0, Some (td_buf d' ! td_pos d'), d'\<lparr>td_pos := td_pos d' + 1\<rparr>)
     | None \<Rightarrow> (- ENOENT, None, d))"

definition powerfs_tlv_dec_find_raw :: "tlv_dec \<Rightarrow> u8 \<Rightarrow> int \<times> (nat \<times> nat) option \<times> tlv_dec" where
  "powerfs_tlv_dec_find_raw d field =
    (case tlv_find_scan (\<lambda>f l. f = field) (d\<lparr>td_pos := 0\<rparr>) of
       Some (cur_len, d') \<Rightarrow> (0, Some (td_pos d', cur_len), d'\<lparr>td_pos := td_pos d' + cur_len\<rparr>)
     | None \<Rightarrow> (- ENOENT, None, d))"


section \<open>The wire format and its abstraction\<close>

text \<open>\<open>tlv_ser\<close> is the reference serialisation of a list of fields. A message is what callers
  emit through the encoder, one typed call per item.\<close>

definition tlv_field :: "u8 \<Rightarrow> bytes \<Rightarrow> bytes" where
  "tlv_field f v = f # be32 (of_nat (length v)) @ v"

definition tlv_ser :: "(u8 \<times> bytes) list \<Rightarrow> bytes" where
  "tlv_ser fs = concat (map (\<lambda>(f, v). tlv_field f v) fs)"

datatype tlv_item = U8 u8 u8 | U16 u8 u16 | U32 u8 u32 | U64 u8 u64 | Str u8 bytes | Raw u8 bytes

fun item_field :: "tlv_item \<Rightarrow> u8 \<times> bytes" where
  "item_field (U8 f v) = (f, [v])" |
  "item_field (U16 f v) = (f, le16 v)" |
  "item_field (U32 f v) = (f, le32 v)" |
  "item_field (U64 f v) = (f, le64 v)" |
  "item_field (Str f v) = (f, v)" |
  "item_field (Raw f v) = (f, v)"

fun enc_item :: "tlv_item \<Rightarrow> tlv_enc \<Rightarrow> int \<times> tlv_enc" where
  "enc_item (U8 f v) e = powerfs_tlv_enc_u8 e f v" |
  "enc_item (U16 f v) e = powerfs_tlv_enc_u16 e f v" |
  "enc_item (U32 f v) e = powerfs_tlv_enc_u32 e f v" |
  "enc_item (U64 f v) e = powerfs_tlv_enc_u64 e f v" |
  "enc_item (Str f v) e = powerfs_tlv_enc_string e f (Some v) (length v)" |
  "enc_item (Raw f v) e = powerfs_tlv_enc_bytes e f (Some v) (length v)"

fun enc_items :: "tlv_item list \<Rightarrow> tlv_enc \<Rightarrow> int \<times> tlv_enc" where
  "enc_items [] e = (0, e)" |
  "enc_items (it # its) e =
    (let (ret, e) = enc_item it e in if ret < 0 then (ret, e) else enc_items its e)"

definition tlv_enc_wf :: "tlv_enc \<Rightarrow> bool" where
  "tlv_enc_wf e \<longleftrightarrow> te_len e \<le> te_cap e \<and> te_cap e \<le> length (te_buf e)"

definition enc_out :: "tlv_enc \<Rightarrow> bytes" where
  "enc_out e = take (te_len e) (te_buf e)"

definition tlv_dec_wf :: "tlv_dec \<Rightarrow> bool" where
  "tlv_dec_wf d \<longleftrightarrow> td_pos d \<le> td_len d \<and> td_len d \<le> length (td_buf d)"

text \<open>The part of the buffer the decoder has not consumed.\<close>

definition dec_rest :: "tlv_dec \<Rightarrow> bytes" where
  "dec_rest d = drop (td_pos d) (take (td_len d) (td_buf d))"


section \<open>Encoder lemmas\<close>

lemma length_tlv_field [simp]: "length (tlv_field f v) = 5 + length v"
  by (simp add: tlv_field_def)

lemma tlv_ser_simps [simp]:
  "tlv_ser [] = []"
  "tlv_ser ((f, v) # fs) = tlv_field f v @ tlv_ser fs"
  "tlv_ser (xs @ ys) = tlv_ser xs @ tlv_ser ys"
  by (simp_all add: tlv_ser_def)

lemma put_bytes_cap [simp]: "te_cap (put_bytes bs e) = te_cap e"
  by (simp add: put_bytes_def)

lemma put_bytes_len [simp]: "te_len (put_bytes bs e) = te_len e + length bs"
  by (simp add: put_bytes_def)

lemma put_bytes_wf [inv_intros]:
  "tlv_enc_wf e \<Longrightarrow> te_len e + length bs \<le> te_cap e \<Longrightarrow> tlv_enc_wf (put_bytes bs e)"
  by (simp add: tlv_enc_wf_def put_bytes_def)

lemma enc_out_put_bytes [simp]:
  "tlv_enc_wf e \<Longrightarrow> te_len e + length bs \<le> te_cap e \<Longrightarrow>
    enc_out (put_bytes bs e) = enc_out e @ bs"
  by (simp add: tlv_enc_wf_def put_bytes_def enc_out_def take_wr_bytes)

lemma wr_bytes_append: "wr_bytes p (as @ bs) buf = wr_bytes (p + length as) bs (wr_bytes p as buf)"
  by (induction p as buf rule: wr_bytes.induct) auto

lemma put_bytes_append: "put_bytes bs (put_bytes as e) = put_bytes (as @ bs) e"
  by (simp add: put_bytes_def wr_bytes_append)

text \<open>What every typed encoder call does: nothing at all, only the header, or the whole field.\<close>

definition enc_effect :: "u8 \<Rightarrow> bytes \<Rightarrow> tlv_enc \<Rightarrow> int \<times> tlv_enc" where
  "enc_effect f v e =
    (if te_len e + 5 > te_cap e then (- ENOSPC, e)
     else if te_len e + 5 + length v > te_cap e
     then (- ENOSPC, put_bytes (f # be32 (of_nat (length v))) e)
     else (0, put_bytes (tlv_field f v) e))"

lemma put_bytes_Nil [simp]: "put_bytes [] e = e"
  by (simp add: put_bytes_def)

lemma enc_item_effect:
  assumes "length (snd (item_field it)) \<le> POWERFS_NET_MAX_TLV"
  shows "enc_item it e = enc_effect (fst (item_field it)) (snd (item_field it)) e"
  using assms
  by (cases it)
     (auto simp: enc_effect_def powerfs_tlv_enc_write_hdr_def powerfs_tlv_enc_u8_def
        powerfs_tlv_enc_u16_def powerfs_tlv_enc_u32_def powerfs_tlv_enc_u64_def
        powerfs_tlv_enc_string_def powerfs_tlv_enc_bytes_def tlv_field_def put_bytes_append)

lemma enc_effect_wf [inv_intros]: "tlv_enc_wf e \<Longrightarrow> tlv_enc_wf (snd (enc_effect f v e))"
  by (auto simp: enc_effect_def intro!: put_bytes_wf)

lemma enc_effect_ok:
  "tlv_enc_wf e \<Longrightarrow> te_len e + 5 + length v \<le> te_cap e \<Longrightarrow>
    enc_effect f v e = (0, put_bytes (tlv_field f v) e)"
  by (simp add: enc_effect_def)


section \<open>Decoder lemmas\<close>

lemma hdr_rest:
  assumes "tlv_dec_wf d" "dec_rest d = tlv_field f v @ r" "length v < 2 ^ 32"
  shows hdr_fits: "td_pos d + 5 + length v \<le> td_len d"
    and hdr_field: "td_buf d ! td_pos d = f"
    and hdr_length: "unat (get_be32 (subarr (Suc (td_pos d)) 4 (td_buf d))) = length v"
    and hdr_value: "subarr (td_pos d + 5) (length v) (td_buf d) = v"
    and hdr_tail: "dec_rest (d\<lparr>td_pos := td_pos d + 5 + length v\<rparr>) = r"
proof -
  let ?p = "td_pos d" and ?b = "take (td_len d) (td_buf d)"
  have b: "drop ?p ?b = f # be32 (of_nat (length v)) @ v @ r"
    using assms by (simp add: dec_rest_def tlv_field_def)
  have len: "td_len d - ?p = 5 + length v + length r"
    using assms arg_cong [OF b, of length] by (simp add: tlv_dec_wf_def)
  then show fits: "?p + 5 + length v \<le> td_len d" by simp
  have b': "drop ?p (td_buf d) = (f # be32 (of_nat (length v)) @ v @ r) @ drop (td_len d) (td_buf d)"
    using assms b append_take_drop_id [of "td_len d - ?p" "drop ?p (td_buf d)"]
    by (simp add: tlv_dec_wf_def drop_take)
  have le: "?p < length (td_buf d)" using assms fits by (simp add: tlv_dec_wf_def)
  show "td_buf d ! ?p = f" using b' le by (simp add: Cons_nth_drop_Suc [symmetric])
  have s: "subarr (Suc ?p) 4 (td_buf d) = be32 (of_nat (length v))"
  proof -
    have "drop (Suc ?p) (td_buf d) = be32 (of_nat (length v)) @ v @ r @ drop (td_len d) (td_buf d)"
      using arg_cong [OF b', of "drop 1"] by simp
    then show ?thesis by (simp add: subarr_def)
  qed
  show "unat (get_be32 (subarr (Suc ?p) 4 (td_buf d))) = length v"
    using assms(3) s get_be32_be32 [of "of_nat (length v)" "[]"]
    by (simp add: unat_of_nat)
  show "subarr (?p + 5) (length v) (td_buf d) = v"
  proof -
    have "drop (?p + 5) (td_buf d) = v @ r @ drop (td_len d) (td_buf d)"
      using arg_cong [OF b', of "drop 5"] by (simp add: add.commute)
    then show ?thesis by (simp add: subarr_def)
  qed
  show "dec_rest (d\<lparr>td_pos := ?p + 5 + length v\<rparr>) = r"
    using arg_cong [OF assms(2), of "drop (5 + length v)"] by (simp add: dec_rest_def ac_simps)
qed

lemma dec_next_field:
  assumes "tlv_dec_wf d" "dec_rest d = tlv_field f v @ r" "length v < 2 ^ 32"
  shows "powerfs_tlv_dec_next d = (0, Some (f, length v), d\<lparr>td_pos := td_pos d + 5\<rparr>)"
  using hdr_rest [OF assms] by (simp add: powerfs_tlv_dec_next_def)

lemma dec_read_field:
  assumes "tlv_dec_wf d" "dec_rest d = tlv_field f v @ r" "length v < 2 ^ 32"
    "n = 0 \<or> n = length v"
  shows "powerfs_tlv_dec_read d f n =
    (Some (td_pos d + 5), Some (f, length v), d\<lparr>td_pos := td_pos d + 5\<rparr>)"
  using hdr_rest [OF assms(1-3)] assms(4) by (auto simp: powerfs_tlv_dec_read_def Let_def)

lemma dec_read_other_field:
  assumes "tlv_dec_wf d" "dec_rest d = tlv_field f v @ r" "length v < 2 ^ 32" "g \<noteq> f"
  shows "powerfs_tlv_dec_read d g n =
    (None, Some (f, length v), d\<lparr>td_pos := td_pos d + 5 + length v\<rparr>)"
  using hdr_rest [OF assms(1-3)] assms(4) by (auto simp: powerfs_tlv_dec_read_def Let_def)

lemma dec_next_wf:
  assumes "tlv_dec_wf d" "powerfs_tlv_dec_next d = (ret, out, d')"
  shows "tlv_dec_wf d'" "td_buf d' = td_buf d" "td_len d' = td_len d" "td_pos d \<le> td_pos d'"
    "ret = 0 \<Longrightarrow> \<exists>f l. out = Some (f, l) \<and> td_pos d' = td_pos d + 5 \<and> td_pos d' + l \<le> td_len d'"
  using assms by (auto simp: powerfs_tlv_dec_next_def tlv_dec_wf_def Let_def split: if_splits)

lemma dec_read_wf:
  assumes "tlv_dec_wf d" "powerfs_tlv_dec_read d f n = (p, out, d')"
  shows "tlv_dec_wf d' \<and> td_buf d' = td_buf d \<and> td_len d' = td_len d \<and> td_pos d \<le> td_pos d'"
    "\<And>q. p = Some q \<Longrightarrow> \<exists>l. out = Some (f, l) \<and> q = td_pos d' \<and> q + l \<le> td_len d' \<and> (n = 0 \<or> l = n)"
  using assms by (auto simp: powerfs_tlv_dec_read_def tlv_dec_wf_def Let_def split: if_splits)

text \<open>The scan stays inside the buffer, whatever bytes it holds.\<close>

lemma find_scan_wf:
  "tlv_find_scan hit d = Some (l, d') \<Longrightarrow> tlv_dec_wf d \<Longrightarrow>
    tlv_dec_wf d' \<and> td_buf d' = td_buf d \<and> td_len d' = td_len d \<and> td_pos d' + l \<le> td_len d"
proof (induction hit d rule: tlv_find_scan.induct)
  case (1 hit d)
  obtain ret out d1 where n: "powerfs_tlv_dec_next d = (ret, out, d1)"
    by (cases "powerfs_tlv_dec_next d")
  note w = dec_next_wf [OF "1.prems"(2) n]
  from "1.prems"(1) n obtain f k where out: "out = Some (f, k)" and ret: "ret = 0"
    and pos: "td_pos d < td_len d"
    by (subst (asm) tlv_find_scan.simps) (auto split: if_splits option.splits)
  from w(5) [OF ret] out have k: "td_pos d1 + k \<le> td_len d1" by simp
  show ?case
  proof (cases "hit f k")
    case True
    then show ?thesis using "1.prems"(1) n out ret pos w k
      by (subst (asm) tlv_find_scan.simps) auto
  next
    case False
    let ?d = "d1\<lparr>td_pos := td_pos d1 + k\<rparr>"
    have "tlv_find_scan hit ?d = Some (l, d')" "tlv_dec_wf ?d"
      using "1.prems"(1) n out ret pos False k w(1)
      by (subst (asm) tlv_find_scan.simps, auto simp: tlv_dec_wf_def)
    then show ?thesis
      using "1.IH" [OF pos n [symmetric] refl out refl _ False] ret w k by simp
  qed
qed

text \<open>On a serialised list of fields the scan returns the first field that matches.\<close>

lemma find_scan_ser:
  assumes "tlv_dec_wf d" "dec_rest d = tlv_ser fs" "\<forall>(f, v) \<in> set fs. length v < 2 ^ 32"
  shows "case tlv_find_scan hit d of
      None \<Rightarrow> List.find (\<lambda>(f, v). hit f (length v)) fs = None
    | Some (l, d') \<Rightarrow> \<exists>f v. List.find (\<lambda>(f, v). hit f (length v)) fs = Some (f, v) \<and>
        hit f l \<and> l = length v \<and> subarr (td_pos d') l (td_buf d') = v \<and> td_buf d' = td_buf d"
  using assms
proof (induction fs arbitrary: d)
  case Nil
  then have "\<not> td_pos d < td_len d" by (auto simp: dec_rest_def tlv_dec_wf_def)
  then show ?case by (subst tlv_find_scan.simps) simp
next
  case (Cons a fs)
  obtain f v where a: "a = (f, v)" by (cases a)
  have v: "length v < 2 ^ 32" using Cons.prems(3) a by simp
  have r: "dec_rest d = tlv_field f v @ tlv_ser fs" using Cons.prems(2) a by simp
  note h = hdr_rest [OF Cons.prems(1) r v] and nx = dec_next_field [OF Cons.prems(1) r v]
  let ?d = "d\<lparr>td_pos := td_pos d + 5 + length v\<rparr>"
  have w: "tlv_dec_wf ?d" using Cons.prems(1) h(1) by (simp add: tlv_dec_wf_def)
  show ?case
  proof (cases "hit f (length v)")
    case True
    then show ?thesis using a h nx by (subst tlv_find_scan.simps) auto
  next
    case False
    then have "tlv_find_scan hit d = tlv_find_scan hit ?d"
      using h(1) nx by (subst tlv_find_scan.simps) (auto simp: ac_simps)
    then show ?thesis using Cons.IH [OF w h(5)] Cons.prems(3) a False by (auto split: option.splits)
  qed
qed


section \<open>The scalar interface\<close>

text \<open>The contract of a fixed-width field type: the encoder writes one whole field or fails as
  \<^const>\<open>enc_effect\<close> says, and the sequential decoder reads such a field back, or reports
  ENOENT and steps over a field with another id.\<close>

locale tlv_scalar =
  fixes enc :: "tlv_enc \<Rightarrow> u8 \<Rightarrow> 'v \<Rightarrow> int \<times> tlv_enc"
    and dec :: "tlv_dec \<Rightarrow> u8 \<Rightarrow> int \<times> 'v option \<times> tlv_dec"
    and to_bytes :: "'v \<Rightarrow> bytes"
    and width :: nat
  assumes length_to_bytes [simp]: "length (to_bytes v) = width"
    and enc_eq: "enc e f v = enc_effect f (to_bytes v) e"
    and dec_field: "tlv_dec_wf d \<Longrightarrow> dec_rest d = tlv_field f (to_bytes v) @ r \<Longrightarrow>
      dec d f = (0, Some v, d\<lparr>td_pos := td_pos d + 5 + width\<rparr>)"
    and dec_other: "tlv_dec_wf d \<Longrightarrow> dec_rest d = tlv_field f w @ r \<Longrightarrow> length w < 2 ^ 32 \<Longrightarrow>
      g \<noteq> f \<Longrightarrow> dec d g = (- ENOENT, None, d\<lparr>td_pos := td_pos d + 5 + length w\<rparr>)"
begin

fun enc_seq :: "(u8 \<times> 'v) list \<Rightarrow> tlv_enc \<Rightarrow> int \<times> tlv_enc" where
  "enc_seq [] e = (0, e)" |
  "enc_seq ((f, v) # fvs) e = (let (ret, e) = enc e f v in if ret < 0 then (ret, e) else enc_seq fvs e)"

fun dec_seq :: "u8 list \<Rightarrow> tlv_dec \<Rightarrow> 'v option list \<times> tlv_dec" where
  "dec_seq [] d = ([], d)" |
  "dec_seq (f # fs) d =
    (let (ret, v, d) = dec d f; (vs, d) = dec_seq fs d in (v # vs, d))"

lemma enc_seq_ok:
  "tlv_enc_wf e \<Longrightarrow> te_len e + (5 + width) * length fvs \<le> te_cap e \<Longrightarrow>
    enc_seq fvs e = (0, put_bytes (tlv_ser (map (\<lambda>(f, v). (f, to_bytes v)) fvs)) e)"
proof (induction fvs arbitrary: e)
  case (Cons fv fvs)
  obtain f v where "fv = (f, v)" by (cases fv)
  then show ?case using Cons.prems Cons.IH [of "put_bytes (tlv_field f (to_bytes v)) e"]
    by (simp add: enc_eq [of e f v] enc_effect_ok put_bytes_wf put_bytes_append add.assoc)
qed simp

lemma dec_seq_ser:
  assumes "width < 2 ^ 32"
  shows "tlv_dec_wf d \<Longrightarrow> dec_rest d = tlv_ser (map (\<lambda>(f, v). (f, to_bytes v)) fvs) @ r \<Longrightarrow>
    fst (dec_seq (map fst fvs) d) = map (\<lambda>(f, v). Some v) fvs"
proof (induction fvs arbitrary: d)
  case (Cons fv fvs)
  obtain f v where fv: "fv = (f, v)" by (cases fv)
  let ?r = "tlv_ser (map (\<lambda>(f, v). (f, to_bytes v)) fvs) @ r"
  have rest: "dec_rest d = tlv_field f (to_bytes v) @ ?r" using Cons.prems(2) fv by simp
  let ?d = "d\<lparr>td_pos := td_pos d + 5 + width\<rparr>"
  have "dec_rest ?d = ?r" "tlv_dec_wf ?d"
    using hdr_tail [OF Cons.prems(1) rest] hdr_fits [OF Cons.prems(1) rest] Cons.prems(1) assms
    by (simp_all add: tlv_dec_wf_def)
  then show ?case using Cons.IH [of ?d] dec_field [OF Cons.prems(1) rest] fv
    by (cases "dec_seq (map fst fvs) ?d") simp
qed simp

text \<open>Values written one after the other into a large enough buffer are read back in order.\<close>

lemma seq_roundtrip:
  assumes "width < 2 ^ 32" "cap \<le> length buf" "(5 + width) * length fvs \<le> cap"
    "enc_seq fvs (powerfs_tlv_enc_init buf cap) = (ret, e)"
  shows "ret = 0" "fst (dec_seq (map fst fvs) (powerfs_tlv_dec_init (te_buf e) (te_len e))) =
    map (\<lambda>(f, v). Some v) fvs"
proof -
  let ?e = "powerfs_tlv_enc_init buf cap" and ?s = "tlv_ser (map (\<lambda>(f, v). (f, to_bytes v)) fvs)"
  have w: "tlv_enc_wf ?e" "te_len ?e = 0" "te_cap ?e = cap" "enc_out ?e = []"
    using assms(2) by (simp_all add: tlv_enc_wf_def powerfs_tlv_enc_init_def enc_out_def)
  have e: "ret = 0" "e = put_bytes ?s ?e" using enc_seq_ok [of ?e fvs] w assms(3,4) by simp_all
  show "ret = 0" by (rule e)
  have l: "length ?s = (5 + width) * length fvs" by (induction fvs) auto
  have "enc_out e = ?s" "tlv_enc_wf e"
    using e w l assms(3) by (simp_all add: put_bytes_wf)
  then have "tlv_dec_wf (powerfs_tlv_dec_init (te_buf e) (te_len e))"
    "dec_rest (powerfs_tlv_dec_init (te_buf e) (te_len e)) = ?s @ []"
    by (simp_all add: tlv_enc_wf_def tlv_dec_wf_def powerfs_tlv_dec_init_def dec_rest_def enc_out_def)
  then show "fst (dec_seq (map fst fvs) (powerfs_tlv_dec_init (te_buf e) (te_len e))) =
    map (\<lambda>(f, v). Some v) fvs"
    using dec_seq_ser [OF assms(1)] by blast
qed

end

lemmas dec_read_simps = dec_read_field dec_read_other_field

lemma dec_u8_laws:
  "powerfs_tlv_enc_u8 e f v = enc_effect f [v] e"
  "tlv_dec_wf d \<Longrightarrow> dec_rest d = tlv_field f [v] @ r \<Longrightarrow>
    powerfs_tlv_dec_u8 d f = (0, Some v, d\<lparr>td_pos := td_pos d + 5 + 1\<rparr>)"
  "tlv_dec_wf d \<Longrightarrow> dec_rest d = tlv_field f w @ r \<Longrightarrow> length w < 2 ^ 32 \<Longrightarrow> g \<noteq> f \<Longrightarrow>
    powerfs_tlv_dec_u8 d g = (- ENOENT, None, d\<lparr>td_pos := td_pos d + 5 + length w\<rparr>)"
  using enc_item_effect [of "U8 f v" e] hdr_value [of d f "[v]" r]
    nth_subarr [of 0 1 "td_pos d + 5" "td_buf d"] hdr_fits [of d f "[v]" r]
  by (simp_all add: powerfs_tlv_dec_u8_def dec_read_simps tlv_dec_wf_def)

lemma dec_u16_laws:
  "powerfs_tlv_enc_u16 e f v = enc_effect f (le16 v) e"
  "tlv_dec_wf d \<Longrightarrow> dec_rest d = tlv_field f (le16 v) @ r \<Longrightarrow>
    powerfs_tlv_dec_u16 d f = (0, Some v, d\<lparr>td_pos := td_pos d + 5 + 2\<rparr>)"
  "tlv_dec_wf d \<Longrightarrow> dec_rest d = tlv_field f w @ r \<Longrightarrow> length w < 2 ^ 32 \<Longrightarrow> g \<noteq> f \<Longrightarrow>
    powerfs_tlv_dec_u16 d g = (- ENOENT, None, d\<lparr>td_pos := td_pos d + 5 + length w\<rparr>)"
  using enc_item_effect [of "U16 f v" e] hdr_value [of d f "le16 v" r]
  by (simp_all add: powerfs_tlv_dec_u16_def dec_read_simps)

lemma dec_u32_laws:
  "powerfs_tlv_enc_u32 e f v = enc_effect f (le32 v) e"
  "tlv_dec_wf d \<Longrightarrow> dec_rest d = tlv_field f (le32 v) @ r \<Longrightarrow>
    powerfs_tlv_dec_u32 d f = (0, Some v, d\<lparr>td_pos := td_pos d + 5 + 4\<rparr>)"
  "tlv_dec_wf d \<Longrightarrow> dec_rest d = tlv_field f w @ r \<Longrightarrow> length w < 2 ^ 32 \<Longrightarrow> g \<noteq> f \<Longrightarrow>
    powerfs_tlv_dec_u32 d g = (- ENOENT, None, d\<lparr>td_pos := td_pos d + 5 + length w\<rparr>)"
  using enc_item_effect [of "U32 f v" e] hdr_value [of d f "le32 v" r]
  by (simp_all add: powerfs_tlv_dec_u32_def dec_read_simps)

lemma dec_u64_laws:
  "powerfs_tlv_enc_u64 e f v = enc_effect f (le64 v) e"
  "tlv_dec_wf d \<Longrightarrow> dec_rest d = tlv_field f (le64 v) @ r \<Longrightarrow>
    powerfs_tlv_dec_u64 d f = (0, Some v, d\<lparr>td_pos := td_pos d + 5 + 8\<rparr>)"
  "tlv_dec_wf d \<Longrightarrow> dec_rest d = tlv_field f w @ r \<Longrightarrow> length w < 2 ^ 32 \<Longrightarrow> g \<noteq> f \<Longrightarrow>
    powerfs_tlv_dec_u64 d g = (- ENOENT, None, d\<lparr>td_pos := td_pos d + 5 + length w\<rparr>)"
  using enc_item_effect [of "U64 f v" e] hdr_value [of d f "le64 v" r]
  by (simp_all add: powerfs_tlv_dec_u64_def dec_read_simps)

interpretation tlv_u8: tlv_scalar powerfs_tlv_enc_u8 powerfs_tlv_dec_u8 "\<lambda>v. [v]" 1
  by unfold_locales (simp_all add: dec_u8_laws)

interpretation tlv_u16: tlv_scalar powerfs_tlv_enc_u16 powerfs_tlv_dec_u16 le16 2
  by unfold_locales (simp_all add: dec_u16_laws)

interpretation tlv_u32: tlv_scalar powerfs_tlv_enc_u32 powerfs_tlv_dec_u32 le32 4
  by unfold_locales (simp_all add: dec_u32_laws)

interpretation tlv_u64: tlv_scalar powerfs_tlv_enc_u64 powerfs_tlv_dec_u64 le64 8
  by unfold_locales (simp_all add: dec_u64_laws)


section \<open>Whole messages\<close>

lemma enc_items_ok:
  "tlv_enc_wf e \<Longrightarrow> te_len e + length (tlv_ser (map item_field its)) \<le> te_cap e \<Longrightarrow>
    \<forall>it \<in> set its. length (snd (item_field it)) \<le> POWERFS_NET_MAX_TLV \<Longrightarrow>
    enc_items its e = (0, put_bytes (tlv_ser (map item_field its)) e)"
proof (induction its arbitrary: e)
  case (Cons it its)
  obtain f v where fv: "item_field it = (f, v)" by (cases "item_field it")
  then show ?case using Cons.prems Cons.IH [of "put_bytes (tlv_field f v) e"]
    by (simp add: enc_item_effect enc_effect_ok put_bytes_wf put_bytes_append add.assoc)
qed simp

lemma enc_item_bounds:
  assumes "tlv_enc_wf e" "enc_item it e = (ret, e')"
  shows "tlv_enc_wf e' \<and> te_cap e' = te_cap e \<and> te_len e \<le> te_len e' \<and> ret \<in> {0, - ENOSPC, - E2BIG} \<and>
    length (te_buf e') = length (te_buf e) \<and>
    take (te_len e) (te_buf e') = take (te_len e) (te_buf e) \<and>
    drop (te_cap e) (te_buf e') = drop (te_cap e) (te_buf e)"
proof (cases "length (snd (item_field it)) \<le> POWERFS_NET_MAX_TLV")
  case True
  let ?f = "fst (item_field it)" and ?v = "snd (item_field it)"
  have eff: "enc_effect ?f ?v e = (ret, e')" using assms(2) enc_item_effect [OF True] by simp
  have put: "take (te_len e) (te_buf (put_bytes bs e)) = take (te_len e) (te_buf e)"
    "drop (te_cap e) (te_buf (put_bytes bs e)) = drop (te_cap e) (te_buf e)"
    "length (te_buf (put_bytes bs e)) = length (te_buf e)"
    if "te_len e + length bs \<le> te_cap e" for bs
  proof -
    have "te_len e + length bs \<le> length (te_buf e)"
      using that assms(1) by (simp add: tlv_enc_wf_def)
    then show "take (te_len e) (te_buf (put_bytes bs e)) = take (te_len e) (te_buf e)"
      using arg_cong [OF take_wr_bytes [of "te_len e" bs "te_buf e"], of "take (te_len e)"]
      by (simp add: put_bytes_def min_def split: if_splits)
  qed (use that in \<open>simp_all add: put_bytes_def drop_wr_bytes\<close>)
  show ?thesis
    using eff assms(1) by (auto simp: enc_effect_def put put_bytes_wf split: if_splits)
next
  case False
  then show ?thesis using assms
    by (cases it) (auto simp: powerfs_tlv_enc_string_def powerfs_tlv_enc_bytes_def)
qed

lemma enc_init_wf: "cap \<le> length buf \<Longrightarrow> tlv_enc_wf (powerfs_tlv_enc_init buf cap)"
  by (simp add: tlv_enc_wf_def powerfs_tlv_enc_init_def)

lemma dec_of_enc:
  assumes "tlv_enc_wf e"
  shows "tlv_dec_wf (powerfs_tlv_dec_init (te_buf e) (te_len e))"
    "dec_rest (powerfs_tlv_dec_init (te_buf e) (te_len e)) = enc_out e"
  using assms
  by (simp_all add: tlv_enc_wf_def tlv_dec_wf_def powerfs_tlv_dec_init_def dec_rest_def enc_out_def)

text \<open>The four \<open>find\<close> functions on a serialised list of fields.\<close>

lemma find_ser:
  fixes d :: tlv_dec and fs :: "(u8 \<times> bytes) list"
  assumes "td_len d \<le> length (td_buf d)" "take (td_len d) (td_buf d) = tlv_ser fs"
    "\<forall>(f, v) \<in> set fs. length v < 2 ^ 32"
  shows find_u64_ser: "fst (snd (powerfs_tlv_dec_find_u64 d f)) =
      map_option (\<lambda>(g, v). get_le64 v) (List.find (\<lambda>(g, v). g = f \<and> length v = 8) fs)"
    and find_u32_ser: "fst (snd (powerfs_tlv_dec_find_u32 d f)) =
      map_option (\<lambda>(g, v). get_le32 v) (List.find (\<lambda>(g, v). g = f \<and> length v = 4) fs)"
    and find_u8_ser: "fst (snd (powerfs_tlv_dec_find_u8 d f)) =
      map_option (\<lambda>(g, v). v ! 0) (List.find (\<lambda>(g, v). g = f \<and> length v = 1) fs)"
    and find_raw_ser: "map_option (\<lambda>(p, l). subarr p l (td_buf d))
        (fst (snd (powerfs_tlv_dec_find_raw d f))) =
      map_option snd (List.find (\<lambda>(g, v). g = f) fs)"
proof -
  let ?d = "d\<lparr>td_pos := 0\<rparr>"
  have w: "tlv_dec_wf ?d" "dec_rest ?d = tlv_ser fs"
    using assms by (simp_all add: tlv_dec_wf_def dec_rest_def)
  note scan = find_scan_ser [OF w assms(3)]
  show "fst (snd (powerfs_tlv_dec_find_u64 d f)) =
      map_option (\<lambda>(g, v). get_le64 v) (List.find (\<lambda>(g, v). g = f \<and> length v = 8) fs)"
    using scan [of "\<lambda>g l. g = f \<and> l = 8"]
    by (auto simp: powerfs_tlv_dec_find_u64_def split: option.splits)
  show "fst (snd (powerfs_tlv_dec_find_u32 d f)) =
      map_option (\<lambda>(g, v). get_le32 v) (List.find (\<lambda>(g, v). g = f \<and> length v = 4) fs)"
    using scan [of "\<lambda>g l. g = f \<and> l = 4"]
    by (auto simp: powerfs_tlv_dec_find_u32_def split: option.splits)
  have nth0: "subarr p 1 b = v \<Longrightarrow> length v = 1 \<Longrightarrow> b ! p = v ! 0" for p b and v :: bytes
    by (auto simp: subarr_def)
  show "fst (snd (powerfs_tlv_dec_find_u8 d f)) =
      map_option (\<lambda>(g, v). v ! 0) (List.find (\<lambda>(g, v). g = f \<and> length v = 1) fs)"
    using scan [of "\<lambda>g l. g = f \<and> l = 1"] nth0
    by (auto simp: powerfs_tlv_dec_find_u8_def split: option.splits)
  show "map_option (\<lambda>(p, l). subarr p l (td_buf d)) (fst (snd (powerfs_tlv_dec_find_raw d f))) =
      map_option snd (List.find (\<lambda>(g, v). g = f) fs)"
    using scan [of "\<lambda>g l. g = f"]
    by (auto simp: powerfs_tlv_dec_find_raw_def split: option.splits)
qed

text \<open>The scan depends only on the first \<open>td_len\<close> bytes of the buffer.\<close>

lemma subarr_take_cong: "p + n \<le> k \<Longrightarrow> take k a = take k b \<Longrightarrow> subarr p n a = subarr p n b"
  by (metis add.commute drop_take le_add_diff_inverse2 subarr_def take_drop take_take min.absorb1)

lemma find_scan_confined:
  "tlv_dec_wf d \<Longrightarrow> td_len d \<le> length buf \<Longrightarrow> take (td_len d) buf = take (td_len d) (td_buf d) \<Longrightarrow>
    tlv_find_scan hit (d\<lparr>td_buf := buf\<rparr>) =
    map_option (\<lambda>(l, d'). (l, d'\<lparr>td_buf := buf\<rparr>)) (tlv_find_scan hit d)"
proof (induction hit d rule: tlv_find_scan.induct)
  case (1 hit d)
  show ?case
  proof (cases "td_pos d + 5 \<le> td_len d")
    case False
    then show ?thesis by (simp add: tlv_find_scan.simps powerfs_tlv_dec_next_def)
  next
    case True
    let ?p = "td_pos d" and ?d = "d\<lparr>td_buf := buf\<rparr>"
    define f l where "f = td_buf d ! ?p" and "l = unat (get_be32 (subarr (?p + 1) 4 (td_buf d)))"
    have eqs: "buf ! ?p = f" "unat (get_be32 (subarr (?p + 1) 4 buf)) = l"
      using True "1.prems"(3) subarr_take_cong [of "?p + 1" 4 "td_len d" buf "td_buf d"]
        nth_take [of ?p "td_len d" buf] nth_take [of ?p "td_len d" "td_buf d"]
      by (auto simp: f_def l_def)
    have nx: "powerfs_tlv_dec_next d = (if ?p + 5 + l > td_len d then - EINVAL else 0,
        Some (f, l), d\<lparr>td_pos := ?p + 5\<rparr>)"
      and nx': "powerfs_tlv_dec_next ?d = (if ?p + 5 + l > td_len d then - EINVAL else 0,
        Some (f, l), ?d\<lparr>td_pos := ?p + 5\<rparr>)"
      using True eqs by (auto simp: powerfs_tlv_dec_next_def f_def l_def)
    show ?thesis
    proof (cases "?p + 5 + l > td_len d \<or> hit f l")
      case True
      then show ?thesis using nx nx' by (auto simp: tlv_find_scan.simps [of _ d] tlv_find_scan.simps [of _ ?d])
    next
      case False
      have s: "tlv_find_scan hit d = tlv_find_scan hit (d\<lparr>td_pos := ?p + 5 + l\<rparr>)"
        "tlv_find_scan hit ?d = tlv_find_scan hit (?d\<lparr>td_pos := ?p + 5 + l\<rparr>)"
        using False nx nx' by (subst tlv_find_scan.simps, auto)+
      have w: "tlv_dec_wf (d\<lparr>td_pos := ?p + 5 + l\<rparr>)" and pos: "?p < td_len d"
        and nx0: "powerfs_tlv_dec_next d = (0, Some (f, l), d\<lparr>td_pos := ?p + 5\<rparr>)" and nh: "\<not> hit f l"
        using False "1.prems"(1) nx True by (simp_all add: tlv_dec_wf_def)
      have comm: "?d\<lparr>td_pos := q\<rparr> = d\<lparr>td_pos := q, td_buf := buf\<rparr>" for q
        by simp
      show ?thesis
        using "1.IH" [OF pos nx0 [symmetric] refl refl refl _ nh] w "1.prems"(2,3) s comm by simp
    qed
  qed
qed


section \<open>Properties\<close>

text \<open>C8: A message of typed fields that fits the buffer is encoded without error to the reference
  serialisation, and every \<open>find\<close> function applied to the encoder's output returns the value of the
  first field with the requested id (and width), or reports that there is none.\<close>

theorem tlv_message_roundtrip:
  assumes "cap \<le> length buf" "length (tlv_ser (map item_field its)) \<le> cap"
    "\<forall>it \<in> set its. length (snd (item_field it)) \<le> POWERFS_NET_MAX_TLV"
    "enc_items its (powerfs_tlv_enc_init buf cap) = (ret, e)"
    "d = powerfs_tlv_dec_init (te_buf e) (powerfs_tlv_enc_len e)"
  shows "ret = 0 \<and> enc_out e = tlv_ser (map item_field its) \<and>
    fst (snd (powerfs_tlv_dec_find_u64 d f)) = map_option (\<lambda>(g, v). get_le64 v)
      (List.find (\<lambda>(g, v). g = f \<and> length v = 8) (map item_field its)) \<and>
    fst (snd (powerfs_tlv_dec_find_u32 d f)) = map_option (\<lambda>(g, v). get_le32 v)
      (List.find (\<lambda>(g, v). g = f \<and> length v = 4) (map item_field its)) \<and>
    fst (snd (powerfs_tlv_dec_find_u8 d f)) = map_option (\<lambda>(g, v). v ! 0)
      (List.find (\<lambda>(g, v). g = f \<and> length v = 1) (map item_field its)) \<and>
    map_option (\<lambda>(p, l). subarr p l (td_buf d)) (fst (snd (powerfs_tlv_dec_find_raw d f))) =
      map_option snd (List.find (\<lambda>(g, v). g = f) (map item_field its))"
proof -
  let ?fs = "map item_field its"
  have z: "te_len (powerfs_tlv_enc_init buf cap) = 0" "te_cap (powerfs_tlv_enc_init buf cap) = cap"
    "enc_out (powerfs_tlv_enc_init buf cap) = []"
    by (simp_all add: powerfs_tlv_enc_init_def enc_out_def)
  note w = enc_init_wf [OF assms(1)]
  have e: "ret = 0" "e = put_bytes (tlv_ser ?fs) (powerfs_tlv_enc_init buf cap)"
    using enc_items_ok [OF w] assms(2-4) z by simp_all
  have out: "enc_out e = tlv_ser ?fs" and we: "tlv_enc_wf e"
    using e w z assms(2) by (simp_all add: put_bytes_wf)
  have d: "td_len d \<le> length (td_buf d)" "take (td_len d) (td_buf d) = tlv_ser ?fs"
    using dec_of_enc [OF we] assms(5) out
    by (simp_all add: tlv_dec_wf_def dec_rest_def powerfs_tlv_dec_init_def powerfs_tlv_enc_len_def)
  have "length v < 2 ^ 32" if "(g, v) \<in> set ?fs" for g v
  proof -
    from that obtain it where "it \<in> set its" "item_field it = (g, v)" by auto
    then show ?thesis using bspec [OF assms(3), of it] by simp
  qed
  then have l: "\<forall>(f, v) \<in> set ?fs. length v < 2 ^ 32" by blast
  show ?thesis using e(1) out find_ser [OF d l] by simp
qed

theorem tlv_message_roundtrip_witness:
  "enc_items [U32 1 7, U64 2 9] (powerfs_tlv_enc_init (replicate 22 0) 22) =
      (0, put_bytes (tlv_ser [(1, le32 7), (2, le64 9)]) (powerfs_tlv_enc_init (replicate 22 0) 22)) \<and>
   fst (snd (powerfs_tlv_dec_find_u64 (powerfs_tlv_dec_init
     (te_buf (put_bytes (tlv_ser [(1, le32 7), (2, le64 9)]) (powerfs_tlv_enc_init (replicate 22 0) 22))) 22) 2))
     = Some 9"
proof -
  let ?i = "powerfs_tlv_enc_init (replicate 22 0) 22"
  let ?e = "put_bytes (tlv_ser [(1, le32 7), (2, le64 9)]) ?i"
  have e: "enc_items [U32 1 7, U64 2 9] ?i = (0, ?e)"
    using enc_items_ok [of ?i "[U32 1 7, U64 2 9]"] enc_init_wf [of 22 "replicate 22 0"]
    by (simp add: powerfs_tlv_enc_init_def)
  have l: "powerfs_tlv_enc_len ?e = 22"
    by (simp add: powerfs_tlv_enc_len_def powerfs_tlv_enc_init_def)
  show ?thesis
    using e tlv_message_roundtrip [OF _ _ _ e refl, of 2] unfolding l by simp
qed

text \<open>Encoding any items into a buffer of the stated capacity keeps the write position inside
  the capacity, never changes a byte at or beyond it, never changes bytes already emitted, and fails
  only with ENOSPC or E2BIG.\<close>

theorem tlv_encode_in_bounds:
  assumes "cap \<le> length buf" "enc_items its (powerfs_tlv_enc_init buf cap) = (ret, e)"
  shows "te_len e \<le> cap \<and> length (te_buf e) = length buf \<and> drop cap (te_buf e) = drop cap buf \<and>
    ret \<in> {0, - ENOSPC, - E2BIG}"
proof -
  have "tlv_enc_wf e0 \<Longrightarrow> enc_items its e0 = (ret, e) \<Longrightarrow>
      tlv_enc_wf e \<and> te_cap e = te_cap e0 \<and> length (te_buf e) = length (te_buf e0) \<and>
      drop (te_cap e0) (te_buf e) = drop (te_cap e0) (te_buf e0) \<and> ret \<in> {0, - ENOSPC, - E2BIG}" for e0
  proof (induction its arbitrary: e0)
    case (Cons it its)
    obtain r1 e1 where i: "enc_item it e0 = (r1, e1)" by (cases "enc_item it e0")
    note b = enc_item_bounds [OF Cons.prems(1) i]
    show ?case using Cons.IH [of e1] Cons.prems(2) i b by (auto split: if_splits)
  qed simp
  from this [OF enc_init_wf [OF assms(1)] assms(2)] show ?thesis
    by (simp add: tlv_enc_wf_def powerfs_tlv_enc_init_def)
qed

theorem tlv_encode_in_bounds_witness:
  "enc_items [U64 2 9] (powerfs_tlv_enc_init (replicate 8 0) 7) =
     (- ENOSPC, put_bytes (2 # be32 8) (powerfs_tlv_enc_init (replicate 8 0) 7)) \<and>
   te_len (put_bytes (2 # be32 8) (powerfs_tlv_enc_init (replicate 8 0) 7)) \<le> 7"
proof -
  let ?i = "powerfs_tlv_enc_init (replicate 8 0) 7"
  have e: "enc_items [U64 2 9] ?i = (- ENOSPC, put_bytes (2 # be32 8) ?i)"
    by (simp add: powerfs_tlv_enc_u64_def powerfs_tlv_enc_write_hdr_def put_bytes_def
        powerfs_tlv_enc_init_def)
  show ?thesis using tlv_encode_in_bounds [OF _ e] e by simp
qed

text \<open>On arbitrary bytes the order-independent lookup of a 64-bit field never reads past the
  declared length: two buffers that agree on the first \<open>len\<close> bytes give the same result, a hit leaves
  the position inside the buffer, and a miss restores the position.\<close>

theorem tlv_find_u64_confined:
  assumes "len \<le> length buf" "len \<le> length buf'" "take len buf = take len buf'" "pos \<le> len"
    "d = \<lparr>td_buf = buf, td_len = len, td_pos = pos\<rparr>"
    "d' = \<lparr>td_buf = buf', td_len = len, td_pos = pos\<rparr>"
    "powerfs_tlv_dec_find_u64 d f = (ret, v, e)" "powerfs_tlv_dec_find_u64 d' f = (ret', v', e')"
  shows "ret = ret' \<and> v = v' \<and> td_pos e = td_pos e' \<and> td_pos e \<le> len \<and>
    (ret = 0 \<and> v \<noteq> None \<or> ret = - ENOENT \<and> v = None \<and> e = d)"
proof -
  let ?h = "\<lambda>g l. g = f \<and> l = (8::nat)" and ?d = "d\<lparr>td_pos := 0\<rparr>"
  have w: "tlv_dec_wf ?d" using assms by (simp add: tlv_dec_wf_def)
  have d': "d'\<lparr>td_pos := 0\<rparr> = ?d\<lparr>td_buf := buf'\<rparr>" using assms by simp
  have c: "tlv_find_scan ?h (d'\<lparr>td_pos := 0\<rparr>) =
      map_option (\<lambda>(l, e). (l, e\<lparr>td_buf := buf'\<rparr>)) (tlv_find_scan ?h ?d)"
    unfolding d' by (rule find_scan_confined [OF w]) (use assms in simp_all)
  have l8: "tlv_find_scan ?h x = Some (l, y) \<Longrightarrow> l = 8" for x l y
    by (induction ?h x rule: tlv_find_scan.induct)
       (subst (asm) (2) tlv_find_scan.simps, auto split: if_splits option.splits prod.splits)
  show ?thesis
  proof (cases "tlv_find_scan ?h ?d")
    case None
    then have "tlv_find_scan ?h (d'\<lparr>td_pos := 0\<rparr>) = None" using c by simp
    then have "ret = - ENOENT \<and> v = None \<and> e = d" "ret' = - ENOENT \<and> v' = None \<and> e' = d'"
      using None assms(7,8) by (simp_all add: powerfs_tlv_dec_find_u64_def)
    then show ?thesis using assms(4-6) by simp
  next
    case (Some s)
    then obtain l x where s: "tlv_find_scan ?h ?d = Some (l, x)" by (cases s) auto
    note b = find_scan_wf [OF s w] and l = l8 [OF s]
    have "subarr (td_pos x) 8 buf = subarr (td_pos x) 8 buf'"
      using subarr_take_cong [of "td_pos x" 8 len buf buf'] b l assms by simp
    then show ?thesis using assms s c b l by (auto simp: powerfs_tlv_dec_find_u64_def)
  qed
qed

theorem tlv_find_u64_confined_witness:
  "fst (powerfs_tlv_dec_find_u64 \<lparr>td_buf = [2, 0, 0, 0, 8, 1], td_len = 6, td_pos = 3\<rparr> 2) =
   fst (powerfs_tlv_dec_find_u64 \<lparr>td_buf = [2, 0, 0, 0, 8, 1, 7, 7], td_len = 6, td_pos = 3\<rparr> 2)"
proof -
  let ?d = "\<lparr>td_buf = [2, 0, 0, 0, 8, 1], td_len = 6, td_pos = 3\<rparr>"
  let ?d' = "\<lparr>td_buf = [2, 0, 0, 0, 8, 1, 7, 7], td_len = 6, td_pos = 3\<rparr>"
  obtain r v e where a: "powerfs_tlv_dec_find_u64 ?d 2 = (r, v, e)"
    by (cases "powerfs_tlv_dec_find_u64 ?d 2")
  obtain r' v' e' where b: "powerfs_tlv_dec_find_u64 ?d' 2 = (r', v', e')"
    by (cases "powerfs_tlv_dec_find_u64 ?d' 2")
  show ?thesis using tlv_find_u64_confined [OF _ _ _ _ refl refl a b] a b by simp
qed

end
