(* ===== verification/Layout.thy ===== *)
theory Layout
  imports Tlv
begin

text \<open>
  File layout: parsing of the layout fields of a metadata response (\<open>powerfs_net_inode.c\<close>),
  application of a parsed layout to an inode and the location of a chunk on a volume
  (\<open>powerfs_inode.c\<close>). A \<open>kmalloc\<close>ed array together with its count is a list; NULL is the empty list
  where the code tests pointer and count together, and \<^term>\<open>None\<close> where it tests the pointer alone.
  File offsets are non-negative \<open>loff_t\<close> values. Whether each allocation succeeds is the parameter
  \<open>alloc\<close>. The inode record holds the fields the layout code reads or writes.
\<close>

abbreviation PLACEMENT_INLINE :: u8 where "PLACEMENT_INLINE \<equiv> 0"
abbreviation PLACEMENT_FLAT :: u8 where "PLACEMENT_FLAT \<equiv> 1"
abbreviation PLACEMENT_STRIPE :: u8 where "PLACEMENT_STRIPE \<equiv> 2"
abbreviation PLACEMENT_WIDESTRIPE :: u8 where "PLACEMENT_WIDESTRIPE \<equiv> 3"
abbreviation RELIABILITY_EC :: u8 where "RELIABILITY_EC \<equiv> 2"

abbreviation POWERFS_CHUNK_SIZE :: "'a::len word" where "POWERFS_CHUNK_SIZE \<equiv> 0x100000"
abbreviation POWERFS_INLINE_MAX_SIZE :: nat where "POWERFS_INLINE_MAX_SIZE \<equiv> 8192"

record chunk_map =
  cm_chunk_idx :: u32
  cm_needle_id :: u64
  cm_volume_id :: u64
  cm_crc32 :: u32
  cm_size :: u64
  cm_fp_xxh :: u64
  cm_fp_valid :: bool
  cm_wp_gen :: u64

record file_layout =
  fl_placement :: u8
  fl_reliability :: u8
  fl_reliability_state :: u8
  fl_chunk_size :: u32
  fl_inline_max_size :: u32
  fl_inline_data :: "bytes option"
  fl_inline_len :: u32
  fl_stripe_size :: u64
  fl_stripe_count :: u32
  fl_start_volume_idx :: u32
  fl_start_needle_id :: u64
  fl_volume_ids :: "u64 list"
  fl_ec_data :: u32
  fl_ec_parity :: u32
  fl_replica_chunks :: "chunk_map list"
  fl_ec_chunks :: "chunk_map list"
  fl_has_placement :: bool
  fl_has_reliability :: bool
  fl_has_inline_data :: bool
  fl_has_replica_chunks :: bool
  fl_has_ec_chunks :: bool

definition layout_zero :: file_layout where
  "layout_zero = \<lparr>fl_placement = 0, fl_reliability = 0, fl_reliability_state = 0, fl_chunk_size = 0,
     fl_inline_max_size = 0, fl_inline_data = None, fl_inline_len = 0, fl_stripe_size = 0,
     fl_stripe_count = 0, fl_start_volume_idx = 0, fl_start_needle_id = 0, fl_volume_ids = [],
     fl_ec_data = 0, fl_ec_parity = 0, fl_replica_chunks = [], fl_ec_chunks = [],
     fl_has_placement = False, fl_has_reliability = False, fl_has_inline_data = False,
     fl_has_replica_chunks = False, fl_has_ec_chunks = False\<rparr>"

datatype layout_alloc = L_inline | L_inline_chunk | L_ec_chunks | L_volume_ids | L_volume_range | L_replica | L_keys


section \<open>Parsing\<close>

definition parse_placement_field :: "bytes \<Rightarrow> file_layout \<Rightarrow> int \<times> file_layout" where
  "parse_placement_field val l =
    (if length val < 1 then (- EINVAL, l)
     else let l = l\<lparr>fl_placement := val ! 0, fl_has_placement := True\<rparr> in
     if val ! 0 = PLACEMENT_FLAT then (0, l)
     else if val ! 0 = PLACEMENT_INLINE then
       (0, if length val \<ge> 5 then l\<lparr>fl_inline_max_size := get_le32 (drop 1 val)\<rparr> else l)
     else if val ! 0 = PLACEMENT_STRIPE \<or> val ! 0 = PLACEMENT_WIDESTRIPE then
       (0, if length val \<ge> 17
           then l\<lparr>fl_stripe_size := get_le64 (drop 1 val), fl_stripe_count := get_le32 (drop 9 val),
                  fl_start_volume_idx := get_le32 (drop 13 val)\<rparr>
           else l)
     else (0, l\<lparr>fl_placement := PLACEMENT_FLAT\<rparr>))"

definition parse_reliability_field :: "bytes \<Rightarrow> file_layout \<Rightarrow> int \<times> file_layout" where
  "parse_reliability_field val l =
    (if length val < 1 then (- EINVAL, l)
     else let l = l\<lparr>fl_reliability := val ! 0, fl_has_reliability := True\<rparr> in
     (0, if val ! 0 = RELIABILITY_EC \<and> length val \<ge> 9
         then l\<lparr>fl_ec_data := get_le32 (drop 1 val), fl_ec_parity := get_le32 (drop 5 val)\<rparr>
         else l))"

text \<open>One 44 byte chunk reference; the index counts units of \<open>POWERFS_CHUNK_SIZE\<close> and is kept in
  32 bits. The fields of the deduplication table are not set by the parser.\<close>

definition chunk_ref_decode :: "bytes \<Rightarrow> nat \<Rightarrow> chunk_map" where
  "chunk_ref_decode b p =
    \<lparr>cm_chunk_idx = ucast (get_le64 (drop p b) div POWERFS_CHUNK_SIZE),
     cm_needle_id = get_le64 (drop (p + 16) b), cm_volume_id = get_le64 (drop (p + 24) b),
     cm_crc32 = get_le32 (drop (p + 32) b), cm_size = get_le64 (drop (p + 8) b),
     cm_fp_xxh = 0, cm_fp_valid = False, cm_wp_gen = 0\<rparr>"

definition parse_replica_chunks_field ::
    "(layout_alloc \<Rightarrow> bool) \<Rightarrow> bytes \<Rightarrow> file_layout \<Rightarrow> int \<times> file_layout" where
  "parse_replica_chunks_field alloc val l =
    (if length val < 4 then (- EINVAL, l)
     else let cnt = unat (get_le32 val) in
     if cnt = 0 then (0, l\<lparr>fl_replica_chunks := [], fl_has_replica_chunks := True\<rparr>)
     else if length val < 4 + cnt * 44 then (- EINVAL, l)
     else if \<not> alloc L_replica then (- ENOMEM, l)
     else (0, l\<lparr>fl_replica_chunks := map (\<lambda>i. chunk_ref_decode val (4 + i * 44)) [0..<cnt],
               fl_has_replica_chunks := True\<rparr>))"

text \<open>The value of a field found by \<open>find_raw\<close>, as bytes.\<close>

definition find_raw_bytes :: "tlv_dec \<Rightarrow> u8 \<Rightarrow> bytes option" where
  "find_raw_bytes d field =
    map_option (\<lambda>(p, l). subarr p l (td_buf d)) (fst (snd (powerfs_tlv_dec_find_raw d field)))"

abbreviation find_u64 :: "tlv_dec \<Rightarrow> u8 \<Rightarrow> u64 option" where
  "find_u64 d field \<equiv> fst (snd (powerfs_tlv_dec_find_u64 d field))"

abbreviation find_u32 :: "tlv_dec \<Rightarrow> u8 \<Rightarrow> u32 option" where
  "find_u32 d field \<equiv> fst (snd (powerfs_tlv_dec_find_u32 d field))"

abbreviation find_u8 :: "tlv_dec \<Rightarrow> u8 \<Rightarrow> u8 option" where
  "find_u8 d field \<equiv> fst (snd (powerfs_tlv_dec_find_u8 d field))"

definition parse_inline_data :: "(layout_alloc \<Rightarrow> bool) \<Rightarrow> tlv_dec \<Rightarrow> file_layout \<Rightarrow> file_layout" where
  "parse_inline_data alloc d l =
    (case find_raw_bytes d 0xAE of
       None \<Rightarrow> l
     | Some raw \<Rightarrow>
       if length raw > 0 \<and> length raw \<le> POWERFS_INLINE_MAX_SIZE then
         if alloc L_inline
         then l\<lparr>fl_inline_data := Some raw, fl_inline_len := of_nat (length raw), fl_has_inline_data := True\<rparr>
         else l\<lparr>fl_inline_data := None\<rparr>
       else l)"

definition parse_chunk_layout :: "(layout_alloc \<Rightarrow> bool) \<Rightarrow> tlv_dec \<Rightarrow> file_layout \<Rightarrow> file_layout" where
  "parse_chunk_layout alloc d l =
    (if fl_has_inline_data l then l
     else case find_raw_bytes d 0xA4 of
       None \<Rightarrow> l
     | Some raw \<Rightarrow>
       if length raw \<ge> 5 \<and> raw ! 0 = 0 then
         let data_len = unat (get_le32 (drop 1 raw)) in
         if data_len > 0 \<and> data_len \<le> POWERFS_INLINE_MAX_SIZE \<and> length raw \<ge> 5 + data_len then
           if alloc L_inline_chunk
           then l\<lparr>fl_inline_data := Some (subarr 5 data_len raw), fl_inline_len := of_nat data_len,
                  fl_has_inline_data := True\<rparr>
           else l\<lparr>fl_inline_data := None\<rparr>
         else l
       else if length raw \<ge> 5 \<and> raw ! 0 = 1 then
         let cnt = unat (get_le32 (drop 1 raw)) in
         if cnt > 0 \<and> length raw \<ge> 5 + cnt * 44 \<and> alloc L_ec_chunks
         then l\<lparr>fl_ec_chunks := map (\<lambda>i. chunk_ref_decode raw (5 + i * 44)) [0..<cnt],
                fl_has_ec_chunks := True\<rparr>
         else l
       else l)"

definition parse_stripe_fields :: "tlv_dec \<Rightarrow> file_layout \<Rightarrow> file_layout" where
  "parse_stripe_fields d l =
    (let l = (if fl_stripe_size l = 0
              then case find_u64 d 0xA8 of Some v \<Rightarrow> l\<lparr>fl_stripe_size := v\<rparr> | None \<Rightarrow> l else l);
         l = (if fl_stripe_count l = 0
              then case find_u32 d 0xA9 of Some v \<Rightarrow> l\<lparr>fl_stripe_count := v\<rparr> | None \<Rightarrow> l else l);
         l = (if fl_start_volume_idx l = 0
              then case find_u32 d 0xAA of Some v \<Rightarrow> l\<lparr>fl_start_volume_idx := v\<rparr> | None \<Rightarrow> l else l)
     in case find_u64 d 0xAC of Some v \<Rightarrow> l\<lparr>fl_start_needle_id := v\<rparr> | None \<Rightarrow> l)"

definition parse_volume_ids :: "(layout_alloc \<Rightarrow> bool) \<Rightarrow> tlv_dec \<Rightarrow> file_layout \<Rightarrow> file_layout" where
  "parse_volume_ids alloc d l =
    (case find_raw_bytes d 0xAB of
       None \<Rightarrow> l
     | Some raw \<Rightarrow>
       if length raw > 0 \<and> length raw mod 8 = 0 \<and> length raw div 8 \<le> 256 \<and> alloc L_volume_ids
       then l\<lparr>fl_volume_ids := map (\<lambda>i. get_le64 (drop (i * 8) raw)) [0..<length raw div 8]\<rparr>
       else l)"

definition parse_volume_range :: "(layout_alloc \<Rightarrow> bool) \<Rightarrow> tlv_dec \<Rightarrow> file_layout \<Rightarrow> file_layout" where
  "parse_volume_range alloc d l =
    (if fl_volume_ids l \<noteq> [] then l
     else case find_raw_bytes d 0xB6 of
       None \<Rightarrow> l
     | Some raw \<Rightarrow>
       if length raw = 12 then
         let start = get_le64 raw; cnt = unat (get_le32 (drop 8 raw)) in
         if cnt > 0 \<and> cnt \<le> 256 \<and> alloc L_volume_range
         then l\<lparr>fl_volume_ids := map (\<lambda>i. start + of_nat i) [0..<cnt]\<rparr>
         else l
       else l)"

text \<open>Every lookup restarts at offset 0, so the position of the decoder between the calls does
  not matter.\<close>

definition parse_layout_scalars :: "tlv_dec \<Rightarrow> file_layout" where
  "parse_layout_scalars d =
    (let l = layout_zero\<lparr>fl_chunk_size := POWERFS_CHUNK_SIZE\<rparr>;
         l = (case find_raw_bytes d 0xA0 of Some raw \<Rightarrow> snd (parse_placement_field raw l) | None \<Rightarrow> l);
         l = (case find_raw_bytes d 0xA1 of Some raw \<Rightarrow> snd (parse_reliability_field raw l) | None \<Rightarrow> l);
         l = (case find_u8 d 0xA2 of Some v \<Rightarrow> l\<lparr>fl_reliability_state := v\<rparr> | None \<Rightarrow> l);
         l = (case find_u32 d 0xAD of Some v \<Rightarrow> if v > 0 then l\<lparr>fl_chunk_size := v\<rparr> else l | None \<Rightarrow> l)
     in if fl_inline_max_size l = 0
        then case find_u32 d 0xAF of Some v \<Rightarrow> l\<lparr>fl_inline_max_size := v\<rparr> | None \<Rightarrow> l else l)"

definition parse_file_layout :: "(layout_alloc \<Rightarrow> bool) \<Rightarrow> tlv_dec \<Rightarrow> file_layout" where
  "parse_file_layout alloc d =
    (let l = parse_layout_scalars d;
         l = parse_inline_data alloc d l;
         l = parse_chunk_layout alloc d l;
         l = parse_stripe_fields d l;
         l = parse_volume_ids alloc d l;
         l = parse_volume_range alloc d l
     in case find_raw_bytes d 0xB5 of
          Some raw \<Rightarrow> snd (parse_replica_chunks_field alloc raw l) | None \<Rightarrow> l)"


section \<open>Applying a layout to an inode\<close>

record finode =
  pi_volume_id :: u64
  pi_file_key :: u64
  pi_placement :: u8
  pi_reliability :: u8
  pi_reliability_state :: u8
  pi_chunk_size :: u32
  pi_inline_data :: "bytes option"
  pi_inline_len :: u32
  pi_inline_max_size :: u32
  pi_inline_dirty :: bool
  pi_stripe_size :: u64
  pi_stripe_count :: u32
  pi_start_volume_idx :: u32
  pi_volume_ids :: "u64 list"
  pi_stripe_keys :: "u64 list option"
  pi_chunks :: "chunk_map list"
  pi_replica_chunks :: "chunk_map list"
  pi_ec_data :: u32
  pi_ec_parity :: u32
  pi_ec_chunks :: "chunk_map list"
  pi_dedup_chunks :: "chunk_map list"

abbreviation is_stripe :: "u8 \<Rightarrow> bool" where
  "is_stripe p \<equiv> p = PLACEMENT_STRIPE \<or> p = PLACEMENT_WIDESTRIPE"

text \<open>The three early returns that keep a newer local layout.\<close>

definition layout_is_stale :: "finode \<Rightarrow> file_layout \<Rightarrow> bool" where
  "layout_is_stale pi l \<longleftrightarrow> fl_has_placement l \<and>
    (pi_placement pi = PLACEMENT_INLINE \<and> pi_inline_dirty pi \<and> fl_placement l \<noteq> PLACEMENT_INLINE \<or>
     pi_placement pi \<noteq> PLACEMENT_INLINE \<and> (pi_volume_id pi \<noteq> 0 \<or> pi_file_key pi \<noteq> 0) \<and>
       fl_placement l = PLACEMENT_INLINE \<or>
     is_stripe (pi_placement pi) \<and> pi_volume_ids pi \<noteq> [] \<and>
       (fl_placement l = PLACEMENT_FLAT \<or> fl_placement l = PLACEMENT_INLINE))"

definition apply_basic :: "file_layout \<Rightarrow> finode \<Rightarrow> finode" where
  "apply_basic l pi =
    (let pi = (if fl_has_placement l then pi\<lparr>pi_placement := fl_placement l\<rparr> else pi);
         pi = (if fl_has_reliability l then pi\<lparr>pi_reliability := fl_reliability l\<rparr> else pi);
         pi = pi\<lparr>pi_reliability_state := fl_reliability_state l\<rparr>;
         pi = (if fl_chunk_size l > 0 then pi\<lparr>pi_chunk_size := fl_chunk_size l\<rparr> else pi)
     in if fl_inline_max_size l > 0 then pi\<lparr>pi_inline_max_size := fl_inline_max_size l\<rparr>
        else if pi_inline_max_size pi = 0 then pi\<lparr>pi_inline_max_size := of_nat POWERFS_INLINE_MAX_SIZE\<rparr>
        else pi)"

definition apply_inline :: "file_layout \<Rightarrow> finode \<Rightarrow> finode" where
  "apply_inline l pi =
    (if pi_placement pi = PLACEMENT_INLINE \<and> fl_has_inline_data l then
       if pi_inline_dirty pi then pi
       else pi\<lparr>pi_inline_data := fl_inline_data l, pi_inline_len := fl_inline_len l\<rparr>
     else if pi_placement pi \<noteq> PLACEMENT_INLINE \<and> pi_inline_data pi \<noteq> None then
       pi\<lparr>pi_inline_data := None, pi_inline_len := 0, pi_inline_dirty := False\<rparr>
     else pi)"

definition preserve_stripe :: "file_layout \<Rightarrow> finode \<Rightarrow> bool" where
  "preserve_stripe l pi \<longleftrightarrow> is_stripe (pi_placement pi) \<and> pi_stripe_size pi > 0 \<and>
    pi_stripe_size pi = fl_stripe_size l \<and> length (pi_volume_ids pi) > length (fl_volume_ids l) \<and>
    fl_volume_ids l \<noteq> [] \<and> list_all (\<lambda>v. v \<in> set (pi_volume_ids pi)) (fl_volume_ids l)"

definition apply_stripe :: "file_layout \<Rightarrow> finode \<Rightarrow> finode" where
  "apply_stripe l pi =
    (if is_stripe (pi_placement pi) then
       if preserve_stripe l pi then pi
       else pi\<lparr>pi_stripe_size := fl_stripe_size l, pi_stripe_count := fl_stripe_count l,
               pi_start_volume_idx := fl_start_volume_idx l, pi_volume_ids := fl_volume_ids l\<rparr>
     else pi\<lparr>pi_volume_ids := [], pi_stripe_keys := None, pi_stripe_size := 0, pi_stripe_count := 0\<rparr>)"

definition apply_ec :: "file_layout \<Rightarrow> finode \<Rightarrow> finode" where
  "apply_ec l pi =
    (let pi = (if pi_reliability pi = RELIABILITY_EC
               then pi\<lparr>pi_ec_data := fl_ec_data l, pi_ec_parity := fl_ec_parity l\<rparr>
               else pi\<lparr>pi_ec_data := 0, pi_ec_parity := 0\<rparr>)
     in if fl_has_replica_chunks l then pi\<lparr>pi_replica_chunks := fl_replica_chunks l\<rparr> else pi)"

text \<open>One iteration of the loop that derives the base needle of each volume from the anchors.\<close>

definition stripe_key_step :: "u32 \<Rightarrow> u64 \<Rightarrow> u64 \<Rightarrow> chunk_map \<Rightarrow> u64 list \<Rightarrow> u64 list" where
  "stripe_key_step start nkeys chunks_per_unit cm keys =
    (let s_idx = ucast (cm_chunk_idx cm) div chunks_per_unit;
         vol_rank = s_idx mod nkeys;
         vol_idx = unat ((ucast start + vol_rank) mod nkeys);
         rnd = s_idx div nkeys;
         idx_in_unit = ucast (cm_chunk_idx cm) mod chunks_per_unit;
         vol_chunk_idx = rnd * chunks_per_unit + idx_in_unit
     in if keys ! vol_idx = 0 then keys[vol_idx := cm_needle_id cm - vol_chunk_idx] else keys)"

definition apply_chunks :: "(layout_alloc \<Rightarrow> bool) \<Rightarrow> bool \<Rightarrow> file_layout \<Rightarrow> finode \<Rightarrow> finode" where
  "apply_chunks alloc preserve l pi =
    (if \<not> fl_has_ec_chunks l then pi
     else if pi_reliability pi = RELIABILITY_EC then pi\<lparr>pi_ec_chunks := fl_ec_chunks l\<rparr>
     else if pi_placement pi = PLACEMENT_FLAT then pi\<lparr>pi_chunks := fl_ec_chunks l\<rparr>
     else if is_stripe (pi_placement pi) then
       let n = length (pi_volume_ids pi);
           stripe_sz = (if pi_stripe_size pi \<noteq> 0 then pi_stripe_size pi else ucast (pi_chunk_size pi));
           csz = (if pi_chunk_size pi \<noteq> 0 then ucast (pi_chunk_size pi) else POWERFS_CHUNK_SIZE);
           chunks_per_unit = (if stripe_sz \<noteq> 0 \<and> csz \<noteq> 0 then stripe_sz div csz else 1);
           pi = (if n > 0 \<and> chunks_per_unit > 0 \<and> \<not> preserve \<and> alloc L_keys
                 then pi\<lparr>pi_stripe_keys := Some (fold (stripe_key_step (pi_start_volume_idx pi) (of_nat n)
                        chunks_per_unit) (fl_ec_chunks l) (replicate n 0))\<rparr>
                 else pi)
       in pi\<lparr>pi_chunks := []\<rparr>
     else pi)"

definition powerfs_apply_layout_to_inode :: "(layout_alloc \<Rightarrow> bool) \<Rightarrow> file_layout \<Rightarrow> finode \<Rightarrow> finode" where
  "powerfs_apply_layout_to_inode alloc l pi =
    (if layout_is_stale pi l then pi
     else let pi = apply_inline l (apply_basic l pi);
              preserve = preserve_stripe l pi
     in apply_chunks alloc preserve l (apply_ec l (apply_stripe l pi)))"


section \<open>Locating a chunk\<close>

definition effective_chunk_size :: "finode \<Rightarrow> u64" where
  "effective_chunk_size pi =
    (if pi_chunk_size pi \<noteq> 0 then ucast (pi_chunk_size pi) else POWERFS_CHUNK_SIZE)"

definition powerfs_locate_chunk :: "finode \<Rightarrow> u64 \<Rightarrow> int \<times> (u64 \<times> u64) option" where
  "powerfs_locate_chunk pi offset =
    (if pi_placement pi = PLACEMENT_INLINE then (- EINVAL, None)
     else let chunk_size = effective_chunk_size pi;
              chunk_idx = offset div chunk_size;
              cm = pi_chunks pi ! unat chunk_idx
     in if unat chunk_idx < length (pi_chunks pi) \<and> \<not> is_stripe (pi_placement pi) \<and>
           cm_volume_id cm \<noteq> 0 \<and> cm_needle_id cm \<noteq> 0
        then (0, Some (cm_volume_id cm, cm_needle_id cm))
        else if is_stripe (pi_placement pi) \<and> pi_volume_ids pi \<noteq> [] then
          let stripe_size = (if pi_stripe_size pi \<noteq> 0 then pi_stripe_size pi else chunk_size);
              cpu0 = stripe_size div chunk_size;
              chunks_per_unit = (if cpu0 = 0 then 1 else cpu0);
              n = of_nat (length (pi_volume_ids pi));
              stripe_idx = offset div stripe_size;
              vol_rank = stripe_idx mod n;
              round = stripe_idx div n;
              vol_array_idx = (ucast (pi_start_volume_idx pi) + vol_rank) mod n;
              chunk_idx_in_unit = (offset mod stripe_size) div chunk_size;
              vol_chunk_idx = round * chunks_per_unit + chunk_idx_in_unit;
              base_needle = (case pi_stripe_keys pi of
                  Some keys \<Rightarrow> keys ! unat vol_array_idx | None \<Rightarrow> pi_file_key pi)
          in (0, Some (pi_volume_ids pi ! unat vol_array_idx, base_needle + vol_chunk_idx))
        else if pi_volume_id pi = 0 \<or> pi_file_key pi = 0 then (- EINVAL, None)
        else (0, Some (pi_volume_id pi, pi_file_key pi + chunk_idx)))"

definition powerfs_locate_chunk_for_read :: "finode \<Rightarrow> u64 \<Rightarrow> int \<times> (u64 \<times> u64) option" where
  "powerfs_locate_chunk_for_read pi offset =
    (if pi_placement pi = PLACEMENT_INLINE then (- EINVAL, None)
     else let chunk_idx = offset div POWERFS_CHUNK_SIZE;
              tracked = (unat chunk_idx < length (pi_dedup_chunks pi));
              e = pi_dedup_chunks pi ! unat chunk_idx
     in if tracked \<and> cm_fp_valid e \<and> cm_needle_id e \<noteq> 0
        then (0, Some (cm_volume_id e, cm_needle_id e))
        else if tracked \<and> \<not> is_stripe (pi_placement pi) \<and> pi_volume_id pi \<noteq> 0 \<and> pi_file_key pi \<noteq> 0
        then (0, Some (pi_volume_id pi, pi_file_key pi + chunk_idx))
        else powerfs_locate_chunk pi offset)"


section \<open>Striping\<close>

text \<open>The RAID 0 map of the chunk number \<open>c\<close>: the volume it is on and its number there, for \<open>n\<close>
  volumes and \<open>K\<close> chunks per stripe unit.\<close>

definition stripe_vol :: "nat \<Rightarrow> nat \<Rightarrow> nat \<Rightarrow> nat \<Rightarrow> nat" where
  "stripe_vol start n K c = (start + c div K mod n) mod n"

definition stripe_rank :: "nat \<Rightarrow> nat \<Rightarrow> nat \<Rightarrow> nat" where
  "stripe_rank n K c = c div K div n * K + c mod K"

text \<open>A striped inode whose arrays agree and whose stripe unit is a whole number of chunks.\<close>

definition stripe_wf :: "finode \<Rightarrow> bool" where
  "stripe_wf pi \<longleftrightarrow> is_stripe (pi_placement pi) \<and> pi_volume_ids pi \<noteq> [] \<and>
     length (pi_volume_ids pi) < 2 ^ 32 \<and> distinct (pi_volume_ids pi) \<and>
     unat (effective_chunk_size pi) dvd unat (pi_stripe_size pi) \<and>
     (case pi_stripe_keys pi of None \<Rightarrow> True | Some keys \<Rightarrow> length keys = length (pi_volume_ids pi))"

definition stripe_base :: "finode \<Rightarrow> nat \<Rightarrow> u64" where
  "stripe_base pi v = (case pi_stripe_keys pi of Some keys \<Rightarrow> keys ! v | None \<Rightarrow> pi_file_key pi)"

definition units :: "finode \<Rightarrow> nat" where
  "units pi = (if pi_stripe_size pi \<noteq> 0 then unat (pi_stripe_size pi) div unat (effective_chunk_size pi) else 1)"

lemma stripe_inj:
  assumes K: "0 < K" and n: "0 < n"
    and vol: "stripe_vol s n K c = stripe_vol s n K d" and rank: "stripe_rank n K c = stripe_rank n K d"
  shows "c = d"
proof -
  have m: "c div K mod n = d div K mod n"
    by (rule mod_add_inj [OF vol [unfolded stripe_vol_def]]) (use n in auto)
  have "c mod K = d mod K"
    using arg_cong [OF rank [unfolded stripe_rank_def], of "\<lambda>x. x mod K"] by simp
  moreover have "c div K div n = d div K div n"
    using arg_cong [OF rank [unfolded stripe_rank_def], of "\<lambda>x. x div K"] K by simp
  ultimately show ?thesis
    using m by (metis div_mult_mod_eq)
qed

lemma stripe_rank_le: "stripe_rank n K c \<le> c"
proof -
  have "c div K div n * K \<le> c div K * K" by (simp add: div_le_dividend)
  then show ?thesis unfolding stripe_rank_def using div_mult_mod_eq [of c K] by linarith
qed

lemma stripe_word:
  fixes q r k :: u64
  assumes n: "0 < n" "n < 2 ^ 32" and q: "unat q = c div K" and r: "unat r = c mod K" and k: "unat k = K"
  shows stripe_word_vol: "unat ((ucast (s :: u32) + q mod of_nat n) mod of_nat n) = stripe_vol (unat s) n K c"
    and stripe_word_rank: "q div of_nat n * k + r = of_nat (stripe_rank n K c)"
proof -
  have un: "unat (of_nat n :: u64) = n" using n by (intro unat_of_nat_small) simp
  have rk: "unat (q mod of_nat n) = c div K mod n" by (simp add: unat_mod q un)
  define m where "m = c div K mod n"
  have "m < n" using n by (simp add: m_def)
  then have "unat (ucast s :: u64) + unat (q mod of_nat n) < 2 ^ LENGTH(64)"
    unfolding rk m_def [symmetric] using unat_u32_less [of s] n by simp
  then have "unat ((ucast s :: u64) + q mod of_nat n) = unat s + c div K mod n"
    using unat_add_lem rk unat_ucast_u32_u64 [of s] by (metis (no_types, lifting))
  then show "unat ((ucast s + q mod of_nat n) mod of_nat n) = stripe_vol (unat s) n K c"
    by (simp add: unat_mod un stripe_vol_def)
  have w: "w = of_nat i" if "unat w = i" for w :: u64 and i using that by auto
  have "q div of_nat n = of_nat (c div K div n)"
    by (rule w) (subst unat_div, simp only: q un)
  then show "q div of_nat n * k + r = of_nat (stripe_rank n K c)"
    using w [OF r] w [OF k] by (simp add: stripe_rank_def)
qed

lemma effective_pos: "0 < unat (effective_chunk_size pi)"
proof -
  have "unat (ucast (pi_chunk_size pi) :: u64) = unat (pi_chunk_size pi)"
    by simp
  then have "(ucast (pi_chunk_size pi) :: u64) = 0 \<longleftrightarrow> pi_chunk_size pi = 0"
    by (metis unat_eq_zero)
  then have "effective_chunk_size pi \<noteq> 0"
    unfolding effective_chunk_size_def by simp
  then show ?thesis by (simp add: unat_gt_0)
qed

lemma units_pos:
  assumes "stripe_wf pi"
  shows "0 < units pi"
proof (cases "pi_stripe_size pi = 0")
  case False
  then have "unat (effective_chunk_size pi) \<le> unat (pi_stripe_size pi)"
    using assms by (intro dvd_imp_le) (auto simp: stripe_wf_def unat_gt_0)
  then show ?thesis
    using False effective_pos [of pi] by (simp add: units_def div_greater_zero_iff)
qed (simp add: units_def)

lemma locate_stripe:
  fixes off :: u64
  assumes wf: "stripe_wf pi"
  defines "n \<equiv> length (pi_volume_ids pi)" and "c \<equiv> unat off div unat (effective_chunk_size pi)"
    and "s \<equiv> unat (pi_start_volume_idx pi)"
  shows "powerfs_locate_chunk pi off =
    (0, Some (pi_volume_ids pi ! stripe_vol s n (units pi) c,
              stripe_base pi (stripe_vol s n (units pi) c) + of_nat (stripe_rank n (units pi) c)))"
proof -
  define cs where "cs = effective_chunk_size pi"
  define S where "S = (if pi_stripe_size pi \<noteq> 0 then pi_stripe_size pi else cs)"
  define K where "K = units pi"
  have cs: "0 < unat cs" unfolding cs_def by (rule effective_pos)
  have n: "0 < n" "n < 2 ^ 32" using wf by (auto simp: stripe_wf_def n_def)
  have S: "unat S = unat cs * K"
    using wf cs by (auto simp: S_def K_def units_def cs_def stripe_wf_def)
  have idx: "unat (off div S) = c div K" "unat (off mod S div cs) = c mod K" "unat (S div cs) = K"
    using S cs by (simp_all add: unat_div unat_mod div_mult2_eq mod_mult2_eq c_def cs_def [symmetric])
  have K0: "0 < K" unfolding K_def by (rule units_pos [OF wf])
  note w = stripe_word_vol [OF n idx, of "pi_start_volume_idx pi", folded s_def] stripe_word_rank [OF n idx]
  have nz: "S div cs \<noteq> 0" using idx(3) K0 by auto
  have pl: "pi_placement pi \<noteq> PLACEMENT_INLINE" "is_stripe (pi_placement pi)" "pi_volume_ids pi \<noteq> []"
    using wf by (auto simp: stripe_wf_def)
  show ?thesis
    unfolding powerfs_locate_chunk_def Let_def cs_def [symmetric] n_def [symmetric] K_def [symmetric]
      stripe_base_def
    unfolding S_def [symmetric]
    using pl nz w by (simp split: option.split)
qed

lemma stripe_vol_less: "0 < n \<Longrightarrow> stripe_vol s n K c < n"
  by (simp add: stripe_vol_def)

lemma stripe_rank_bound: "stripe_rank n K (unat (off :: u64) div d) < 2 ^ 64"
proof -
  have "stripe_rank n K (unat off div d) \<le> unat off"
    by (rule order_trans [OF stripe_rank_le]) (rule div_le_dividend)
  moreover have "unat off < 2 ^ LENGTH(64)" by (rule unsigned_less)
  ultimately show ?thesis by simp
qed

text \<open>C12: In a well-formed striped inode two file offsets are located at the same needle exactly when
  they are in the same chunk. No two chunks of a file share a needle of a volume, for any start volume,
  number of volumes and base needles, and also where the 64 bit needle numbers wrap around.\<close>

theorem stripe_locate_injective:
  assumes wf: "stripe_wf pi"
  shows "powerfs_locate_chunk pi off1 = powerfs_locate_chunk pi off2 \<longleftrightarrow>
    off1 div effective_chunk_size pi = off2 div effective_chunk_size pi"
proof -
  define n where "n = length (pi_volume_ids pi)"
  define c where "c off = unat off div unat (effective_chunk_size pi)" for off :: u64
  define v where "v off = stripe_vol (unat (pi_start_volume_idx pi)) n (units pi) (c off)" for off
  define r where "r off = stripe_rank n (units pi) (c off)" for off
  have n: "0 < n" and dist: "distinct (pi_volume_ids pi)" using wf by (auto simp: stripe_wf_def n_def)
  have loc: "powerfs_locate_chunk pi off =
      (0, Some (pi_volume_ids pi ! v off, stripe_base pi (v off) + of_nat (r off)))" for off
    unfolding v_def r_def c_def n_def by (rule locate_stripe [OF wf])
  have vn: "v off < length (pi_volume_ids pi)" for off
    unfolding v_def n_def [symmetric] by (rule stripe_vol_less [OF n])
  have r64: "r off < 2 ^ 64" for off unfolding r_def c_def by (rule stripe_rank_bound)
  have "powerfs_locate_chunk pi off1 = powerfs_locate_chunk pi off2 \<longleftrightarrow> v off1 = v off2 \<and> r off1 = r off2"
  proof
    assume "powerfs_locate_chunk pi off1 = powerfs_locate_chunk pi off2"
    then have vid: "pi_volume_ids pi ! v off1 = pi_volume_ids pi ! v off2"
      and nd: "stripe_base pi (v off1) + of_nat (r off1) = stripe_base pi (v off2) + of_nat (r off2)"
      unfolding loc by simp_all
    have vv: "v off1 = v off2" using vid vn dist nth_eq_iff_index_eq by blast
    then have "unat (of_nat (r off1) :: u64) = unat (of_nat (r off2) :: u64)" using nd by simp
    then show "v off1 = v off2 \<and> r off1 = r off2" using vv r64 by (simp add: unat_of_nat_small)
  qed (simp add: loc)
  also have "\<dots> \<longleftrightarrow> c off1 = c off2"
    unfolding v_def r_def using stripe_inj [OF units_pos [OF wf] n] by metis
  also have "\<dots> \<longleftrightarrow> off1 div effective_chunk_size pi = off2 div effective_chunk_size pi"
    unfolding c_def by (simp add: word_unat_eq_iff unat_div)
  finally show ?thesis .
qed

text \<open>A file striped over three volumes in units of two chunks, starting at the second volume.\<close>

definition sample_inode :: finode where
  "sample_inode = \<lparr>pi_volume_id = 0, pi_file_key = 0, pi_placement = PLACEMENT_STRIPE, pi_reliability = 0,
     pi_reliability_state = 0, pi_chunk_size = 0, pi_inline_data = None, pi_inline_len = 0,
     pi_inline_max_size = 0, pi_inline_dirty = False, pi_stripe_size = 0x200000, pi_stripe_count = 3,
     pi_start_volume_idx = 1, pi_volume_ids = [11, 22, 33], pi_stripe_keys = Some [100, 200, 300],
     pi_chunks = [], pi_replica_chunks = [], pi_ec_data = 0, pi_ec_parity = 0, pi_ec_chunks = [],
     pi_dedup_chunks = []\<rparr>"

lemma sample_inode_wf: "stripe_wf sample_inode"
  by (simp add: stripe_wf_def sample_inode_def effective_chunk_size_def dvd_def)

theorem stripe_locate_injective_witness:
  "stripe_wf sample_inode \<and>
   powerfs_locate_chunk sample_inode 0x650000 = (0, Some (22, 202)) \<and>
   powerfs_locate_chunk sample_inode 0x6FFFFF = powerfs_locate_chunk sample_inode 0x650000 \<and>
   powerfs_locate_chunk sample_inode 0x50000 \<noteq> powerfs_locate_chunk sample_inode 0x650000"
  using sample_inode_wf stripe_locate_injective [OF sample_inode_wf, of "0x6FFFFF" "0x650000"]
    stripe_locate_injective [OF sample_inode_wf, of "0x50000" "0x650000"]
  by (simp add: sample_inode_def effective_chunk_size_def powerfs_locate_chunk_def Let_def)

text \<open>The condition on the stripe unit is needed: with units of one and a half chunks the third and
  the fourth megabyte of a file share a needle.\<close>

lemma stripe_misaligned_collision:
  defines "pi \<equiv> sample_inode\<lparr>pi_stripe_size := 0x180000, pi_volume_ids := [11], pi_stripe_keys := Some [100]\<rparr>"
  shows "powerfs_locate_chunk pi 0x280000 = powerfs_locate_chunk pi 0x300000"
    "0x280000 div effective_chunk_size pi \<noteq> 0x300000 div effective_chunk_size pi"
  by (simp_all add: pi_def sample_inode_def effective_chunk_size_def powerfs_locate_chunk_def Let_def)


section \<open>Applying a layout\<close>

text \<open>The fields the stages of the operation leave alone.\<close>

lemma apply_basic_sel [simp]:
  "pi_placement (apply_basic l pi) = (if fl_has_placement l then fl_placement l else pi_placement pi)"
  "pi_reliability (apply_basic l pi) = (if fl_has_reliability l then fl_reliability l else pi_reliability pi)"
  "pi_chunk_size (apply_basic l pi) = (if fl_chunk_size l > 0 then fl_chunk_size l else pi_chunk_size pi)"
  "pi_inline_data (apply_basic l pi) = pi_inline_data pi"
  "pi_inline_len (apply_basic l pi) = pi_inline_len pi"
  "pi_inline_dirty (apply_basic l pi) = pi_inline_dirty pi"
  "pi_volume_id (apply_basic l pi) = pi_volume_id pi"
  "pi_file_key (apply_basic l pi) = pi_file_key pi"
  "pi_volume_ids (apply_basic l pi) = pi_volume_ids pi"
  "pi_stripe_keys (apply_basic l pi) = pi_stripe_keys pi"
  "pi_stripe_size (apply_basic l pi) = pi_stripe_size pi"
  "pi_start_volume_idx (apply_basic l pi) = pi_start_volume_idx pi"
  "pi_chunks (apply_basic l pi) = pi_chunks pi"
  by (simp_all add: apply_basic_def Let_def)

lemma apply_inline_sel [simp]:
  "pi_placement (apply_inline l pi) = pi_placement pi"
  "pi_reliability (apply_inline l pi) = pi_reliability pi"
  "pi_chunk_size (apply_inline l pi) = pi_chunk_size pi"
  "pi_volume_id (apply_inline l pi) = pi_volume_id pi"
  "pi_file_key (apply_inline l pi) = pi_file_key pi"
  "pi_volume_ids (apply_inline l pi) = pi_volume_ids pi"
  "pi_stripe_keys (apply_inline l pi) = pi_stripe_keys pi"
  "pi_stripe_size (apply_inline l pi) = pi_stripe_size pi"
  "pi_start_volume_idx (apply_inline l pi) = pi_start_volume_idx pi"
  "pi_chunks (apply_inline l pi) = pi_chunks pi"
  by (simp_all add: apply_inline_def)

lemma apply_ec_sel [simp]:
  "pi_placement (apply_ec l pi) = pi_placement pi"
  "pi_reliability (apply_ec l pi) = pi_reliability pi"
  "pi_chunk_size (apply_ec l pi) = pi_chunk_size pi"
  "pi_inline_data (apply_ec l pi) = pi_inline_data pi"
  "pi_inline_len (apply_ec l pi) = pi_inline_len pi"
  "pi_inline_dirty (apply_ec l pi) = pi_inline_dirty pi"
  "pi_volume_id (apply_ec l pi) = pi_volume_id pi"
  "pi_file_key (apply_ec l pi) = pi_file_key pi"
  "pi_volume_ids (apply_ec l pi) = pi_volume_ids pi"
  "pi_stripe_keys (apply_ec l pi) = pi_stripe_keys pi"
  "pi_stripe_size (apply_ec l pi) = pi_stripe_size pi"
  "pi_start_volume_idx (apply_ec l pi) = pi_start_volume_idx pi"
  "pi_chunks (apply_ec l pi) = pi_chunks pi"
  by (simp_all add: apply_ec_def Let_def)

lemma apply_stripe_sel [simp]:
  "pi_placement (apply_stripe l pi) = pi_placement pi"
  "pi_reliability (apply_stripe l pi) = pi_reliability pi"
  "pi_chunk_size (apply_stripe l pi) = pi_chunk_size pi"
  "pi_inline_data (apply_stripe l pi) = pi_inline_data pi"
  "pi_inline_len (apply_stripe l pi) = pi_inline_len pi"
  "pi_inline_dirty (apply_stripe l pi) = pi_inline_dirty pi"
  "pi_volume_id (apply_stripe l pi) = pi_volume_id pi"
  "pi_file_key (apply_stripe l pi) = pi_file_key pi"
  by (simp_all add: apply_stripe_def)

lemma apply_chunks_sel [simp]:
  "pi_placement (apply_chunks alloc p l pi) = pi_placement pi"
  "pi_chunk_size (apply_chunks alloc p l pi) = pi_chunk_size pi"
  "pi_inline_data (apply_chunks alloc p l pi) = pi_inline_data pi"
  "pi_inline_len (apply_chunks alloc p l pi) = pi_inline_len pi"
  "pi_inline_dirty (apply_chunks alloc p l pi) = pi_inline_dirty pi"
  "pi_volume_id (apply_chunks alloc p l pi) = pi_volume_id pi"
  "pi_file_key (apply_chunks alloc p l pi) = pi_file_key pi"
  "pi_volume_ids (apply_chunks alloc p l pi) = pi_volume_ids pi"
  "pi_stripe_size (apply_chunks alloc p l pi) = pi_stripe_size pi"
  "pi_start_volume_idx (apply_chunks alloc p l pi) = pi_start_volume_idx pi"
  by (simp_all add: apply_chunks_def Let_def)

lemma preserve_stripe_sel:
  "preserve_stripe l (apply_inline l (apply_basic l pi)) =
     preserve_stripe l (pi\<lparr>pi_placement := if fl_has_placement l then fl_placement l else pi_placement pi\<rparr>)"
  by (simp add: preserve_stripe_def)

text \<open>The anchors agree on a base needle for each volume.\<close>

definition anchor_ok :: "nat \<Rightarrow> nat \<Rightarrow> nat \<Rightarrow> (nat \<Rightarrow> u64) \<Rightarrow> chunk_map \<Rightarrow> bool" where
  "anchor_ok s n K base cm \<longleftrightarrow>
    (let c = unat (cm_chunk_idx cm); v = stripe_vol s n K c
     in base v \<noteq> 0 \<and> cm_needle_id cm = base v + of_nat (stripe_rank n K c))"

lemma stripe_key_step_nat:
  assumes n: "0 < n" "n < 2 ^ 32" and k: "unat k = K"
  shows "stripe_key_step s (of_nat n) k cm keys =
    (let c = unat (cm_chunk_idx cm); v = stripe_vol (unat s) n K c
     in if keys ! v = 0 then keys[v := cm_needle_id cm - of_nat (stripe_rank n K c)] else keys)"
proof -
  have q: "unat ((ucast (cm_chunk_idx cm) :: u64) div k) = unat (cm_chunk_idx cm) div K"
    "unat ((ucast (cm_chunk_idx cm) :: u64) mod k) = unat (cm_chunk_idx cm) mod K"
    by (simp_all add: unat_div unat_mod k)
  show ?thesis
    unfolding stripe_key_step_def Let_def stripe_word_vol [OF n q k] stripe_word_rank [OF n q k] ..
qed

lemma stripe_keys_fold:
  assumes n: "0 < n" "n < 2 ^ 32" and k: "unat k = K"
    and cms: "\<forall>cm\<in>set cms. anchor_ok (unat s) n K base cm"
    and keys: "length keys = n" "\<forall>v<n. keys ! v = 0 \<or> keys ! v = base v"
  shows "length (fold (stripe_key_step s (of_nat n) k) cms keys) = n \<and>
    (\<forall>v<n. keys ! v = base v \<and> base v \<noteq> 0 \<or> v \<in> (\<lambda>cm. stripe_vol (unat s) n K (unat (cm_chunk_idx cm))) ` set cms \<longrightarrow>
       fold (stripe_key_step s (of_nat n) k) cms keys ! v = base v)"
  using cms keys
proof (induction cms arbitrary: keys)
  case Nil
  then show ?case by auto
next
  case (Cons cm cms)
  define w where "w = stripe_vol (unat s) n K (unat (cm_chunk_idx cm))"
  define keys' where "keys' = stripe_key_step s (of_nat n) k cm keys"
  have w: "w < n" unfolding w_def by (rule stripe_vol_less [OF n(1)])
  have ok: "base w \<noteq> 0" "cm_needle_id cm - of_nat (stripe_rank n K (unat (cm_chunk_idx cm))) = base w"
    using Cons.prems(1) by (simp_all add: anchor_ok_def Let_def w_def)
  have step: "keys' = (if keys ! w = 0 then keys[w := base w] else keys)"
    unfolding keys'_def stripe_key_step_nat [OF n k] Let_def w_def [symmetric] ok(2) ..
  have kw: "keys' ! w = base w" using step w Cons.prems(2,3) by auto
  have len: "length keys' = n" using step Cons.prems(2) by simp
  have all: "\<forall>v<n. keys' ! v = 0 \<or> keys' ! v = base v"
    using step w Cons.prems(2,3) by (auto simp: nth_list_update)
  have keep: "keys' ! v = base v" if "v < n" "keys ! v = base v" for v
    using that step w Cons.prems(2) by (auto simp: nth_list_update)
  have tl: "\<forall>cm\<in>set cms. anchor_ok (unat s) n K base cm" using Cons.prems(1) by simp
  have fold: "fold (stripe_key_step s (of_nat n) k) (cm # cms) keys = fold (stripe_key_step s (of_nat n) k) cms keys'"
    by (simp add: keys'_def)
  show ?case
    unfolding fold using Cons.IH [OF tl len all] kw ok(1) keep w_def by (simp add: image_iff)
qed

text \<open>C18: Applying a layout never loses what only the client knows. Uncommitted inline data keeps its
  placement, contents, length and dirty mark whatever the server reports; an inode with a volume or file
  key outside the inline placement never goes back to it; a striped inode with volumes never becomes
  flat or inline; and the volume and file key never change.\<close>

theorem apply_layout_keeps_local:
  assumes pi': "pi' = powerfs_apply_layout_to_inode alloc l pi"
  shows "(pi_placement pi = PLACEMENT_INLINE \<and> pi_inline_dirty pi \<longrightarrow>
      pi_placement pi' = PLACEMENT_INLINE \<and> pi_inline_dirty pi' \<and>
      pi_inline_data pi' = pi_inline_data pi \<and> pi_inline_len pi' = pi_inline_len pi) \<and>
    (pi_placement pi \<noteq> PLACEMENT_INLINE \<and> (pi_volume_id pi \<noteq> 0 \<or> pi_file_key pi \<noteq> 0) \<longrightarrow>
      pi_placement pi' \<noteq> PLACEMENT_INLINE) \<and>
    (is_stripe (pi_placement pi) \<and> pi_volume_ids pi \<noteq> [] \<longrightarrow>
      pi_placement pi' \<noteq> PLACEMENT_INLINE \<and> pi_placement pi' \<noteq> PLACEMENT_FLAT) \<and>
    pi_volume_id pi' = pi_volume_id pi \<and> pi_file_key pi' = pi_file_key pi"
  unfolding pi' powerfs_apply_layout_to_inode_def Let_def
  by (auto simp: layout_is_stale_def apply_inline_def)

theorem apply_layout_keeps_local_witness:
  "let dirty = sample_inode\<lparr>pi_placement := PLACEMENT_INLINE, pi_inline_data := Some [1, 2],
                            pi_inline_len := 2, pi_inline_dirty := True\<rparr>;
       flat = layout_zero\<lparr>fl_placement := PLACEMENT_FLAT, fl_has_placement := True\<rparr>
   in pi_inline_data (powerfs_apply_layout_to_inode (\<lambda>_. True) flat dirty) = Some [1, 2] \<and>
      pi_placement (powerfs_apply_layout_to_inode (\<lambda>_. True) flat sample_inode) \<noteq> PLACEMENT_FLAT"
  using apply_layout_keeps_local [OF refl, of "sample_inode\<lparr>pi_placement := PLACEMENT_INLINE,
      pi_inline_data := Some [1, 2], pi_inline_len := 2, pi_inline_dirty := True\<rparr>" "\<lambda>_. True"
      "layout_zero\<lparr>fl_placement := PLACEMENT_FLAT, fl_has_placement := True\<rparr>"]
    apply_layout_keeps_local [OF refl, of sample_inode "\<lambda>_. True"
      "layout_zero\<lparr>fl_placement := PLACEMENT_FLAT, fl_has_placement := True\<rparr>"]
  by (simp add: sample_inode_def)

text \<open>A layout of a striped file that replaces the stripe arrays of the inode.\<close>

definition installs_stripe :: "finode \<Rightarrow> file_layout \<Rightarrow> bool" where
  "installs_stripe pi l \<longleftrightarrow> \<not> layout_is_stale pi l \<and> fl_has_placement l \<and> is_stripe (fl_placement l) \<and>
     \<not> preserve_stripe l (pi\<lparr>pi_placement := fl_placement l\<rparr>)"

lemma installs_stripe_sel:
  fixes alloc :: "layout_alloc \<Rightarrow> bool"
  assumes "installs_stripe pi l"
  defines "pi' \<equiv> powerfs_apply_layout_to_inode alloc l pi"
  shows "pi_placement pi' = fl_placement l" "pi_volume_ids pi' = fl_volume_ids l"
    "pi_stripe_size pi' = fl_stripe_size l" "pi_start_volume_idx pi' = fl_start_volume_idx l"
    "fl_chunk_size l \<noteq> 0 \<Longrightarrow> pi_chunk_size pi' = fl_chunk_size l"
    "\<not> fl_has_ec_chunks l \<Longrightarrow> pi_stripe_keys pi' = pi_stripe_keys pi"
    "\<not> alloc L_keys \<Longrightarrow> pi_stripe_keys pi' = pi_stripe_keys pi"
  using assms(1) unfolding pi'_def installs_stripe_def
  by (auto simp: powerfs_apply_layout_to_inode_def preserve_stripe_sel apply_stripe_def apply_chunks_def
      Let_def word_gt_0)

lemma installs_stripe_keys:
  assumes inst: "installs_stripe pi l" and rel: "fl_has_reliability l" "fl_reliability l \<noteq> RELIABILITY_EC"
    and ec: "fl_has_ec_chunks l" and alloc: "alloc L_keys" and vids: "fl_volume_ids l \<noteq> []"
    and cs: "fl_chunk_size l = POWERFS_CHUNK_SIZE" and sz: "POWERFS_CHUNK_SIZE \<le> fl_stripe_size l"
  shows "pi_stripe_keys (powerfs_apply_layout_to_inode alloc l pi) =
    Some (fold (stripe_key_step (fl_start_volume_idx l) (of_nat (length (fl_volume_ids l)))
        (fl_stripe_size l div POWERFS_CHUNK_SIZE)) (fl_ec_chunks l) (replicate (length (fl_volume_ids l)) 0))"
proof -
  have nz: "fl_stripe_size l \<noteq> 0" using sz by auto
  have "unat (fl_stripe_size l div 0x100000) \<noteq> 0"
    using sz by (simp add: unat_div word_le_nat_alt div_eq_0_iff)
  then have "0 < fl_stripe_size l div 0x100000" by (metis unat_0 word_gt_0)
  then show ?thesis
    using assms nz unfolding installs_stripe_def
    by (auto simp: powerfs_apply_layout_to_inode_def preserve_stripe_sel apply_stripe_def apply_chunks_def Let_def)
qed

text \<open>C17: When the server installs a striped layout together with its anchors (one or more chunk
  references per volume, which agree on the base needle of the volume), the inode locates every chunk of
  a volume that has an anchor at that volume's base needle plus the number of the chunk on the volume.
  So it locates every anchor at the needle the server gave for it.\<close>

theorem apply_layout_rebuilds_keys:
  assumes inst: "installs_stripe pi l" and rel: "fl_has_reliability l" "fl_reliability l \<noteq> RELIABILITY_EC"
    and ec: "fl_has_ec_chunks l" and alloc: "alloc L_keys"
    and vids: "fl_volume_ids l \<noteq> []" "distinct (fl_volume_ids l)" "length (fl_volume_ids l) \<le> 256"
    and cs: "fl_chunk_size l = POWERFS_CHUNK_SIZE"
    and sz: "fl_stripe_size l \<noteq> 0" "0x100000 dvd unat (fl_stripe_size l)"
    and K: "K = unat (fl_stripe_size l) div 0x100000"
    and n: "n = length (fl_volume_ids l)" and s: "s = unat (fl_start_volume_idx l)"
    and anchors: "\<forall>cm\<in>set (fl_ec_chunks l). anchor_ok s n K base cm"
    and cm: "cm \<in> set (fl_ec_chunks l)"
    and v: "stripe_vol s n K (unat off div 0x100000) = v" "stripe_vol s n K (unat (cm_chunk_idx cm)) = v"
  shows "powerfs_locate_chunk (powerfs_apply_layout_to_inode alloc l pi) off =
    (0, Some (fl_volume_ids l ! v, base v + of_nat (stripe_rank n K (unat off div 0x100000))))"
proof -
  define pi' where "pi' = powerfs_apply_layout_to_inode alloc l pi"
  define keys where "keys = fold (stripe_key_step (fl_start_volume_idx l) (of_nat n)
      (fl_stripe_size l div POWERFS_CHUNK_SIZE)) (fl_ec_chunks l) (replicate n 0)"
  have n32: "0 < n" "n < 2 ^ 32" using n vids by auto
  have le: "POWERFS_CHUNK_SIZE \<le> fl_stripe_size l"
    using sz dvd_imp_le [OF sz(2)] by (simp add: word_le_nat_alt unat_gt_0)
  have keys: "pi_stripe_keys pi' = Some keys"
    unfolding keys_def pi'_def n by (rule installs_stripe_keys [where alloc = alloc, OF inst rel ec alloc vids(1) cs le])
  have k: "unat (fl_stripe_size l div POWERFS_CHUNK_SIZE) = K" by (simp add: K unat_div)
  have fold: "length keys = n \<and> (\<forall>v<n. v \<in> (\<lambda>cm. stripe_vol s n K (unat (cm_chunk_idx cm))) ` set (fl_ec_chunks l)
      \<longrightarrow> keys ! v = base v)"
    using stripe_keys_fold [OF n32 k anchors [unfolded s], of "replicate n 0"] unfolding keys_def s by auto
  note sel = installs_stripe_sel [OF inst, of alloc, folded pi'_def]
  have eff: "effective_chunk_size pi' = POWERFS_CHUNK_SIZE" "units pi' = K"
    using sel cs sz by (simp_all add: effective_chunk_size_def units_def K)
  have wf: "stripe_wf pi'"
    using inst sel vids sz fold keys n eff by (auto simp: stripe_wf_def installs_stripe_def)
  have vn: "v < n" using v(1) stripe_vol_less [OF n32(1)] by blast
  have "keys ! v = base v" using fold vn cm v(2) by blast
  then have "stripe_base pi' v = base v" by (simp add: stripe_base_def keys)
  then show ?thesis
    using locate_stripe [OF wf, of off] v sel(2,4) eff
    by (simp add: pi'_def [symmetric] n [symmetric] s [symmetric])
qed

text \<open>Two volumes, units of one chunk; the second anchor is the third chunk of the file.\<close>

definition sample_layout :: file_layout where
  "sample_layout = layout_zero\<lparr>fl_has_placement := True, fl_placement := PLACEMENT_STRIPE,
     fl_has_reliability := True, fl_chunk_size := POWERFS_CHUNK_SIZE, fl_stripe_size := POWERFS_CHUNK_SIZE,
     fl_volume_ids := [5, 6], fl_has_ec_chunks := True, fl_ec_chunks :=
       [\<lparr>cm_chunk_idx = 1, cm_needle_id = 70, cm_volume_id = 6, cm_crc32 = 0, cm_size = 0, cm_fp_xxh = 0,
         cm_fp_valid = False, cm_wp_gen = 0\<rparr>,
        \<lparr>cm_chunk_idx = 2, cm_needle_id = 41, cm_volume_id = 5, cm_crc32 = 0, cm_size = 0, cm_fp_xxh = 0,
         cm_fp_valid = False, cm_wp_gen = 0\<rparr>]\<rparr>"

theorem apply_layout_rebuilds_keys_witness:
  "powerfs_locate_chunk (powerfs_apply_layout_to_inode (\<lambda>_. True) sample_layout sample_inode) 0x400000 =
     (0, Some (5, 42))"
proof -
  have vids: "fl_volume_ids sample_layout = [5, 6]"
    and sz: "unat (fl_stripe_size sample_layout) = 0x100000"
    by (simp_all add: sample_layout_def)
  have "powerfs_locate_chunk (powerfs_apply_layout_to_inode (\<lambda>_. True) sample_layout sample_inode) 0x400000 =
      (0, Some (fl_volume_ids sample_layout ! 0,
        (if (0 :: nat) = 0 then 40 else 70) + of_nat (stripe_rank 2 1 (unat (0x400000 :: u64) div 0x100000))))"
    by (rule apply_layout_rebuilds_keys [where s = 0 and base = "\<lambda>v. if v = 0 then 40 else 70"
          and cm = "fl_ec_chunks sample_layout ! 1"])
      (simp_all add: vids sz, simp_all add: sample_layout_def sample_inode_def layout_zero_def
        installs_stripe_def layout_is_stale_def preserve_stripe_def anchor_ok_def stripe_vol_def
        stripe_rank_def)
  then show ?thesis by (simp add: vids stripe_rank_def)
qed

text \<open>A striped layout without anchors, or whose key array cannot be allocated, replaces the volumes
  but keeps the old base needles: where the new layout has more volumes than the old one, the inode is no
  longer well-formed and the key of a new volume is read beyond the end of the array.\<close>

theorem apply_layout_stale_keys:
  assumes inst: "installs_stripe pi l" and no_keys: "\<not> fl_has_ec_chunks l \<or> \<not> alloc L_keys"
    and old: "pi_stripe_keys pi = Some keys" and more: "length keys < length (fl_volume_ids l)"
  shows "\<not> stripe_wf (powerfs_apply_layout_to_inode alloc l pi) \<and>
    pi_stripe_keys (powerfs_apply_layout_to_inode alloc l pi) = Some keys \<and>
    length keys < length (pi_volume_ids (powerfs_apply_layout_to_inode alloc l pi))"
  using installs_stripe_sel(2,6,7) [OF inst, of alloc] no_keys old more by (auto simp: stripe_wf_def)

theorem apply_layout_stale_keys_witness:
  "stripe_wf sample_inode \<and>
   \<not> stripe_wf (powerfs_apply_layout_to_inode (\<lambda>_. True)
        (sample_layout\<lparr>fl_volume_ids := [5, 6, 7, 8], fl_has_ec_chunks := False\<rparr>) sample_inode)"
  using sample_inode_wf apply_layout_stale_keys [of sample_inode
      "sample_layout\<lparr>fl_volume_ids := [5, 6, 7, 8], fl_has_ec_chunks := False\<rparr>" "\<lambda>_. True" "[100, 200, 300]"]
  by (simp add: sample_layout_def sample_inode_def layout_zero_def installs_stripe_def layout_is_stale_def
      preserve_stripe_def)

end
