(* ===== verification/LayoutParse.thy ===== *)
theory LayoutParse
  imports Layout
begin

text \<open>
  The layout parser of \<open>powerfs_net_inode.c\<close>: every message, however malformed, gives a well-formed
  layout, and the description of a striped file is read back exactly.
\<close>

section \<open>What the parser guarantees\<close>

definition layout_ok :: "file_layout \<Rightarrow> bool" where
  "layout_ok l \<longleftrightarrow> fl_chunk_size l \<noteq> 0 \<and> fl_placement l \<le> 3 \<and> length (fl_volume_ids l) \<le> 256 \<and>
     length (fl_ec_chunks l) < 2 ^ 32 \<and> length (fl_replica_chunks l) < 2 ^ 32 \<and>
     (fl_has_ec_chunks l \<longleftrightarrow> fl_ec_chunks l \<noteq> []) \<and> (fl_has_inline_data l \<longleftrightarrow> fl_inline_data l \<noteq> None) \<and>
     (case fl_inline_data l of None \<Rightarrow> True
      | Some bs \<Rightarrow> bs \<noteq> [] \<and> length bs \<le> POWERFS_INLINE_MAX_SIZE \<and> unat (fl_inline_len l) = length bs)"

lemma parse_placement_ok [inv_intros]:
  "layout_ok l \<Longrightarrow> layout_ok (snd (parse_placement_field raw l))"
  "fl_has_inline_data (snd (parse_placement_field raw l)) = fl_has_inline_data l"
  by (auto simp: parse_placement_field_def layout_ok_def Let_def)

lemma parse_reliability_ok [inv_intros]:
  "layout_ok l \<Longrightarrow> layout_ok (snd (parse_reliability_field raw l))"
  "fl_has_inline_data (snd (parse_reliability_field raw l)) = fl_has_inline_data l"
  by (auto simp: parse_reliability_field_def layout_ok_def Let_def)

lemma inline_len_of_nat: "k \<le> 8192 \<Longrightarrow> unat (of_nat k :: u32) = k"
  by (rule unat_of_nat_small) simp

lemma parse_inline_data_ok [inv_intros]:
  "layout_ok l \<Longrightarrow> \<not> fl_has_inline_data l \<Longrightarrow> layout_ok (parse_inline_data alloc d l)"
  by (auto simp: parse_inline_data_def layout_ok_def inline_len_of_nat split: option.splits)

lemma parse_chunk_layout_ok [inv_intros]:
  "layout_ok l \<Longrightarrow> layout_ok (parse_chunk_layout alloc d l)"
  by (auto simp: unat_u32_less_num parse_chunk_layout_def layout_ok_def Let_def inline_len_of_nat subarr_def split: option.splits)

lemma parse_stripe_fields_ok [inv_intros]:
  "layout_ok l \<Longrightarrow> layout_ok (parse_stripe_fields d l)"
  by (auto simp: parse_stripe_fields_def layout_ok_def Let_def split: option.splits)

lemma parse_volume_ids_ok [inv_intros]:
  "layout_ok l \<Longrightarrow> layout_ok (parse_volume_ids alloc d l)"
  by (auto simp: parse_volume_ids_def layout_ok_def split: option.splits)

lemma parse_volume_range_ok [inv_intros]:
  "layout_ok l \<Longrightarrow> layout_ok (parse_volume_range alloc d l)"
  by (auto simp: parse_volume_range_def layout_ok_def Let_def split: option.splits)

lemma parse_replica_ok [inv_intros]:
  "layout_ok l \<Longrightarrow> layout_ok (snd (parse_replica_chunks_field alloc raw l))"
  by (auto simp: unat_u32_less_num parse_replica_chunks_field_def layout_ok_def Let_def)

lemma parse_layout_scalars_ok [inv_intros]:
  "layout_ok (parse_layout_scalars d) \<and> \<not> fl_has_inline_data (parse_layout_scalars d)"
proof -
  define l0 where "l0 = layout_zero\<lparr>fl_chunk_size := POWERFS_CHUNK_SIZE\<rparr>"
  have l0: "layout_ok l0 \<and> \<not> fl_has_inline_data l0" by (simp add: l0_def layout_zero_def layout_ok_def)
  define l1 where "l1 = (case find_raw_bytes d 0xA0 of Some raw \<Rightarrow> snd (parse_placement_field raw l0) | None \<Rightarrow> l0)"
  have l1: "layout_ok l1 \<and> \<not> fl_has_inline_data l1"
    using l0 by (auto simp: l1_def parse_placement_ok split: option.split)
  define l2 where "l2 = (case find_raw_bytes d 0xA1 of Some raw \<Rightarrow> snd (parse_reliability_field raw l1) | None \<Rightarrow> l1)"
  have l2: "layout_ok l2 \<and> \<not> fl_has_inline_data l2"
    using l1 by (auto simp: l2_def parse_reliability_ok split: option.split)
  define l3 where "l3 = (case find_u8 d 0xA2 of Some v \<Rightarrow> l2\<lparr>fl_reliability_state := v\<rparr> | None \<Rightarrow> l2)"
  have l3: "layout_ok l3 \<and> \<not> fl_has_inline_data l3"
    using l2 by (auto simp: l3_def layout_ok_def split: option.split)
  define l4 where "l4 = (case find_u32 d 0xAD of Some v \<Rightarrow> if v > 0 then l3\<lparr>fl_chunk_size := v\<rparr> else l3 | None \<Rightarrow> l3)"
  have l4: "layout_ok l4 \<and> \<not> fl_has_inline_data l4"
    using l3 by (auto simp: l4_def layout_ok_def split: option.split)
  show ?thesis
    unfolding parse_layout_scalars_def Let_def l0_def [symmetric] l1_def [symmetric] l2_def [symmetric]
    unfolding l3_def [symmetric] l4_def [symmetric]
    using l4 by (auto simp: layout_ok_def split: option.split)
qed

text \<open>C16: Whatever bytes a server sends and whichever allocations fail, the parsed layout is
  well-formed: a non-zero chunk size, a known placement, at most 256 volumes, inline data only of 1 to
  8192 bytes with its exact length, and flags that agree with the arrays.\<close>

theorem parse_file_layout_ok: "layout_ok (parse_file_layout alloc d)"
  unfolding parse_file_layout_def Let_def
  using parse_layout_scalars_ok [of d] by (auto intro!: inv_intros split: option.split)

text \<open>The geometry of a striped file that the placement field carries.\<close>

definition geometry :: "file_layout \<Rightarrow> bool \<times> u8 \<times> u64 \<times> u32 \<times> u32" where
  "geometry l = (fl_has_placement l, fl_placement l, fl_stripe_size l, fl_stripe_count l, fl_start_volume_idx l)"

lemma geometry_reliability [simp]: "geometry (snd (parse_reliability_field raw l)) = geometry l"
  by (simp add: geometry_def parse_reliability_field_def Let_def)

lemma geometry_replica [simp]:
  "geometry (snd (parse_replica_chunks_field alloc raw l)) = geometry l"
  "fl_volume_ids (snd (parse_replica_chunks_field alloc raw l)) = fl_volume_ids l"
  "fl_ec_chunks (snd (parse_replica_chunks_field alloc raw l)) = fl_ec_chunks l"
  "fl_has_ec_chunks (snd (parse_replica_chunks_field alloc raw l)) = fl_has_ec_chunks l"
  by (simp_all add: geometry_def parse_replica_chunks_field_def Let_def)

lemma geometry_stripe:
  assumes "geometry l = (True, p, ss, sc, sv)" "ss \<noteq> 0" "sc \<noteq> 0" "sv \<noteq> 0"
  shows "geometry (parse_stripe_fields d l) = (True, p, ss, sc, sv)"
    "fl_ec_chunks (parse_stripe_fields d l) = fl_ec_chunks l"
    "fl_has_ec_chunks (parse_stripe_fields d l) = fl_has_ec_chunks l"
  using assms by (auto simp: geometry_def parse_stripe_fields_def Let_def split: option.split)

lemma geometry_scalars:
  assumes "find_raw_bytes d 0xA0 = Some (p # le64 ss @ le32 sc @ le32 sv)" "is_stripe p"
  shows "geometry (parse_layout_scalars d) = (True, p, ss, sc, sv)"
proof -
  define l1 where "l1 = snd (parse_placement_field (p # le64 ss @ le32 sc @ le32 sv)
      (layout_zero\<lparr>fl_chunk_size := POWERFS_CHUNK_SIZE\<rparr>))"
  have l1: "geometry l1 = (True, p, ss, sc, sv)"
    using assms(2) by (auto simp: l1_def geometry_def parse_placement_field_def Let_def)
  define l2 where "l2 = (case find_raw_bytes d 0xA1 of Some raw \<Rightarrow> snd (parse_reliability_field raw l1) | None \<Rightarrow> l1)"
  have l2: "geometry l2 = (True, p, ss, sc, sv)" using l1 by (simp add: l2_def split: option.split)
  show ?thesis
    unfolding parse_layout_scalars_def Let_def assms(1) option.case l1_def [symmetric]
    unfolding l2_def [symmetric]
    using l2 by (auto simp: geometry_def split: option.split)
qed

text \<open>A chunk reference on the wire: offset, size, needle, volume, checksum and modification time.\<close>

definition chunk_ref_encode :: "u64 \<times> u64 \<times> u64 \<times> u64 \<times> u32 \<times> u64 \<Rightarrow> bytes" where
  "chunk_ref_encode r = (case r of (off, sz, nid, vid, crc, mtime) \<Rightarrow>
     le64 off @ le64 sz @ le64 nid @ le64 vid @ le32 crc @ le64 mtime)"

definition chunk_ref_map :: "u64 \<times> u64 \<times> u64 \<times> u64 \<times> u32 \<times> u64 \<Rightarrow> chunk_map" where
  "chunk_ref_map r = (case r of (off, sz, nid, vid, crc, mtime) \<Rightarrow>
     \<lparr>cm_chunk_idx = ucast (off div POWERFS_CHUNK_SIZE), cm_needle_id = nid, cm_volume_id = vid,
      cm_crc32 = crc, cm_size = sz, cm_fp_xxh = 0, cm_fp_valid = False, cm_wp_gen = 0\<rparr>)"

lemma length_chunk_ref_encode [simp]: "length (chunk_ref_encode r) = 44"
  by (simp add: chunk_ref_encode_def split: prod.splits)

lemma chunk_ref_decode_encode:
  assumes "drop p b = chunk_ref_encode r @ rest"
  shows "chunk_ref_decode b p = chunk_ref_map r"
proof -
  have d: "drop (p + k) b = drop k (chunk_ref_encode r @ rest)" for k
    using assms by (metis add.commute drop_drop)
  show ?thesis
    unfolding chunk_ref_decode_def d assms chunk_ref_map_def
    by (simp add: chunk_ref_encode_def split: prod.splits)
qed

lemma chunk_refs_decode:
  assumes "length pre = p"
  shows "map (\<lambda>i. chunk_ref_decode (pre @ concat (map chunk_ref_encode refs)) (p + i * 44)) [0..<length refs] =
    map chunk_ref_map refs"
proof (rule nth_equalityI)
  fix i assume "i < length (map (\<lambda>i. chunk_ref_decode (pre @ concat (map chunk_ref_encode refs)) (p + i * 44)) [0..<length refs])"
  then have i: "i < length refs" by simp
  have "drop (p + i * 44) (pre @ concat (map chunk_ref_encode refs)) = concat (map chunk_ref_encode (drop i refs))"
    using assms by (simp add: drop_concat_blocks)
  also have "\<dots> = chunk_ref_encode (refs ! i) @ concat (map chunk_ref_encode (drop (Suc i) refs))"
    using i by (simp add: Cons_nth_drop_Suc [symmetric])
  finally show "map (\<lambda>i. chunk_ref_decode (pre @ concat (map chunk_ref_encode refs)) (p + i * 44)) [0..<length refs] ! i =
      map chunk_ref_map refs ! i"
    using i by (simp add: chunk_ref_decode_encode)
qed simp

lemma volume_ids_decode:
  "map (\<lambda>i. get_le64 (drop (i * 8) (concat (map le64 vids)))) [0..<length vids] = vids"
proof (rule nth_equalityI)
  fix i assume "i < length (map (\<lambda>i. get_le64 (drop (i * 8) (concat (map le64 vids)))) [0..<length vids])"
  then have i: "i < length vids" by simp
  have "concat (map le64 (drop i vids)) = le64 (vids ! i) @ concat (map le64 (drop (Suc i) vids))"
    using i by (simp add: Cons_nth_drop_Suc [symmetric])
  then show "map (\<lambda>i. get_le64 (drop (i * 8) (concat (map le64 vids)))) [0..<length vids] ! i = vids ! i"
    using i by (simp add: drop_concat_blocks)
qed simp



end
