(* ===== verification/Rx.thy ===== *)
theory Rx
  imports Frame
begin

text \<open>
  The non-blocking receive path of \<open>powerfs_net_conn.c\<close>: a frame arrives in three parts (header, body,
  data) over any number of socket reads, and the scheduler thread drains all frames that are available.
  The filled part of a receive buffer is a list, its length is the counter \<open>rx_*_got\<close>. The socket is a
  parameter: \<open>recv s n\<close> is \<open>kernel_recvmsg\<close> with \<open>MSG_DONTWAIT\<close> for at most \<open>n\<close> bytes and returns the
  result code, the bytes it stored and the new socket state; \<open>has_rx s\<close> is \<open>transport->has_rx_data\<close>.
\<close>

abbreviation ECONNRESET :: int where "ECONNRESET \<equiv> 104"
abbreviation POWERFS_NET_MAX_FRAME :: nat where "POWERFS_NET_MAX_FRAME \<equiv> 4194304"
abbreviation POWERFS_NET_MAX_BODY :: nat where "POWERFS_NET_MAX_BODY \<equiv> 262144"
abbreviation POWERFS_NET_MAX_DATA :: nat where "POWERFS_NET_MAX_DATA \<equiv> 2097152"

record rx_conn =
  rx_sock :: bool
  rx_bufs :: bool
  rx_phase :: nat
  rx_hdr_buf :: bytes
  rx_body_buf :: bytes
  rx_data_buf :: bytes
  rx_body_total :: nat
  rx_data_total :: nat
  rx_cur_hdr :: frame_hdr

type_synonym 's recv_fn = "'s \<Rightarrow> nat \<Rightarrow> int \<times> bytes \<times> 's"

definition pfs_rx_reset_partial :: "rx_conn \<Rightarrow> rx_conn" where
  "pfs_rx_reset_partial c = c\<lparr>rx_hdr_buf := [], rx_body_buf := [], rx_data_buf := [], rx_body_total := 0,
     rx_data_total := 0, rx_phase := 0\<rparr>"

definition pfs_conn_alloc_rxbuffers :: "bool \<Rightarrow> bool \<Rightarrow> rx_conn \<Rightarrow> int \<times> rx_conn" where
  "pfs_conn_alloc_rxbuffers body_ok data_ok c =
    (if \<not> body_ok then (- ENOMEM, c\<lparr>rx_bufs := False\<rparr>)
     else if \<not> data_ok then (- ENOMEM, c\<lparr>rx_bufs := False\<rparr>)
     else (0, pfs_rx_reset_partial (c\<lparr>rx_bufs := True\<rparr>)))"

definition pfs_conn_free_rxbuffers :: "rx_conn \<Rightarrow> rx_conn" where
  "pfs_conn_free_rxbuffers c = pfs_rx_reset_partial (c\<lparr>rx_bufs := False\<rparr>)"

text \<open>One read and the tests that follow it, the same in the three phases.\<close>

definition rx_recv :: "'s recv_fn \<Rightarrow> 's \<Rightarrow> nat \<Rightarrow> int \<times> bytes \<times> 's" where
  "rx_recv recv s want =
    (case recv s want of (got, bs, s') \<Rightarrow>
       if got = 0 then (- ECONNRESET, [], s')
       else if got < 0 then (if got = - EAGAIN then - EAGAIN else got, [], s')
       else (0, bs, s'))"

definition rx_data_phase :: "'s recv_fn \<Rightarrow> rx_conn \<Rightarrow> 's \<Rightarrow> int \<times> rx_conn \<times> 's" where
  "rx_data_phase recv c s =
    (if rx_data_total c > 0 then
       case rx_recv recv s (rx_data_total c - length (rx_data_buf c)) of (r, bs, s') \<Rightarrow>
         if r \<noteq> 0 then (r, c, s')
         else let c = c\<lparr>rx_data_buf := rx_data_buf c @ bs\<rparr> in
         if length (rx_data_buf c) < rx_data_total c then (- EAGAIN, c, s')
         else (0, c\<lparr>rx_phase := 3\<rparr>, s')
     else (0, c\<lparr>rx_phase := 3\<rparr>, s))"

definition rx_body_phase :: "'s recv_fn \<Rightarrow> rx_conn \<Rightarrow> 's \<Rightarrow> int \<times> rx_conn \<times> 's" where
  "rx_body_phase recv c s =
    (if rx_body_total c > 0 then
       case rx_recv recv s (rx_body_total c - length (rx_body_buf c)) of (r, bs, s') \<Rightarrow>
         if r \<noteq> 0 then (r, c, s')
         else let c = c\<lparr>rx_body_buf := rx_body_buf c @ bs\<rparr> in
         if length (rx_body_buf c) < rx_body_total c then (- EAGAIN, c, s')
         else rx_data_phase recv (c\<lparr>rx_phase := 2\<rparr>) s'
     else rx_data_phase recv (c\<lparr>rx_phase := 2\<rparr>) s)"

text \<open>Decoding and checking a complete header.\<close>

definition rx_accept_hdr :: "rx_conn \<Rightarrow> int \<times> rx_conn" where
  "rx_accept_hdr c =
    (case powerfs_net_frame_hdr_decode (rx_hdr_buf c) POWERFS_NET_FRAME_HDR_SIZE of
       None \<Rightarrow> (- EINVAL, c)
     | Some h \<Rightarrow>
       let c = c\<lparr>rx_cur_hdr := h\<rparr> in
       if fh_data_len h < fh_body_len h then (- EPROTO, c)
       else if unat (fh_data_len h) > POWERFS_NET_MAX_FRAME then (- EPROTO, c)
       else let total = unat (fh_data_len h); body_sz = unat (fh_body_len h);
                c = c\<lparr>rx_body_total := body_sz, rx_data_total := total - body_sz\<rparr> in
       if rx_body_total c > POWERFS_NET_MAX_BODY \<or> rx_data_total c > POWERFS_NET_MAX_DATA then (- E2BIG, c)
       else (0, c\<lparr>rx_phase := 1\<rparr>))"

definition rx_hdr_phase :: "'s recv_fn \<Rightarrow> rx_conn \<Rightarrow> 's \<Rightarrow> int \<times> rx_conn \<times> 's" where
  "rx_hdr_phase recv c s =
    (case rx_recv recv s (POWERFS_NET_FRAME_HDR_SIZE - length (rx_hdr_buf c)) of (r, bs, s') \<Rightarrow>
       if r \<noteq> 0 then (r, c, s')
       else let c = c\<lparr>rx_hdr_buf := rx_hdr_buf c @ bs\<rparr> in
       if length (rx_hdr_buf c) < POWERFS_NET_FRAME_HDR_SIZE then (- EAGAIN, c, s')
       else case rx_accept_hdr c of (r, c) \<Rightarrow> if r \<noteq> 0 then (r, c, s') else rx_body_phase recv c s')"

definition pfs_rx_step :: "'s recv_fn \<Rightarrow> rx_conn \<Rightarrow> 's \<Rightarrow> int \<times> rx_conn \<times> 's" where
  "pfs_rx_step recv c s =
    (if \<not> rx_sock c then (- ENOTCONN, c, s)
     else if \<not> rx_bufs c then (- ENOMEM, c, s)
     else if rx_phase c = 0 then rx_hdr_phase recv c s
     else if rx_phase c = 1 then rx_body_phase recv c s
     else if rx_phase c = 2 then rx_data_phase recv c s
     else (0, c, s))"

text \<open>The scheduler loop. The flag of the result says that the disconnect work was queued; \<open>dispatch\<close>
  is what happens to a complete frame.\<close>

partial_function (option) pfs_process_receive ::
    "'s recv_fn \<Rightarrow> ('s \<Rightarrow> bool) \<Rightarrow> (rx_conn \<Rightarrow> 'd \<Rightarrow> 'd) \<Rightarrow> nat \<Rightarrow> rx_conn \<Rightarrow> 's \<Rightarrow> 'd \<Rightarrow>
     (rx_conn \<times> 's \<times> 'd \<times> bool) option" where
  "pfs_process_receive recv has_rx dispatch frames c s d =
    (case pfs_rx_step recv c s of (ret, c', s') \<Rightarrow>
       if ret = 0 then
         if frames + 1 \<ge> 64 then Some (pfs_rx_reset_partial c', s', dispatch c' d, False)
         else pfs_process_receive recv has_rx dispatch (frames + 1) (pfs_rx_reset_partial c') s' (dispatch c' d)
       else if ret = - EAGAIN then
         if has_rx s' then pfs_process_receive recv has_rx dispatch frames c' s' d
         else Some (c', s', d, False)
       else Some (pfs_rx_reset_partial c', s', d, True))"


section \<open>What a healthy socket promises\<close>

text \<open>\<open>content s\<close> is the unread part of the byte stream. A read returns a non-empty prefix of it of at
  most the requested length, or \<open>EAGAIN\<close>; it does return data when data is reported ready.\<close>

definition socket_ok :: "'s recv_fn \<Rightarrow> ('s \<Rightarrow> bytes) \<Rightarrow> ('s \<Rightarrow> bool) \<Rightarrow> bool" where
  "socket_ok recv content has_rx \<longleftrightarrow>
    (\<forall>s n got bs s'. 0 < n \<longrightarrow> recv s n = (got, bs, s') \<longrightarrow>
       (0 < got \<longrightarrow> bs \<noteq> [] \<and> length bs \<le> n \<and> content s = bs @ content s') \<and>
       (got \<le> 0 \<longrightarrow> got = - EAGAIN \<and> content s' = content s \<and> \<not> has_rx s))"

text \<open>A frame on the wire is its header bytes, body and data.\<close>

type_synonym frame = "bytes \<times> bytes \<times> bytes"

definition wire :: "frame \<Rightarrow> bytes" where
  "wire f = (case f of (hb, body, data) \<Rightarrow> hb @ body @ data)"

definition hdr_ok :: "bytes \<Rightarrow> frame_hdr \<Rightarrow> bool" where
  "hdr_ok hb h \<longleftrightarrow> length hb = POWERFS_NET_FRAME_HDR_SIZE \<and>
     powerfs_net_frame_hdr_decode hb POWERFS_NET_FRAME_HDR_SIZE = Some h \<and>
     fh_body_len h \<le> fh_data_len h \<and> unat (fh_data_len h) \<le> POWERFS_NET_MAX_FRAME \<and>
     unat (fh_body_len h) \<le> POWERFS_NET_MAX_BODY \<and>
     unat (fh_data_len h) - unat (fh_body_len h) \<le> POWERFS_NET_MAX_DATA"

definition frame_ok :: "frame \<Rightarrow> bool" where
  "frame_ok f \<longleftrightarrow> (case f of (hb, body, data) \<Rightarrow> \<exists>h. hdr_ok hb h \<and>
     length body = unat (fh_body_len h) \<and> length data = unat (fh_data_len h) - unat (fh_body_len h))"

definition frame_of :: "rx_conn \<Rightarrow> frame" where
  "frame_of c = (rx_hdr_buf c, rx_body_buf c, rx_data_buf c)"

definition collect :: "rx_conn \<Rightarrow> frame list \<Rightarrow> frame list" where
  "collect c fs = fs @ [frame_of c]"

text \<open>The received part of the current frame and the states a connection is in between two steps.\<close>

abbreviation partial_of :: "rx_conn \<Rightarrow> bytes" where
  "partial_of c \<equiv> wire (frame_of c)"

definition hdr_done :: "rx_conn \<Rightarrow> bool" where
  "hdr_done c \<longleftrightarrow> hdr_ok (rx_hdr_buf c) (rx_cur_hdr c) \<and> rx_body_total c = unat (fh_body_len (rx_cur_hdr c)) \<and>
     rx_data_total c = unat (fh_data_len (rx_cur_hdr c)) - unat (fh_body_len (rx_cur_hdr c))"

definition rx_ok :: "rx_conn \<Rightarrow> bool" where
  "rx_ok c \<longleftrightarrow> rx_sock c \<and> rx_bufs c \<and>
    (rx_phase c = 0 \<and> length (rx_hdr_buf c) < POWERFS_NET_FRAME_HDR_SIZE \<and> rx_body_buf c = [] \<and> rx_data_buf c = [] \<or>
     rx_phase c = 1 \<and> hdr_done c \<and> length (rx_body_buf c) < rx_body_total c \<and> rx_data_buf c = [] \<or>
     rx_phase c = 2 \<and> hdr_done c \<and> length (rx_body_buf c) = rx_body_total c \<and> length (rx_data_buf c) < rx_data_total c)"

text \<open>What one phase achieves: it consumes a prefix of the stream into the buffers, and ends with a
  complete frame, or in a resumable state after some progress if data was ready.\<close>

definition phase_post ::
    "('s \<Rightarrow> bytes) \<Rightarrow> ('s \<Rightarrow> bool) \<Rightarrow> bytes \<Rightarrow> bytes \<Rightarrow> bool \<Rightarrow> int \<times> rx_conn \<times> 's \<Rightarrow> bool" where
  "phase_post content has_rx part unread ready res \<longleftrightarrow> (case res of (ret, c', s') \<Rightarrow>
     rx_sock c' \<and> rx_bufs c' \<and> part @ unread = partial_of c' @ content s' \<and> length (content s') \<le> length unread \<and>
     (ready \<longrightarrow> length (content s') < length unread) \<and>
     (ret = 0 \<and> frame_ok (frame_of c') \<or> ret = - EAGAIN \<and> rx_ok c'))"

lemma rx_recv_ok:
  assumes "socket_ok recv content has_rx" "0 < n" "rx_recv recv s n = (r, bs, s')"
  shows "r = 0 \<and> bs \<noteq> [] \<and> length bs \<le> n \<and> content s = bs @ content s' \<or>
    r = - EAGAIN \<and> bs = [] \<and> content s' = content s \<and> \<not> has_rx s"
proof -
  obtain got bs0 s0 where r: "recv s n = (got, bs0, s0)" by (cases "recv s n")
  have "(0 < got \<longrightarrow> bs0 \<noteq> [] \<and> length bs0 \<le> n \<and> content s = bs0 @ content s0) \<and>
      (got \<le> 0 \<longrightarrow> got = - EAGAIN \<and> content s0 = content s \<and> \<not> has_rx s)"
    using assms(1,2) r unfolding socket_ok_def by blast
  then show ?thesis using assms(3) r by (auto simp: rx_recv_def split: if_splits)
qed

lemma rx_data_phase_post:
  assumes sock: "socket_ok recv content has_rx"
    and c: "rx_sock c" "rx_bufs c" "rx_phase c = 2" "hdr_done c" "length (rx_body_buf c) = rx_body_total c"
      "length (rx_data_buf c) < rx_data_total c \<or> rx_data_total c = 0 \<and> rx_data_buf c = []"
    and ready: "ready \<longrightarrow> has_rx s \<and> 0 < rx_data_total c"
  shows "phase_post content has_rx (partial_of c) (content s) ready (rx_data_phase recv c s)"
proof (cases "rx_data_total c > 0")
  case False
  then show ?thesis using c ready
    by (auto simp: rx_data_phase_def phase_post_def frame_of_def frame_ok_def hdr_done_def)
next
  case True
  define n where "n = rx_data_total c - length (rx_data_buf c)"
  obtain r bs s' where r: "rx_recv recv s n = (r, bs, s')" by (cases "rx_recv recv s n")
  have "0 < n" using True c(6) by (auto simp: n_def)
  note ok = rx_recv_ok [OF sock this r]
  show ?thesis using ok c ready True unfolding rx_data_phase_def n_def [symmetric] r
    by (auto simp: n_def phase_post_def frame_of_def frame_ok_def hdr_done_def wire_def rx_ok_def Let_def)
qed

lemma phase_post_step:
  assumes "phase_post content has_rx part' unread' False res" "part @ unread = part' @ unread'"
    "length unread' \<le> length unread" "ready \<longrightarrow> length unread' < length unread"
  shows "phase_post content has_rx part unread ready res"
  using assms by (auto simp: phase_post_def split: prod.splits)

lemma rx_body_phase_post:
  assumes sock: "socket_ok recv content has_rx"
    and c: "rx_sock c" "rx_bufs c" "rx_phase c = 1" "hdr_done c" "rx_data_buf c = []"
      "length (rx_body_buf c) < rx_body_total c \<or> rx_body_total c = 0 \<and> rx_body_buf c = []"
    and ready: "ready \<longrightarrow> has_rx s \<and> 0 < rx_body_total c"
  shows "phase_post content has_rx (partial_of c) (content s) ready (rx_body_phase recv c s)"
proof (cases "rx_body_total c > 0")
  case False
  have "phase_post content has_rx (partial_of (c\<lparr>rx_phase := 2\<rparr>)) (content s) False
      (rx_data_phase recv (c\<lparr>rx_phase := 2\<rparr>) s)"
    by (rule rx_data_phase_post [OF sock]) (use c False in \<open>auto simp: hdr_done_def\<close>)
  then show ?thesis using False ready by (simp add: rx_body_phase_def frame_of_def)
next
  case True
  define n where "n = rx_body_total c - length (rx_body_buf c)"
  obtain r bs s' where r: "rx_recv recv s n = (r, bs, s')" by (cases "rx_recv recv s n")
  have "0 < n" using True c(6) by (auto simp: n_def)
  note ok = rx_recv_ok [OF sock this r]
  define c1 where "c1 = c\<lparr>rx_body_buf := rx_body_buf c @ bs\<rparr>"
  show ?thesis
  proof (cases "r = 0 \<and> length (rx_body_buf c1) = rx_body_total c")
    case True
    then have full: "length (rx_body_buf c) + length bs = rx_body_total c" by (simp add: c1_def)
    have rec: "content s = bs @ content s'" "bs \<noteq> []" using ok True by auto
    have "phase_post content has_rx (partial_of (c1\<lparr>rx_phase := 2\<rparr>)) (content s') False
        (rx_data_phase recv (c1\<lparr>rx_phase := 2\<rparr>) s')"
      by (rule rx_data_phase_post [OF sock]) (use c full in \<open>auto simp: hdr_done_def c1_def\<close>)
    then have "phase_post content has_rx (partial_of c) (content s) ready
        (rx_data_phase recv (c1\<lparr>rx_phase := 2\<rparr>) s')"
      by (rule phase_post_step) (use rec c(5) in \<open>auto simp: c1_def frame_of_def wire_def\<close>)
    moreover have "rx_body_phase recv c s = rx_data_phase recv (c1\<lparr>rx_phase := 2\<rparr>) s'"
      unfolding rx_body_phase_def n_def [symmetric] r
      using True \<open>rx_body_total c > 0\<close> by (simp add: Let_def c1_def)
    ultimately show ?thesis by (simp only:)
  next
    case False
    have short: "length (rx_body_buf c1) < rx_body_total c" if "r = 0"
      using ok False that \<open>0 < n\<close> by (auto simp: c1_def n_def)
    have "rx_body_phase recv c s = (- EAGAIN, if r = 0 then c1 else c, s')"
      unfolding rx_body_phase_def n_def [symmetric] r
      using ok short \<open>rx_body_total c > 0\<close> by (auto simp: Let_def c1_def)
    then show ?thesis using ok c short ready \<open>rx_body_total c > 0\<close>
      by (auto simp: phase_post_def frame_of_def hdr_done_def wire_def rx_ok_def c1_def)
  qed
qed

lemma rx_accept_hdr_ok:
  assumes "length (rx_hdr_buf c) = POWERFS_NET_FRAME_HDR_SIZE"
  obtains h where "hdr_ok (rx_hdr_buf c) h" "rx_accept_hdr c =
      (0, c\<lparr>rx_cur_hdr := h, rx_body_total := unat (fh_body_len h),
             rx_data_total := unat (fh_data_len h) - unat (fh_body_len h), rx_phase := 1\<rparr>)"
  | r c' where "\<nexists>h. hdr_ok (rx_hdr_buf c) h" "rx_accept_hdr c = (r, c')" "r \<noteq> 0" "r \<noteq> - EAGAIN"
proof (cases "\<exists>h. hdr_ok (rx_hdr_buf c) h")
  case True
  then obtain h where h: "hdr_ok (rx_hdr_buf c) h" by blast
  then have "rx_accept_hdr c =
      (0, c\<lparr>rx_cur_hdr := h, rx_body_total := unat (fh_body_len h),
             rx_data_total := unat (fh_data_len h) - unat (fh_body_len h), rx_phase := 1\<rparr>)"
    by (auto simp: rx_accept_hdr_def hdr_ok_def Let_def not_less)
  then show thesis using h that(1) by blast
next
  case False
  obtain r c' where r: "rx_accept_hdr c = (r, c')" by (cases "rx_accept_hdr c")
  have "r \<noteq> 0 \<and> r \<noteq> - EAGAIN"
    using r False assms
    by (auto simp: rx_accept_hdr_def hdr_ok_def Let_def not_less split: option.splits if_splits)
  then show thesis using r False that(2) by blast
qed

definition rejects :: "bytes \<Rightarrow> int \<times> rx_conn \<times> 's \<Rightarrow> bool" where
  "rejects input res \<longleftrightarrow> fst res \<noteq> 0 \<and> fst res \<noteq> - EAGAIN \<and>
     POWERFS_NET_FRAME_HDR_SIZE \<le> length input \<and> (\<nexists>h. hdr_ok (take POWERFS_NET_FRAME_HDR_SIZE input) h)"

lemma rx_hdr_phase_post:
  assumes sock: "socket_ok recv content has_rx"
    and c: "rx_sock c" "rx_bufs c" "rx_phase c = 0" "length (rx_hdr_buf c) < POWERFS_NET_FRAME_HDR_SIZE"
      "rx_body_buf c = []" "rx_data_buf c = []"
  shows "phase_post content has_rx (partial_of c) (content s) (has_rx s) (rx_hdr_phase recv c s) \<or>
    rejects (partial_of c @ content s) (rx_hdr_phase recv c s)"
proof -
  define n where "n = POWERFS_NET_FRAME_HDR_SIZE - length (rx_hdr_buf c)"
  obtain r bs s' where r: "rx_recv recv s n = (r, bs, s')" by (cases "rx_recv recv s n")
  have "0 < n" using c(4) by (auto simp: n_def)
  note ok = rx_recv_ok [OF sock this r]
  define c1 where "c1 = c\<lparr>rx_hdr_buf := rx_hdr_buf c @ bs\<rparr>"
  show ?thesis
  proof (cases "r = 0 \<and> length (rx_hdr_buf c1) = POWERFS_NET_FRAME_HDR_SIZE")
    case True
    then have len: "length (rx_hdr_buf c1) = POWERFS_NET_FRAME_HDR_SIZE" by simp
    have rec: "content s = bs @ content s'" "bs \<noteq> []" using ok True by auto
    have run: "rx_hdr_phase recv c s = (case rx_accept_hdr c1 of (r, c) \<Rightarrow> if r \<noteq> 0 then (r, c, s') else rx_body_phase recv c s')"
      using True unfolding rx_hdr_phase_def n_def [symmetric] r by (simp add: Let_def c1_def)
    from len show ?thesis
    proof (cases rule: rx_accept_hdr_ok)
      case (1 h)
      define c2 where "c2 = c1\<lparr>rx_cur_hdr := h, rx_body_total := unat (fh_body_len h),
             rx_data_total := unat (fh_data_len h) - unat (fh_body_len h), rx_phase := 1\<rparr>"
      have "phase_post content has_rx (partial_of c2) (content s') False (rx_body_phase recv c2 s')"
        by (rule rx_body_phase_post [OF sock]) (use c 1(1) in \<open>auto simp: c2_def c1_def hdr_done_def\<close>)
      then have "phase_post content has_rx (partial_of c) (content s) (has_rx s) (rx_body_phase recv c2 s')"
        by (rule phase_post_step) (use rec c(5,6) in \<open>auto simp: c2_def c1_def frame_of_def wire_def\<close>)
      then show ?thesis unfolding run 1(2) c2_def [symmetric] by simp
    next
      case (2 r' c')
      have "take POWERFS_NET_FRAME_HDR_SIZE (partial_of c @ content s) = rx_hdr_buf c1"
        using len rec c(5,6) by (simp add: c1_def frame_of_def wire_def)
      then have "rejects (partial_of c @ content s) (rx_hdr_phase recv c s)"
        using 2 len rec unfolding run rejects_def by (auto simp: c1_def frame_of_def wire_def)
      then show ?thesis ..
    qed
  next
    case False
    have short: "length (rx_hdr_buf c1) < POWERFS_NET_FRAME_HDR_SIZE" if "r = 0"
      using ok False that \<open>0 < n\<close> by (auto simp: c1_def n_def)
    have "rx_hdr_phase recv c s = (- EAGAIN, if r = 0 then c1 else c, s')"
      unfolding rx_hdr_phase_def n_def [symmetric] r
      using ok short by (auto simp: Let_def c1_def)
    then show ?thesis using ok c short
      by (auto simp: phase_post_def frame_of_def wire_def rx_ok_def c1_def)
  qed
qed

lemma pfs_rx_step_post:
  assumes sock: "socket_ok recv content has_rx" and c: "rx_ok c"
  shows "phase_post content has_rx (partial_of c) (content s) (has_rx s) (pfs_rx_step recv c s) \<or>
    rejects (partial_of c @ content s) (pfs_rx_step recv c s)"
proof -
  consider "rx_phase c = 0" | "rx_phase c = 1" | "rx_phase c = 2" using c by (auto simp: rx_ok_def)
  then show ?thesis
  proof cases
    case 1
    then show ?thesis using rx_hdr_phase_post [OF sock, of c s] c by (simp add: pfs_rx_step_def rx_ok_def)
  next
    case 2
    then show ?thesis
      using rx_body_phase_post [OF sock, of c "has_rx s" s] c by (auto simp: pfs_rx_step_def rx_ok_def)
  next
    case 3
    then show ?thesis
      using rx_data_phase_post [OF sock, of c "has_rx s" s] c by (auto simp: pfs_rx_step_def rx_ok_def)
  qed
qed

lemma rx_ok_reset:
  "rx_sock c \<Longrightarrow> rx_bufs c \<Longrightarrow> rx_ok (pfs_rx_reset_partial c)"
  "partial_of (pfs_rx_reset_partial c) = []"
  by (simp_all add: rx_ok_def pfs_rx_reset_partial_def frame_of_def wire_def)

text \<open>A stream that a correct peer sends is a prefix of a sequence of frames, and then no header in it
  is refused. Frames are self-delimiting.\<close>

lemma frame_ok_hdr: "frame_ok f \<Longrightarrow> \<exists>h. hdr_ok (take POWERFS_NET_FRAME_HDR_SIZE (wire f @ x)) h"
  by (auto simp: frame_ok_def wire_def hdr_ok_def split: prod.splits)

lemma hdr_ok_fun: "hdr_ok hb h \<Longrightarrow> hdr_ok hb h' \<Longrightarrow> h = h'"
  by (simp add: hdr_ok_def)

lemma wire_inj:
  assumes f: "frame_ok f" and g: "frame_ok g" and eq: "wire f @ x = wire g @ y"
  shows "f = g \<and> x = y"
proof -
  obtain hb body data where fd: "f = (hb, body, data)" by (cases f)
  obtain hb' body' data' where gd: "g = (hb', body', data')" by (cases g)
  from f obtain h where h: "hdr_ok hb h" "length body = unat (fh_body_len h)"
    "length data = unat (fh_data_len h) - unat (fh_body_len h)" by (auto simp: frame_ok_def fd)
  from g obtain h' where h': "hdr_ok hb' h'" "length body' = unat (fh_body_len h')"
    "length data' = unat (fh_data_len h') - unat (fh_body_len h')" by (auto simp: frame_ok_def gd)
  have eq': "hb @ (body @ data @ x) = hb' @ (body' @ data' @ y)" using eq by (simp add: fd gd wire_def)
  moreover have "length hb = length hb'" using h(1) h'(1) by (simp add: hdr_ok_def)
  ultimately have hb: "hb = hb'" and tail: "body @ data @ x = body' @ data' @ y"
    unfolding append_eq_append_conv [OF disjI1 [OF \<open>length hb = length hb'\<close>]] by blast+
  have hh: "h = h'" using hdr_ok_fun h(1) h'(1) hb by blast
  then show ?thesis using tail h(2,3) h'(2,3) hb by (auto simp: fd gd append_eq_append_conv)
qed

lemma wire_nonempty: "frame_ok f \<Longrightarrow> wire f \<noteq> []"
  by (auto simp: frame_ok_def wire_def hdr_ok_def split: prod.splits)

lemma frames_prefix:
  assumes "\<forall>f\<in>set fs. frame_ok f" "\<forall>f\<in>set gs. frame_ok f" "concat (map wire fs) @ x = concat (map wire gs)"
  shows "\<exists>hs. gs = fs @ hs \<and> x = concat (map wire hs)"
  using assms
proof (induction fs arbitrary: gs)
  case Nil
  then show ?case by auto
next
  case (Cons f fs)
  obtain g gs' where gs: "gs = g # gs'"
    using Cons.prems wire_nonempty [of f] by (cases gs) auto
  have "wire f @ (concat (map wire fs) @ x) = wire g @ concat (map wire gs')"
    using Cons.prems(3) gs by simp
  then have "f = g \<and> concat (map wire fs) @ x = concat (map wire gs')"
    by (rule wire_inj [rotated 2]) (use Cons.prems gs in auto)
  then show ?case using Cons.IH [of gs'] Cons.prems gs by auto
qed

lemma not_rejects:
  assumes ok: "\<forall>f\<in>set fs. frame_ok f" "\<forall>f\<in>set gs. frame_ok f"
    and eq: "concat (map wire fs) @ input @ rest = concat (map wire gs)"
  shows "\<not> rejects input res"
proof
  assume rej: "rejects input res"
  then have len: "POWERFS_NET_FRAME_HDR_SIZE \<le> length input" by (simp add: rejects_def)
  obtain hs where hs: "gs = fs @ hs" "input @ rest = concat (map wire hs)"
    using frames_prefix [OF ok, of "input @ rest"] eq by auto
  then obtain h hs' where "hs = h # hs'" using len by (cases hs) auto
  then have in_h: "input @ rest = wire h @ concat (map wire hs')" "frame_ok h" using hs ok(2) by auto
  have "take POWERFS_NET_FRAME_HDR_SIZE input = take POWERFS_NET_FRAME_HDR_SIZE (input @ rest)"
    using len by simp
  then show False using frame_ok_hdr [OF in_h(2)] in_h(1) rej by (auto simp: rejects_def)
qed

text \<open>Draining the socket: the loop returns, never asks for a disconnect, and moves bytes from the
  stream into collected frames and the partial frame without losing or inventing any. It stops
  only after 64 frames or when no data is ready.\<close>

lemma process_receive_post:
  assumes sock: "socket_ok recv content has_rx" and gs: "\<forall>f\<in>set gs. frame_ok f"
  shows "rx_ok c \<Longrightarrow> k < 64 \<Longrightarrow> \<forall>f\<in>set fs. frame_ok f \<Longrightarrow>
      concat (map wire fs) @ (partial_of c @ content s) @ rest = concat (map wire gs) \<Longrightarrow>
    \<exists>c' s' fs'. pfs_process_receive recv has_rx collect k c s fs = Some (c', s', fs', False) \<and> rx_ok c' \<and>
      (\<forall>f\<in>set fs'. frame_ok f) \<and>
      concat (map wire fs') @ (partial_of c' @ content s') = concat (map wire fs) @ (partial_of c @ content s) \<and>
      (length fs' = length fs + 64 - k \<or> \<not> has_rx s')"
proof (induction "2 * (64 - k) + 2 * length (content s) + (if has_rx s then 0 else 1)"
    arbitrary: k c s fs rule: less_induct)
  case (less k s c fs)
  obtain ret c' s' where step: "pfs_rx_step recv c s = (ret, c', s')" by (cases "pfs_rx_step recv c s")
  have "\<not> rejects (partial_of c @ content s) (ret, c', s')"
    by (rule not_rejects [OF less.prems(3) gs less.prems(4)])
  then have post: "phase_post content has_rx (partial_of c) (content s) (has_rx s) (ret, c', s')"
    using pfs_rx_step_post [OF sock less.prems(1), of s] step by simp
  then have bytes: "partial_of c @ content s = partial_of c' @ content s'"
    and conn: "rx_sock c'" "rx_bufs c'" and le: "length (content s') \<le> length (content s)"
    and lt: "has_rx s \<Longrightarrow> length (content s') < length (content s)"
    and res: "ret = 0 \<and> frame_ok (frame_of c') \<or> ret = - EAGAIN \<and> rx_ok c'"
    by (auto simp: phase_post_def)
  note unfold = pfs_process_receive.simps [of recv has_rx collect k c s fs, unfolded step]
  consider (frame) "ret = 0" "frame_ok (frame_of c')" | (again) "ret = - EAGAIN" "rx_ok c'" "has_rx s'"
    | (stop) "ret = - EAGAIN" "rx_ok c'" "\<not> has_rx s'" using res by blast
  then show ?case
  proof cases
    case frame
    define c2 where "c2 = pfs_rx_reset_partial c'"
    have c2: "rx_ok c2" "partial_of c2 = []" using rx_ok_reset conn by (simp_all add: c2_def)
    have moved: "concat (map wire (collect c' fs)) @ (partial_of c2 @ content s') =
        concat (map wire fs) @ (partial_of c @ content s)" using c2(2) bytes by (simp add: collect_def)
    have ok: "\<forall>f\<in>set (collect c' fs). frame_ok f" using frame(2) less.prems(3) by (simp add: collect_def)
    show ?thesis
    proof (cases "k + 1 \<ge> 64")
      case True
      then show ?thesis using unfold frame(1) c2(1) ok moved less.prems(2)
        by (auto simp: c2_def [symmetric] collect_def)
    next
      case False
      then have "k + 1 < 64" by simp
      moreover have "concat (map wire (collect c' fs)) @ (partial_of c2 @ content s') @ rest = concat (map wire gs)"
        using moved less.prems(4) by (metis append_assoc)
      moreover have "2 * (64 - (k + 1)) + 2 * length (content s') + (if has_rx s' then 0 else 1)
          < 2 * (64 - k) + 2 * length (content s) + (if has_rx s then 0 else 1)"
        using le less.prems(2) by auto
      ultimately obtain c3 s3 fs3 where IH: "pfs_process_receive recv has_rx collect (k + 1) c2 s' (collect c' fs) = Some (c3, s3, fs3, False)"
        "rx_ok c3" "\<forall>f\<in>set fs3. frame_ok f"
        "concat (map wire fs3) @ (partial_of c3 @ content s3) = concat (map wire (collect c' fs)) @ (partial_of c2 @ content s')"
        "length fs3 = length (collect c' fs) + 64 - (k + 1) \<or> \<not> has_rx s3"
        using less.hyps [OF _ c2(1) _ ok] by blast
      have "pfs_process_receive recv has_rx collect k c s fs = Some (c3, s3, fs3, False)"
        using unfold frame(1) False IH(1) by (simp add: c2_def)
      then show ?thesis using IH(2-5) moved by (auto simp: collect_def)
    qed
  next
    case again
    have "2 * (64 - k) + 2 * length (content s') + (if has_rx s' then 0 else 1)
        < 2 * (64 - k) + 2 * length (content s) + (if has_rx s then 0 else 1)"
      using le lt again(3) by (cases "has_rx s") auto
    moreover have "concat (map wire fs) @ (partial_of c' @ content s') @ rest = concat (map wire gs)"
      using bytes less.prems(4) by simp
    ultimately show ?thesis
      using less.hyps [OF _ again(2) less.prems(2,3)] unfold again(1,3) bytes by simp
  next
    case stop
    then show ?thesis using unfold less.prems(3) bytes by simp
  qed
qed


section \<open>Reassembly\<close>

text \<open>Any interleaving of arriving bytes and wake-ups of the scheduler thread on one connection:
  \<open>sent\<close> is what has arrived so far and \<open>fs\<close> the frames dispatched so far.\<close>

inductive rx_session :: "'s recv_fn \<Rightarrow> ('s \<Rightarrow> bytes) \<Rightarrow> ('s \<Rightarrow> bool) \<Rightarrow> bytes \<Rightarrow> rx_conn \<Rightarrow> 's \<Rightarrow> frame list \<Rightarrow> bool"
  for recv content has_rx where
  start: "rx_ok c \<Longrightarrow> partial_of c = [] \<Longrightarrow> content s = [] \<Longrightarrow> rx_session recv content has_rx [] c s []"
| arrive: "rx_session recv content has_rx sent c s fs \<Longrightarrow> content s' = content s @ x \<Longrightarrow>
    rx_session recv content has_rx (sent @ x) c s' fs"
| wake: "rx_session recv content has_rx sent c s fs \<Longrightarrow>
    pfs_process_receive recv has_rx collect 0 c s fs = Some (c', s', fs', flag) \<Longrightarrow>
    rx_session recv content has_rx sent c' s' fs'"

lemma rx_session_inv:
  assumes sock: "socket_ok recv content has_rx" and gs: "\<forall>f\<in>set gs. frame_ok f"
  shows "rx_session recv content has_rx sent c s fs \<Longrightarrow> sent @ rest = concat (map wire gs) \<Longrightarrow>
    rx_ok c \<and> (\<forall>f\<in>set fs. frame_ok f) \<and> concat (map wire fs) @ (partial_of c @ content s) = sent"
proof (induction arbitrary: rest rule: rx_session.induct)
  case (arrive sent c s fs s' x)
  then show ?case using arrive.IH [of "x @ rest"] by auto
next
  case (wake sent c s fs c' s' fs' flag)
  have inv: "rx_ok c" "\<forall>f\<in>set fs. frame_ok f" "concat (map wire fs) @ (partial_of c @ content s) = sent"
    using wake.IH [OF wake.prems] by auto
  have "concat (map wire fs) @ (partial_of c @ content s) @ rest = concat (map wire gs)"
    using inv(3) wake.prems by (metis append_assoc)
  from process_receive_post [OF sock gs inv(1) _ inv(2) this, of 0] show ?case
    using wake.hyps(2) inv(3) by auto
qed simp

lemma partial_incomplete:
  assumes c: "rx_ok c" and h: "frame_ok h"
  shows "partial_of c \<noteq> wire h @ y"
proof
  assume eq: "partial_of c = wire h @ y"
  obtain hb body data where hd: "h = (hb, body, data)" by (cases h)
  from h obtain hh where hh: "hdr_ok hb hh" "length body = unat (fh_body_len hh)"
    "length data = unat (fh_data_len hh) - unat (fh_body_len hh)" by (auto simp: frame_ok_def hd)
  have eq': "rx_hdr_buf c @ (rx_body_buf c @ rx_data_buf c) = hb @ (body @ data @ y)"
    using eq by (simp add: frame_of_def wire_def hd)
  have l28: "length hb = POWERFS_NET_FRAME_HDR_SIZE" using hh(1) by (simp add: hdr_ok_def)
  have hd_c: "hdr_done c"
    using c arg_cong [OF eq', of length] l28 by (auto simp: rx_ok_def)
  then have len: "length (rx_hdr_buf c) = length hb" using l28 by (simp add: hdr_done_def hdr_ok_def)
  then have hb: "rx_hdr_buf c = hb" and tl: "rx_body_buf c @ rx_data_buf c = body @ data @ y" using eq' by auto
  have "rx_cur_hdr c = hh" using hd_c hh(1) hb hdr_ok_fun by (auto simp: hdr_done_def)
  then have "length (rx_body_buf c @ rx_data_buf c) < length (body @ data)"
    using c hd_c hh(2,3) len l28 by (auto simp: rx_ok_def hdr_done_def)
  then show False using arg_cong [OF tl, of length] by simp
qed

text \<open>C1: Frame reassembly. Over a socket that delivers a byte stream in pieces of any size, with any
  number of wake-ups in between, a connection whose peer sends well-formed frames dispatches exactly
  those frames, in order: at every moment the dispatched frames are a prefix of the sent ones, a
  wake-up always returns without a disconnect and either drains the socket or dispatches 64 frames,
  and when everything sent has been read, every frame has been dispatched.\<close>

theorem rx_reassembles:
  assumes sock: "socket_ok recv content has_rx" and gs: "\<forall>f\<in>set gs. frame_ok f"
    and session: "rx_session recv content has_rx sent c s fs" and sent: "sent @ rest = concat (map wire gs)"
  shows "(\<exists>hs. gs = fs @ hs) \<and> (rest = [] \<and> content s = [] \<longrightarrow> fs = gs) \<and>
    (\<exists>c' s' fs'. pfs_process_receive recv has_rx collect 0 c s fs = Some (c', s', fs', False) \<and>
      (length fs' = length fs + 64 \<or> \<not> has_rx s'))"
proof -
  have inv: "rx_ok c" "\<forall>f\<in>set fs. frame_ok f" "concat (map wire fs) @ (partial_of c @ content s) = sent"
    using rx_session_inv [OF sock gs session sent] by auto
  have all: "concat (map wire fs) @ (partial_of c @ content s) @ rest = concat (map wire gs)"
    using inv(3) sent by (metis append_assoc)
  obtain hs where hs: "gs = fs @ hs" "(partial_of c @ content s) @ rest = concat (map wire hs)"
    using frames_prefix [OF inv(2) gs all] by blast
  have "fs = gs" if "rest = []" "content s = []"
  proof (cases hs)
    case (Cons h hs')
    then have "frame_ok h" "partial_of c = wire h @ concat (map wire hs')" using hs gs that by auto
    then show ?thesis using partial_incomplete [OF inv(1)] by blast
  qed (use hs in simp)
  moreover have "\<exists>c' s' fs'. pfs_process_receive recv has_rx collect 0 c s fs = Some (c', s', fs', False) \<and>
      (length fs' = length fs + 64 \<or> \<not> has_rx s')"
    using process_receive_post [OF sock gs inv(1) _ inv(2) all, of 0] by auto
  ultimately show ?thesis using hs(1) by blast
qed

text \<open>A socket that hands out at most five bytes at a time, and a frame with body and data.\<close>

definition drip_recv :: "bytes recv_fn" where
  "drip_recv s n = (if s = [] then (- EAGAIN, [], s)
     else (int (length (take (min n 5) s)), take (min n 5) s, drop (min n 5) s))"

lemma drip_socket: "socket_ok drip_recv (\<lambda>s. s) (\<lambda>s. s \<noteq> [])"
  by (auto simp: socket_ok_def drip_recv_def)

definition sample_frame :: frame where
  "sample_frame = (powerfs_net_frame_hdr_encode 0x10 2 7 0 2 5 0, [1, 2], [3, 4, 5])"

definition fresh_conn :: rx_conn where
  "fresh_conn = \<lparr>rx_sock = True, rx_bufs = True, rx_phase = 0, rx_hdr_buf = [], rx_body_buf = [],
     rx_data_buf = [], rx_body_total = 0, rx_data_total = 0,
     rx_cur_hdr = \<lparr>fh_flags = 0, fh_seq = 0, fh_msg_type = 0, fh_status = 0, fh_data_len = 0,
       fh_body_len = 0, fh_route_hash = 0, fh_protocol_ver = 0\<rparr>\<rparr>"

lemma sample_frame_ok: "frame_ok sample_frame"
proof -
  define hb where "hb = powerfs_net_frame_hdr_encode 0x10 2 7 0 2 5 0"
  have "powerfs_net_frame_hdr_decode hb 28 = Some \<lparr>fh_flags = 2, fh_seq = 7, fh_msg_type = 0x10,
      fh_status = 0, fh_data_len = 5, fh_body_len = 2, fh_route_hash = 0, fh_protocol_ver = 1\<rparr>"
    using frame_hdr_decode_encode [of 28 "0x10" 2 7 0 2 5 0 "[]"] by (simp add: hb_def)
  then show ?thesis
    unfolding frame_ok_def sample_frame_def hb_def [symmetric] by (auto simp: hdr_ok_def hb_def)
qed

theorem rx_reassembles_witness:
  "\<exists>c' s'. pfs_process_receive drip_recv (\<lambda>s. s \<noteq> []) collect 0 fresh_conn (wire sample_frame) [] =
     Some (c', s', [sample_frame], False)"
proof -
  let ?ses = "rx_session drip_recv (\<lambda>s. s) (\<lambda>s. s \<noteq> [])" and ?gs = "[sample_frame]"
  have gs: "\<forall>f\<in>set ?gs. frame_ok f" using sample_frame_ok by simp
  have "?ses [] fresh_conn [] []"
    by (rule rx_session.start) (simp_all add: rx_ok_def fresh_conn_def frame_of_def wire_def)
  from rx_session.arrive [OF this, of "wire sample_frame" "wire sample_frame"]
  have ses: "?ses (wire sample_frame) fresh_conn (wire sample_frame) []" by simp
  from rx_reassembles [OF drip_socket gs this, of "[]"] obtain c' s' fs' where run:
    "pfs_process_receive drip_recv (\<lambda>s. s \<noteq> []) collect 0 fresh_conn (wire sample_frame) [] = Some (c', s', fs', False)"
    "length fs' = 64 \<or> s' = []" by auto
  from rx_reassembles [OF drip_socket gs rx_session.wake [OF ses run(1)], of "[]"]
  have "\<exists>hs. ?gs = fs' @ hs" "s' = [] \<longrightarrow> fs' = ?gs" by auto
  then have "fs' = ?gs" using run(2) by (auto simp: Cons_eq_append_conv)
  then show ?thesis using run(1) by blast
qed

end
