(* ===== verification/Requests.thy ===== *)
theory Requests
  imports Frame "HOL-Library.Tree"
begin

text \<open>
  Requests in flight on one connection (\<open>powerfs_net_req.c\<close>, \<open>powerfs_net_conn.c\<close>): the tree by
  sequence number, the pending and transmit queues, and the paths that complete a request: the response,
  the timeout work of an asynchronous request, a failed transmission, and the cancellation on
  disconnect or fault. Requests are numbered; a list of requests is the list of their numbers and the
  embedded list heads are \<^emph>\<open>rq_node\<close> (none, the pending list, or the local cancel list of a
  disconnect). One operation below is one critical section (or one step outside the locks), so that a
  sequence of operations is an interleaving of the threads. The balancing of the kernel's red-black
  tree is the parameter \<open>rb\<close>: a pair of the functions \<open>rb_insert_color\<close> and \<open>rb_erase\<close>.
\<close>

abbreviation EINTR :: int where "EINTR \<equiv> 4"

datatype req_node = Unlinked | OnPending | OnCancel

record request =
  rq_seq :: u32
  rq_error :: int
  rq_async :: bool
  rq_deadline :: bool
  rq_timer :: bool
  rq_node :: req_node
  rq_in_tree :: bool
  rq_in_tx :: bool
  rq_completed :: nat
  rq_returned :: bool
  rq_resp_status :: u16
  rq_resp_body :: "bytes option"
  rq_body_cap :: nat
  rq_body_len :: nat
  rq_resp_data :: "bytes option"
  rq_data_cap :: nat
  rq_data_len :: nat

record rconn =
  cn_connected :: bool
  cn_reqs :: "nat \<Rightarrow> request"
  cn_seq :: u32
  cn_pending :: "nat list"
  cn_tree :: "nat tree"
  cn_tx :: "nat list"
  cn_timeouts :: u32
  cn_owed :: "nat list"
  cn_cancel :: "nat list"
  cn_pos :: "nat option"
  cn_nxt :: "nat option"
  cn_disconnect_work :: bool

type_synonym rb_ops = "(nat tree \<Rightarrow> nat tree) \<times> (nat \<Rightarrow> nat tree \<Rightarrow> nat tree)"

abbreviation upd_req :: "nat \<Rightarrow> (request \<Rightarrow> request) \<Rightarrow> rconn \<Rightarrow> rconn" where
  "upd_req i f st \<equiv> st\<lparr>cn_reqs := (cn_reqs st)(i := f (cn_reqs st i))\<rparr>"


section \<open>The tree by sequence number\<close>

fun req_link :: "(nat \<Rightarrow> u32) \<Rightarrow> nat \<Rightarrow> nat tree \<Rightarrow> nat tree" where
  "req_link key i Leaf = Node Leaf i Leaf"
| "req_link key i (Node l e r) =
    (if key i < key e then Node (req_link key i l) e r else Node l e (req_link key i r))"

definition powerfs_req_tree_insert :: "rb_ops \<Rightarrow> nat \<Rightarrow> rconn \<Rightarrow> rconn" where
  "powerfs_req_tree_insert rb i st =
    upd_req i (\<lambda>r. r\<lparr>rq_in_tree := True\<rparr>)
      (st\<lparr>cn_tree := fst rb (req_link (\<lambda>j. rq_seq (cn_reqs st j)) i (cn_tree st))\<rparr>)"

fun req_search :: "(nat \<Rightarrow> u32) \<Rightarrow> u32 \<Rightarrow> nat tree \<Rightarrow> nat option" where
  "req_search key seq Leaf = None"
| "req_search key seq (Node l e r) =
    (if seq < key e then req_search key seq l
     else if seq > key e then req_search key seq r
     else Some e)"

definition powerfs_req_tree_lookup :: "rconn \<Rightarrow> u32 \<Rightarrow> nat option" where
  "powerfs_req_tree_lookup st seq = req_search (\<lambda>j. rq_seq (cn_reqs st j)) seq (cn_tree st)"

definition powerfs_req_tree_remove :: "rb_ops \<Rightarrow> nat \<Rightarrow> rconn \<Rightarrow> rconn" where
  "powerfs_req_tree_remove rb i st =
    (if rq_in_tree (cn_reqs st i)
     then upd_req i (\<lambda>r. r\<lparr>rq_in_tree := False\<rparr>) (st\<lparr>cn_tree := snd rb i (cn_tree st)\<rparr>)
     else st)"


section \<open>The operations\<close>

text \<open>\<open>list_del_init\<close> of the pending node and of the transmit node.\<close>

definition node_del :: "nat \<Rightarrow> rconn \<Rightarrow> rconn" where
  "node_del i st = upd_req i (\<lambda>r. r\<lparr>rq_node := Unlinked\<rparr>)
     (st\<lparr>cn_pending := removeAll i (cn_pending st), cn_cancel := removeAll i (cn_cancel st)\<rparr>)"

definition tx_del :: "nat \<Rightarrow> rconn \<Rightarrow> rconn" where
  "tx_del i st = (if rq_in_tx (cn_reqs st i)
     then upd_req i (\<lambda>r. r\<lparr>rq_in_tx := False\<rparr>) (st\<lparr>cn_tx := removeAll i (cn_tx st)\<rparr>) else st)"

text \<open>Taking a request off the pending list and out of the tree, under \<open>req_lock\<close>.\<close>

definition req_detach :: "rb_ops \<Rightarrow> nat \<Rightarrow> rconn \<Rightarrow> rconn" where
  "req_detach rb i st = powerfs_req_tree_remove rb i (node_del i st)"

text \<open>The first half of \<open>powerfs_request_do_send\<close> on a connected connection: a fresh sequence number,
  the pending list and the tree, the transmit queue, and the timer of an asynchronous request. The
  completion has been re-initialised by the caller.\<close>

definition do_send_enqueue :: "rb_ops \<Rightarrow> nat \<Rightarrow> rconn \<Rightarrow> rconn" where
  "do_send_enqueue rb i st =
    (let seq = cn_seq st + 1;
         st = upd_req i (\<lambda>r. r\<lparr>rq_seq := seq, rq_completed := 0, rq_returned := False\<rparr>) (st\<lparr>cn_seq := seq\<rparr>);
         st = (if rq_node (cn_reqs st i) \<noteq> Unlinked then req_detach rb i st else st);
         st = upd_req i (\<lambda>r. r\<lparr>rq_node := OnPending\<rparr>) (st\<lparr>cn_pending := cn_pending st @ [i]\<rparr>);
         st = powerfs_req_tree_insert rb i st;
         st = tx_del i st;
         st = upd_req i (\<lambda>r. r\<lparr>rq_in_tx := True\<rparr>) (st\<lparr>cn_tx := cn_tx st @ [i]\<rparr>)
     in if rq_async (cn_reqs st i) \<and> rq_deadline (cn_reqs st i)
        then upd_req i (\<lambda>r. r\<lparr>rq_timer := True\<rparr>) st else st)"

definition powerfs_request_do_send :: "rb_ops \<Rightarrow> nat \<Rightarrow> rconn \<Rightarrow> int \<times> rconn" where
  "powerfs_request_do_send rb i st =
    (if \<not> cn_connected st then (- ENOTCONN, st) else (0, do_send_enqueue rb i st))"

text \<open>A waiter that gives up (signal or timeout, \<open>err\<close> is \<open>EINTR\<close> or \<open>ETIMEDOUT\<close>): it unlinks the
  request if nobody else has, and returns the error to the caller, who then frees the request. After
  three timeouts in a row the connection is treated as half open.\<close>

definition do_send_give_up :: "rb_ops \<Rightarrow> int \<Rightarrow> nat \<Rightarrow> rconn \<Rightarrow> int \<times> rconn" where
  "do_send_give_up rb err i st =
    (let st = (if rq_node (cn_reqs st i) \<noteq> Unlinked
               then upd_req i (\<lambda>r. r\<lparr>rq_error := - err\<rparr>) (req_detach rb i st)
               else st);
         st = tx_del i st;
         st = (if err = ETIMEDOUT then
                 let st = st\<lparr>cn_timeouts := cn_timeouts st + 1\<rparr> in
                 if sint (cn_timeouts st) \<ge> 3 \<and> cn_connected st then st\<lparr>cn_disconnect_work := True\<rparr> else st
               else st);
         st = upd_req i (\<lambda>r. r\<lparr>rq_returned := True\<rparr>) st
     in (rq_error (cn_reqs st i), st))"

text \<open>A waiter that was woken up.\<close>

definition do_send_finish :: "rb_ops \<Rightarrow> nat \<Rightarrow> rconn \<Rightarrow> int \<times> rconn" where
  "do_send_finish rb i st =
    (let st = (if rq_node (cn_reqs st i) \<noteq> Unlinked then req_detach rb i st else st);
         st = tx_del i st;
         st = (if rq_error (cn_reqs st i) = 0 then st\<lparr>cn_timeouts := 0\<rparr> else st);
         st = upd_req i (\<lambda>r. r\<lparr>rq_returned := True\<rparr>) st
     in (rq_error (cn_reqs st i), st))"

text \<open>\<open>powerfs_req_complete\<close>: the thread that owes the completion pays it. The counter counts calls of
  the callback or of \<open>complete\<close>.\<close>

definition powerfs_req_complete :: "nat \<Rightarrow> rconn \<Rightarrow> rconn" where
  "powerfs_req_complete i st =
    upd_req i (\<lambda>r. r\<lparr>rq_timer := False, rq_completed := rq_completed r + 1\<rparr>)
      (st\<lparr>cn_owed := remove1 i (cn_owed st)\<rparr>)"

text \<open>The timeout work of an asynchronous request: the critical sections.\<close>

definition powerfs_req_timeout_fn :: "rb_ops \<Rightarrow> nat \<Rightarrow> rconn \<Rightarrow> rconn" where
  "powerfs_req_timeout_fn rb i st =
    (if rq_in_tree (cn_reqs st i) then
       let st = req_detach rb i st;
           st = upd_req i (\<lambda>r. r\<lparr>rq_error := - ETIMEDOUT\<rparr>) st;
           st = tx_del i st
       in upd_req i (\<lambda>r. r\<lparr>rq_timer := False\<rparr>) (st\<lparr>cn_owed := i # cn_owed st\<rparr>)
     else st)"

text \<open>The response part of \<open>pfs_rx_dispatch\<close>: match by sequence number, unlink, and copy a section of
  the response only if it fits.\<close>

definition resp_copy_body :: "bytes \<Rightarrow> request \<Rightarrow> request" where
  "resp_copy_body body r =
    (let r = r\<lparr>rq_body_len := 0\<rparr> in
     if rq_resp_body r \<noteq> None \<and> length body > 0 then
       if length body > rq_body_cap r then r\<lparr>rq_error := - E2BIG, rq_body_len := 0\<rparr>
       else r\<lparr>rq_resp_body := map_option (wr_bytes 0 body) (rq_resp_body r), rq_body_len := length body\<rparr>
     else r)"

definition resp_copy_data :: "bytes \<Rightarrow> request \<Rightarrow> request" where
  "resp_copy_data data r =
    (let r = r\<lparr>rq_data_len := 0\<rparr> in
     if rq_resp_data r \<noteq> None \<and> length data > 0 then
       if length data > rq_data_cap r then r\<lparr>rq_error := - E2BIG, rq_data_len := 0\<rparr>
       else r\<lparr>rq_resp_data := map_option (wr_bytes 0 data) (rq_resp_data r), rq_data_len := length data\<rparr>
     else r)"

definition rx_match :: "rb_ops \<Rightarrow> u32 \<Rightarrow> rconn \<Rightarrow> nat option \<times> rconn" where
  "rx_match rb seq st =
    (case powerfs_req_tree_lookup st seq of
       None \<Rightarrow> (None, st)
     | Some i \<Rightarrow>
       let st = (if rq_node (cn_reqs st i) \<noteq> Unlinked then node_del i st else st);
           st = powerfs_req_tree_remove rb i st
       in (Some i, st\<lparr>cn_owed := i # cn_owed st\<rparr>))"

definition rx_fill :: "u16 \<Rightarrow> bytes \<Rightarrow> bytes \<Rightarrow> nat \<Rightarrow> rconn \<Rightarrow> rconn" where
  "rx_fill status body data i st =
    upd_req i (\<lambda>r. resp_copy_data data (resp_copy_body body (r\<lparr>rq_resp_status := status, rq_error := 0\<rparr>))) st"

text \<open>\<open>pfs_process_transmit\<close>: take the first request of the queue; after the send put it back, leave
  it to the receiver, or fail it.\<close>

definition tx_pop :: "rconn \<Rightarrow> nat option \<times> rconn" where
  "tx_pop st = (case cn_tx st of [] \<Rightarrow> (None, st)
     | i # rest \<Rightarrow> (Some i, upd_req i (\<lambda>r. r\<lparr>rq_in_tx := False\<rparr>) (st\<lparr>cn_tx := rest\<rparr>)))"

definition tx_again :: "nat \<Rightarrow> rconn \<Rightarrow> rconn" where
  "tx_again i st = upd_req i (\<lambda>r. r\<lparr>rq_in_tx := True\<rparr>) (st\<lparr>cn_tx := i # cn_tx st\<rparr>)"

definition tx_fail :: "rb_ops \<Rightarrow> nat \<Rightarrow> rconn \<Rightarrow> rconn" where
  "tx_fail rb i st =
    (let st = (if rq_in_tree (cn_reqs st i) then
                 let st = upd_req i (\<lambda>r. r\<lparr>rq_error := - ENOTCONN\<rparr>) (req_detach rb i st)
                 in st\<lparr>cn_owed := i # cn_owed st\<rparr>
               else st)
     in st\<lparr>cn_disconnect_work := True\<rparr>)"

text \<open>The cancellation shared by \<open>powerfs_conn_disconnect_one\<close> and the fault branch of
  \<open>powerfs_conn_set_state\<close>: under the lock all pending requests move to a local list and leave the tree;
  then the list is walked with the next element read ahead (\<open>list_for_each_entry_safe\<close>).\<close>

fun cancel_mark :: "rb_ops \<Rightarrow> nat list \<Rightarrow> rconn \<Rightarrow> rconn" where
  "cancel_mark rb [] st = st"
| "cancel_mark rb (i # is) st = cancel_mark rb is
     (upd_req i (\<lambda>r. r\<lparr>rq_error := - ENOTCONN, rq_node := OnCancel\<rparr>) (powerfs_req_tree_remove rb i st))"

definition list_next :: "nat list \<Rightarrow> nat \<Rightarrow> nat option" where
  "list_next xs i = (if i \<in> set xs then
      (case dropWhile (\<lambda>j. j \<noteq> i) xs of _ # j # _ \<Rightarrow> Some j | _ \<Rightarrow> None) else Some i)"

definition cancel_begin :: "rb_ops \<Rightarrow> rconn \<Rightarrow> rconn" where
  "cancel_begin rb st =
    (let xs = cn_pending st; st = cancel_mark rb xs (st\<lparr>cn_pending := [], cn_cancel := xs\<rparr>)
     in st\<lparr>cn_pos := (case xs of [] \<Rightarrow> None | i # _ \<Rightarrow> Some i),
           cn_nxt := (case xs of _ # j # _ \<Rightarrow> Some j | _ \<Rightarrow> None)\<rparr>)"

text \<open>Only the first caller gets past the state check of \<open>powerfs_conn_disconnect_one\<close>.\<close>

definition disconnect_begin :: "rb_ops \<Rightarrow> rconn \<Rightarrow> rconn" where
  "disconnect_begin rb st =
    (if cn_connected st then cancel_begin rb (st\<lparr>cn_connected := False\<rparr>) else st)"

definition cancel_step :: "rconn \<Rightarrow> rconn" where
  "cancel_step st =
    (case cn_pos st of None \<Rightarrow> st
     | Some i \<Rightarrow>
       let st = powerfs_req_complete i (node_del i st)
       in st\<lparr>cn_pos := cn_nxt st,
             cn_nxt := (case cn_nxt st of None \<Rightarrow> None | Some j \<Rightarrow> list_next (cn_cancel st) j)\<rparr>)"

text \<open>After the walk the transmit queue is emptied.\<close>

definition tx_drain :: "rconn \<Rightarrow> rconn" where
  "tx_drain st = st\<lparr>cn_reqs := (\<lambda>i. if i \<in> set (cn_tx st) then (cn_reqs st i)\<lparr>rq_in_tx := False\<rparr> else cn_reqs st i),
     cn_tx := []\<rparr>"


section \<open>Interleavings\<close>

datatype req_op = Submit nat | Match u32 | Fill u16 bytes bytes nat | Complete nat | Timeout nat
  | TxPop | TxAgain nat | TxFail nat | Disconnect | CancelBegin | CancelStep | Drain | Finish nat | GiveUp int nat

fun req_exec :: "rb_ops \<Rightarrow> req_op \<Rightarrow> rconn \<Rightarrow> rconn" where
  "req_exec rb (Submit i) st = snd (powerfs_request_do_send rb i st)"
| "req_exec rb (Match seq) st = snd (rx_match rb seq st)"
| "req_exec rb (Fill status body data i) st = rx_fill status body data i st"
| "req_exec rb (Complete i) st = powerfs_req_complete i st"
| "req_exec rb (Timeout i) st = powerfs_req_timeout_fn rb i st"
| "req_exec rb TxPop st = snd (tx_pop st)"
| "req_exec rb (TxAgain i) st = tx_again i st"
| "req_exec rb (TxFail i) st = tx_fail rb i st"
| "req_exec rb Disconnect st = disconnect_begin rb st"
| "req_exec rb CancelBegin st = cancel_begin rb st"
| "req_exec rb CancelStep st = cancel_step st"
| "req_exec rb Drain st = tx_drain st"
| "req_exec rb (Finish i) st = snd (do_send_finish rb i st)"
| "req_exec rb (GiveUp err i) st = snd (do_send_give_up rb err i st)"

text \<open>\<open>CancelBegin\<close> is the fault branch of \<open>powerfs_conn_set_state\<close>. A request is idle when no thread and no queue of the connection that leads to its completion
  holds it. Operations happen in these states: a request is submitted on a connected connection when it is idle and fewer than
  \<open>2^32\<close> requests are in flight, so that the next sequence number is free; a completion is paid by the
  thread that owes it; a synchronous caller returns when it has been woken up, or gives up at any moment, while its
  request is in flight, taken by the receiver or completed, but not while a cancellation has it on its local list
  (\<open>give_up_breaks_cancel_walk\<close> shows what happens then). One cancellation runs at a time.\<close>

definition idle :: "rconn \<Rightarrow> nat \<Rightarrow> bool" where
  "idle st i \<longleftrightarrow> \<not> rq_in_tree (cn_reqs st i) \<and> rq_node (cn_reqs st i) = Unlinked \<and> i \<notin> set (cn_owed st)"

fun req_ok :: "req_op \<Rightarrow> rconn \<Rightarrow> bool" where
  "req_ok (Submit i) st = (cn_connected st \<and> idle st i \<and> (\<forall>j\<in>set (cn_pending st). rq_seq (cn_reqs st j) \<noteq> cn_seq st + 1))"
| "req_ok (Fill status body data i) st = (i \<in> set (cn_owed st))"
| "req_ok (Complete i) st = (i \<in> set (cn_owed st))"
| "req_ok Disconnect st = (cn_pos st = None)"
| "req_ok CancelBegin st = (cn_pos st = None)"
| "req_ok (Finish i) st = (rq_completed (cn_reqs st i) > 0)"
| "req_ok (GiveUp err i) st = (\<not> rq_async (cn_reqs st i) \<and> rq_node (cn_reqs st i) \<noteq> OnCancel)"
| "req_ok _ st = True"

text \<open>How a request is accounted for: in flight, owed, being cancelled, or completed.\<close>

definition account :: "rconn \<Rightarrow> nat \<Rightarrow> nat" where
  "account st i = rq_completed (cn_reqs st i) + of_bool (rq_in_tree (cn_reqs st i)) +
     of_bool (i \<in> set (cn_owed st)) + of_bool (rq_node (cn_reqs st i) = OnCancel)"

definition rb_laws :: "rb_ops \<Rightarrow> bool" where
  "rb_laws rb \<longleftrightarrow> (\<forall>t. inorder (fst rb t) = inorder t) \<and>
     (\<forall>i t. inorder (snd rb i t) = filter (\<lambda>j. j \<noteq> i) (inorder t))"

abbreviation key_of :: "rconn \<Rightarrow> nat \<Rightarrow> u32" where
  "key_of st \<equiv> \<lambda>j. rq_seq (cn_reqs st j)"

definition tree_ok :: "rconn \<Rightarrow> bool" where
  "tree_ok st \<longleftrightarrow> sorted_wrt (<) (map (key_of st) (inorder (cn_tree st))) \<and>
     set_tree (cn_tree st) = {i. rq_in_tree (cn_reqs st i)} \<and>
     (\<forall>i. rq_in_tree (cn_reqs st i) \<longleftrightarrow> rq_node (cn_reqs st i) = OnPending)"

definition lists_ok :: "rconn \<Rightarrow> bool" where
  "lists_ok st \<longleftrightarrow> distinct (cn_pending st) \<and> set (cn_pending st) = {i. rq_node (cn_reqs st i) = OnPending} \<and>
     distinct (cn_cancel st) \<and> set (cn_cancel st) = {i. rq_node (cn_reqs st i) = OnCancel} \<and>
     distinct (cn_owed st) \<and> (\<forall>i\<in>set (cn_owed st). rq_node (cn_reqs st i) = Unlinked)"

definition walk_ok :: "rconn \<Rightarrow> bool" where
  "walk_ok st \<longleftrightarrow> cn_pos st = (case cn_cancel st of [] \<Rightarrow> None | i # _ \<Rightarrow> Some i) \<and>
     cn_nxt st = (case cn_cancel st of _ # j # _ \<Rightarrow> Some j | _ \<Rightarrow> None)"

definition req_inv :: "rconn \<Rightarrow> bool" where
  "req_inv st \<longleftrightarrow> tree_ok st \<and> lists_ok st \<and> walk_ok st \<and> (\<forall>i. account st i \<le> 1)"


section \<open>The tree\<close>

lemma set_req_link [simp]: "set_tree (req_link key i t) = insert i (set_tree t)"
  by (induction t) auto

lemma req_link_sorted:
  assumes "sorted_wrt (<) (map key (inorder t))" "key i \<notin> key ` set_tree t"
  shows "sorted_wrt (<) (map key (inorder (req_link key i t)))"
  using assms
proof (induction t)
  case (Node l e r)
  then have "key i \<noteq> key e" "key i \<notin> key ` set_tree l" "key i \<notin> key ` set_tree r" by auto
  with Node show ?case by (auto simp: sorted_wrt_append intro: less_trans)
qed simp

lemma req_search_correct:
  assumes "sorted_wrt (<) (map key (inorder t))"
  shows "req_search key s t = Some e \<longleftrightarrow> e \<in> set_tree t \<and> key e = s"
  using assms
proof (induction t)
  case (Node l x r)
  then show ?case by (auto simp: sorted_wrt_append)
qed simp


section \<open>The invariant\<close>

text \<open>What the invariant and the accounts depend on.\<close>

definition core :: "rconn \<Rightarrow> nat \<Rightarrow> u32 \<times> req_node \<times> bool \<times> nat" where
  "core st i = (rq_seq (cn_reqs st i), rq_node (cn_reqs st i), rq_in_tree (cn_reqs st i), rq_completed (cn_reqs st i))"

definition same_core :: "rconn \<Rightarrow> rconn \<Rightarrow> bool" where
  "same_core st st' \<longleftrightarrow> core st = core st' \<and> cn_pending st = cn_pending st' \<and> cn_tree st = cn_tree st' \<and>
     cn_owed st = cn_owed st' \<and> cn_cancel st = cn_cancel st' \<and> cn_pos st = cn_pos st' \<and> cn_nxt st = cn_nxt st'"

lemma same_core_sel:
  assumes "same_core st st'"
  shows "rq_seq (cn_reqs st' i) = rq_seq (cn_reqs st i)" "rq_node (cn_reqs st' i) = rq_node (cn_reqs st i)"
    "rq_in_tree (cn_reqs st' i) = rq_in_tree (cn_reqs st i)" "rq_completed (cn_reqs st' i) = rq_completed (cn_reqs st i)"
    "cn_pending st' = cn_pending st" "cn_tree st' = cn_tree st" "cn_owed st' = cn_owed st"
    "cn_cancel st' = cn_cancel st" "cn_pos st' = cn_pos st" "cn_nxt st' = cn_nxt st"
  using assms by (auto simp: same_core_def core_def fun_eq_iff)

lemma same_core_account: "same_core st st' \<Longrightarrow> account st' i = account st i"
  by (simp add: account_def same_core_sel)

lemma same_core_inv: "same_core st st' \<Longrightarrow> req_inv st' = req_inv st"
  by (simp add: req_inv_def tree_ok_def lists_ok_def walk_ok_def same_core_account same_core_sel)

lemma same_core_post: "same_core st st' \<Longrightarrow> req_inv st \<Longrightarrow> req_inv st' \<and> account st' j = account st j"
  by (simp add: same_core_inv same_core_account)

lemma same_core_ops [simp, intro!]:
  "same_core st (tx_del i st)" "same_core st (snd (tx_pop st))" "same_core st (tx_again i st)"
  "same_core st (tx_drain st)" "same_core st (rx_fill status body data i st)"
  "same_core st (st\<lparr>cn_timeouts := x\<rparr>)" "same_core st (st\<lparr>cn_connected := b\<rparr>)" "same_core st (st\<lparr>cn_disconnect_work := b\<rparr>)"
  "same_core st (upd_req i (\<lambda>r. r\<lparr>rq_error := e\<rparr>) st)" "same_core st (upd_req i (\<lambda>r. r\<lparr>rq_timer := b\<rparr>) st)"
  "same_core st (upd_req i (\<lambda>r. r\<lparr>rq_returned := b\<rparr>) st)" "same_core st (upd_req i (\<lambda>r. r\<lparr>rq_in_tx := b\<rparr>) st)"
  by (auto simp: same_core_def core_def fun_eq_iff tx_del_def tx_pop_def tx_again_def tx_drain_def rx_fill_def
      resp_copy_body_def resp_copy_data_def Let_def split: list.splits)

lemma same_core_refl [simp]: "same_core st st"
  by (simp add: same_core_def)

lemma same_core_trans [trans]: "same_core st st' \<Longrightarrow> same_core st' st'' \<Longrightarrow> same_core st st''"
  by (simp add: same_core_def)

lemma tree_remove_sel:
  assumes rb: "rb_laws rb" and inv: "set_tree (cn_tree st) = {i. rq_in_tree (cn_reqs st i)}"
  shows "inorder (cn_tree (powerfs_req_tree_remove rb i st)) = filter (\<lambda>j. j \<noteq> i) (inorder (cn_tree st))"
    "cn_reqs (powerfs_req_tree_remove rb i st) = (cn_reqs st)(i := (cn_reqs st i)\<lparr>rq_in_tree := False\<rparr>)"
    "cn_pending (powerfs_req_tree_remove rb i st) = cn_pending st" "cn_owed (powerfs_req_tree_remove rb i st) = cn_owed st"
    "cn_cancel (powerfs_req_tree_remove rb i st) = cn_cancel st" "cn_pos (powerfs_req_tree_remove rb i st) = cn_pos st"
    "cn_nxt (powerfs_req_tree_remove rb i st) = cn_nxt st" "cn_seq (powerfs_req_tree_remove rb i st) = cn_seq st"
proof -
  have "filter (\<lambda>j. j \<noteq> i) (inorder (cn_tree st)) = inorder (cn_tree st)" if "\<not> rq_in_tree (cn_reqs st i)"
    using that inv by (intro filter_True) (auto simp: set_inorder)
  then show "inorder (cn_tree (powerfs_req_tree_remove rb i st)) = filter (\<lambda>j. j \<noteq> i) (inorder (cn_tree st))"
    using rb by (simp add: powerfs_req_tree_remove_def rb_laws_def)
  show "cn_reqs (powerfs_req_tree_remove rb i st) = (cn_reqs st)(i := (cn_reqs st i)\<lparr>rq_in_tree := False\<rparr>)"
    by (auto simp: powerfs_req_tree_remove_def fun_eq_iff intro: request.equality)
qed (simp_all add: powerfs_req_tree_remove_def)

lemma sorted_wrt_map_filter: "sorted_wrt P (map f xs) \<Longrightarrow> sorted_wrt P (map f (filter q xs))"
  by (induction xs) auto

lemma detach_sel:
  assumes rb: "rb_laws rb" and inv: "req_inv st"
  shows "inorder (cn_tree (req_detach rb i st)) = filter (\<lambda>j. j \<noteq> i) (inorder (cn_tree st))"
    "cn_reqs (req_detach rb i st) = (cn_reqs st)(i := (cn_reqs st i)\<lparr>rq_node := Unlinked, rq_in_tree := False\<rparr>)"
    "cn_pending (req_detach rb i st) = removeAll i (cn_pending st)" "cn_owed (req_detach rb i st) = cn_owed st"
    "cn_cancel (req_detach rb i st) = removeAll i (cn_cancel st)" "cn_pos (req_detach rb i st) = cn_pos st"
    "cn_nxt (req_detach rb i st) = cn_nxt st" "cn_seq (req_detach rb i st) = cn_seq st"
proof -
  have s: "set_tree (cn_tree (node_del i st)) = {j. rq_in_tree (cn_reqs (node_del i st) j)}"
    using inv by (auto simp: req_inv_def tree_ok_def node_del_def)
  note t = tree_remove_sel [OF rb s, of i]
  show "inorder (cn_tree (req_detach rb i st)) = filter (\<lambda>j. j \<noteq> i) (inorder (cn_tree st))"
    unfolding req_detach_def t(1) by (simp add: node_del_def)
  show "cn_reqs (req_detach rb i st) = (cn_reqs st)(i := (cn_reqs st i)\<lparr>rq_node := Unlinked, rq_in_tree := False\<rparr>)"
    unfolding req_detach_def t(2) by (auto simp: node_del_def fun_eq_iff intro: request.equality)
qed (simp_all add: req_detach_def tree_remove_sel [OF rb] node_del_def powerfs_req_tree_remove_def)

text \<open>Detaching a pending request and owing its completion keeps the invariant and every account.\<close>

lemma detach_owe:
  assumes rb: "rb_laws rb" and inv: "req_inv st" and i: "rq_in_tree (cn_reqs st i)"
  defines "st' \<equiv> (req_detach rb i st)\<lparr>cn_owed := i # cn_owed st\<rparr>"
  shows "req_inv st'" "account st' j = account st j"
proof -
  note s = detach_sel [OF rb inv, of i]
  have p: "rq_node (cn_reqs st i) = OnPending" "i \<notin> set (cn_cancel st)" "i \<notin> set (cn_owed st)"
    using inv i by (auto simp: req_inv_def tree_ok_def lists_ok_def)
  show acc: "account st' j = account st j" for j
    using p i by (simp add: st'_def account_def s)
  have keys: "key_of st' = key_of st" by (auto simp: st'_def s)
  have "inorder (cn_tree st') = filter (\<lambda>j. j \<noteq> i) (inorder (cn_tree st))" by (simp add: st'_def s)
  moreover from arg_cong [OF this, of set] have "set_tree (cn_tree st') = set_tree (cn_tree st) - {i}" by auto
  ultimately have "tree_ok st'"
    using inv unfolding tree_ok_def keys by (auto simp: st'_def s req_inv_def tree_ok_def sorted_wrt_map_filter)
  moreover have "lists_ok st'"
    using inv p i by (auto simp: req_inv_def lists_ok_def st'_def s distinct_removeAll)
  moreover have "walk_ok st'" using inv p(2) by (simp add: req_inv_def walk_ok_def st'_def s)
  ultimately show "req_inv st'" using inv acc by (simp add: req_inv_def)
qed

text \<open>Detaching a request that nobody owes drops it from the accounts.\<close>

lemma detach_drop:
  assumes rb: "rb_laws rb" and inv: "req_inv st" and i: "rq_in_tree (cn_reqs st i)"
  shows "req_inv (req_detach rb i st)" "account (req_detach rb i st) j = (if j = i then 0 else account st j)"
proof -
  let ?st' = "req_detach rb i st"
  note s = detach_sel [OF rb inv, of i]
  have p: "rq_node (cn_reqs st i) = OnPending" "i \<notin> set (cn_cancel st)" "i \<notin> set (cn_owed st)"
    using inv i by (auto simp: req_inv_def tree_ok_def lists_ok_def)
  have "account st i \<le> 1" using inv by (simp add: req_inv_def)
  then have "rq_completed (cn_reqs st i) = 0" using i by (simp add: account_def)
  then show acc: "account ?st' j = (if j = i then 0 else account st j)" for j
    using p by (simp add: account_def s)
  have keys: "key_of ?st' = key_of st" by (auto simp: s)
  have tr: "inorder (cn_tree ?st') = filter (\<lambda>j. j \<noteq> i) (inorder (cn_tree st))" by (simp add: s)
  moreover from arg_cong [OF tr, of set] have "set_tree (cn_tree ?st') = set_tree (cn_tree st) - {i}" by auto
  ultimately have "tree_ok ?st'"
    using inv unfolding tree_ok_def keys by (auto simp: s req_inv_def tree_ok_def sorted_wrt_map_filter)
  moreover have "lists_ok ?st'"
    using inv p i by (auto simp: req_inv_def lists_ok_def s distinct_removeAll)
  moreover have "walk_ok ?st'" using inv p(2) by (simp add: req_inv_def walk_ok_def s)
  ultimately show "req_inv ?st'" using inv acc by (simp add: req_inv_def)
qed

text \<open>Submitting an idle request puts it in flight.\<close>

lemma do_send_enqueue_core:
  assumes "idle st i"
  shows "same_core (upd_req i (\<lambda>r. r\<lparr>rq_seq := cn_seq st + 1, rq_completed := 0, rq_node := OnPending, rq_in_tree := True\<rparr>)
      (st\<lparr>cn_pending := cn_pending st @ [i],
          cn_tree := fst rb (req_link ((key_of st)(i := cn_seq st + 1)) i (cn_tree st))\<rparr>)) (do_send_enqueue rb i st)"
proof -
  define sa where "sa = upd_req i (\<lambda>r. r\<lparr>rq_node := OnPending\<rparr>)
      ((upd_req i (\<lambda>r. r\<lparr>rq_seq := cn_seq st + 1, rq_completed := 0, rq_returned := False\<rparr>)
        (st\<lparr>cn_seq := cn_seq st + 1\<rparr>))\<lparr>cn_pending := cn_pending st @ [i]\<rparr>)"
  define st1 where "st1 = upd_req i (\<lambda>r. r\<lparr>rq_seq := cn_seq st + 1, rq_completed := 0, rq_returned := False,
      rq_node := OnPending, rq_in_tree := True\<rparr>) (st\<lparr>cn_seq := cn_seq st + 1, cn_pending := cn_pending st @ [i],
      cn_tree := fst rb (req_link ((key_of st)(i := cn_seq st + 1)) i (cn_tree st))\<rparr>)"
  define st2 where "st2 = upd_req i (\<lambda>r. r\<lparr>rq_in_tx := True\<rparr>) ((tx_del i st1)\<lparr>cn_tx := cn_tx (tx_del i st1) @ [i]\<rparr>)"
  have "key_of sa = (key_of st)(i := cn_seq st + 1)" by (auto simp: sa_def)
  then have ins: "powerfs_req_tree_insert rb i sa = st1"
    unfolding powerfs_req_tree_insert_def by (simp add: sa_def st1_def)
  have "do_send_enqueue rb i st = (let st = upd_req i (\<lambda>r. r\<lparr>rq_in_tx := True\<rparr>)
        ((tx_del i (powerfs_req_tree_insert rb i sa))\<lparr>cn_tx := cn_tx (tx_del i (powerfs_req_tree_insert rb i sa)) @ [i]\<rparr>)
      in if rq_async (cn_reqs st i) \<and> rq_deadline (cn_reqs st i) then upd_req i (\<lambda>r. r\<lparr>rq_timer := True\<rparr>) st else st)"
    using assms unfolding do_send_enqueue_def Let_def sa_def by (simp add: idle_def)
  then have "do_send_enqueue rb i st = (if rq_async (cn_reqs st2 i) \<and> rq_deadline (cn_reqs st2 i)
      then upd_req i (\<lambda>r. r\<lparr>rq_timer := True\<rparr>) st2 else st2)"
    unfolding ins Let_def st2_def .
  then have last: "same_core st2 (do_send_enqueue rb i st)" by simp
  have mid: "same_core st1 st2"
    by (auto simp: st2_def same_core_def core_def tx_del_def fun_eq_iff)
  have "same_core (upd_req i (\<lambda>r. r\<lparr>rq_seq := cn_seq st + 1, rq_completed := 0, rq_node := OnPending, rq_in_tree := True\<rparr>)
      (st\<lparr>cn_pending := cn_pending st @ [i],
          cn_tree := fst rb (req_link ((key_of st)(i := cn_seq st + 1)) i (cn_tree st))\<rparr>)) st1"
    by (auto simp: st1_def same_core_def core_def fun_eq_iff)
  from same_core_trans [OF same_core_trans [OF this mid] last] show ?thesis .
qed

lemma submit_post:
  assumes rb: "rb_laws rb" and inv: "req_inv st" and ok: "req_ok (Submit i) st"
  defines "st' \<equiv> do_send_enqueue rb i st"
  shows "req_inv st'" "account st' j = (if j = i then 1 else account st j)"
proof -
  have idle: "idle st i" and free: "\<forall>j\<in>set (cn_pending st). rq_seq (cn_reqs st j) \<noteq> cn_seq st + 1"
    using ok by auto
  define key where "key = (key_of st)(i := cn_seq st + 1)"
  define s2 where "s2 = upd_req i (\<lambda>r. r\<lparr>rq_seq := cn_seq st + 1, rq_completed := 0, rq_node := OnPending, rq_in_tree := True\<rparr>)
      (st\<lparr>cn_pending := cn_pending st @ [i], cn_tree := fst rb (req_link key i (cn_tree st))\<rparr>)"
  have same: "same_core s2 st'"
    unfolding s2_def st'_def key_def by (rule do_send_enqueue_core [OF idle])
  have acc: "account s2 j = (if j = i then 1 else account st j)" for j
    using idle by (simp add: s2_def account_def idle_def)
  have no: "i \<notin> set_tree (cn_tree st)" "i \<notin> set (cn_pending st)" "i \<notin> set (cn_cancel st)"
    "set_tree (cn_tree st) = set (cn_pending st)"
    using inv idle by (auto simp: req_inv_def tree_ok_def lists_ok_def idle_def)
  have old: "map key (inorder (cn_tree st)) = map (key_of st) (inorder (cn_tree st))"
    using no(1) by (auto simp: key_def)
  have "sorted_wrt (<) (map key (inorder (req_link key i (cn_tree st))))"
    by (rule req_link_sorted) (use inv free no in \<open>auto simp: old req_inv_def tree_ok_def key_def\<close>)
  moreover have "key_of s2 = key" by (auto simp: s2_def key_def)
  moreover have tr: "inorder (cn_tree s2) = inorder (req_link key i (cn_tree st))"
    using rb by (simp add: s2_def rb_laws_def)
  moreover from arg_cong [OF tr, of set] have "set_tree (cn_tree s2) = insert i (set_tree (cn_tree st))" by simp
  ultimately have "tree_ok s2"
    using inv unfolding tree_ok_def by (auto simp: s2_def req_inv_def tree_ok_def)
  moreover have "lists_ok s2"
    using inv idle no by (auto simp: req_inv_def lists_ok_def s2_def idle_def)
  moreover have "walk_ok s2" using inv by (simp add: req_inv_def walk_ok_def s2_def)
  ultimately have "req_inv s2" using inv acc by (simp add: req_inv_def)
  then show "req_inv st'" "account st' j = (if j = i then 1 else account st j)"
    using same_core_inv [OF same] same_core_account [OF same] acc by auto
qed

lemma complete_post:
  assumes inv: "req_inv st" and i: "i \<in> set (cn_owed st)"
  shows "req_inv (powerfs_req_complete i st)" "account (powerfs_req_complete i st) j = account st j"
proof -
  have d: "distinct (cn_owed st)" using inv by (simp add: req_inv_def lists_ok_def)
  show acc: "account (powerfs_req_complete i st) j = account st j" for j
    using i d by (auto simp: account_def powerfs_req_complete_def)
  have keys: "key_of (powerfs_req_complete i st) = key_of st" by (auto simp: powerfs_req_complete_def)
  have "tree_ok (powerfs_req_complete i st)"
    using inv unfolding req_inv_def tree_ok_def keys by (auto simp: powerfs_req_complete_def)
  moreover have "lists_ok (powerfs_req_complete i st)"
    using inv d unfolding req_inv_def lists_ok_def by (auto simp: powerfs_req_complete_def)
  moreover have "walk_ok (powerfs_req_complete i st)"
    using inv by (simp add: req_inv_def walk_ok_def powerfs_req_complete_def)
  ultimately show "req_inv (powerfs_req_complete i st)" using inv acc by (simp add: req_inv_def)
qed

text \<open>Cancellation.\<close>

lemma cancel_mark_sel:
  assumes rb: "rb_laws rb" and "set_tree (cn_tree st) = {i. rq_in_tree (cn_reqs st i)}"
  shows "inorder (cn_tree (cancel_mark rb xs st)) = filter (\<lambda>j. j \<notin> set xs) (inorder (cn_tree st)) \<and>
    cn_reqs (cancel_mark rb xs st) = (\<lambda>j. if j \<in> set xs then (cn_reqs st j)\<lparr>rq_in_tree := False,
      rq_error := - ENOTCONN, rq_node := OnCancel\<rparr> else cn_reqs st j) \<and>
    cn_pending (cancel_mark rb xs st) = cn_pending st \<and> cn_owed (cancel_mark rb xs st) = cn_owed st \<and>
    cn_cancel (cancel_mark rb xs st) = cn_cancel st"
  using assms(2)
proof (induction xs arbitrary: st)
  case (Cons i xs)
  define s1 where "s1 = upd_req i (\<lambda>r. r\<lparr>rq_error := - ENOTCONN, rq_node := OnCancel\<rparr>) (powerfs_req_tree_remove rb i st)"
  note t = tree_remove_sel [OF rb Cons.prems, of i]
  have s1: "inorder (cn_tree s1) = filter (\<lambda>j. j \<noteq> i) (inorder (cn_tree st))"
    "cn_reqs s1 = (cn_reqs st)(i := (cn_reqs st i)\<lparr>rq_in_tree := False, rq_error := - ENOTCONN, rq_node := OnCancel\<rparr>)"
    "cn_pending s1 = cn_pending st" "cn_owed s1 = cn_owed st" "cn_cancel s1 = cn_cancel st"
    by (simp_all add: s1_def t)
  from arg_cong [OF s1(1), of set] have "set_tree (cn_tree s1) = {j. rq_in_tree (cn_reqs s1 j)}"
    using Cons.prems by (auto simp: s1(2))
  note IH = Cons.IH [OF this]
  have filt: "filter (\<lambda>j. j \<notin> set xs) (filter (\<lambda>j. j \<noteq> i) ys) = filter (\<lambda>j. j \<notin> set (i # xs)) ys" for ys
    by (auto intro: filter_cong)
  show ?case
    unfolding cancel_mark.simps s1_def [symmetric] using IH s1 filt by (auto simp: fun_eq_iff)
qed simp

lemma cancel_begin_post:
  assumes rb: "rb_laws rb" and inv: "req_inv st" and pos: "cn_pos st = None"
  shows "req_inv (cancel_begin rb st)" "account (cancel_begin rb st) j = account st j"
proof -
  define xs where "xs = cn_pending st"
  define s0 where "s0 = st\<lparr>cn_pending := [], cn_cancel := xs\<rparr>"
  define st' where "st' = cancel_begin rb st"
  have tree: "set_tree (cn_tree s0) = {i. rq_in_tree (cn_reqs s0 i)}"
    using inv by (simp add: s0_def req_inv_def tree_ok_def)
  note m = cancel_mark_sel [OF rb tree, of xs]
  have none: "cn_cancel st = []" using inv pos by (auto simp: req_inv_def walk_ok_def split: list.splits)
  have xs: "set xs = {i. rq_in_tree (cn_reqs st i)}" "distinct xs"
    using inv by (auto simp: xs_def req_inv_def tree_ok_def lists_ok_def)
  have s: "inorder (cn_tree st') = []"
    "cn_reqs st' = (\<lambda>j. if j \<in> set xs then (cn_reqs st j)\<lparr>rq_in_tree := False,
      rq_error := - ENOTCONN, rq_node := OnCancel\<rparr> else cn_reqs st j)"
    "cn_pending st' = []" "cn_owed st' = cn_owed st" "cn_cancel st' = xs"
    "cn_pos st' = (case xs of [] \<Rightarrow> None | i # _ \<Rightarrow> Some i)"
    "cn_nxt st' = (case xs of _ # j # _ \<Rightarrow> Some j | _ \<Rightarrow> None)"
    using m tree xs(1) unfolding st'_def cancel_begin_def Let_def xs_def [symmetric] s0_def [symmetric]
    by (auto simp: s0_def filter_empty_conv)
  have st_xs: "rq_node (cn_reqs st i) = OnPending \<longleftrightarrow> i \<in> set xs" "rq_node (cn_reqs st i) \<noteq> OnCancel" for i
    using inv none xs by (auto simp: req_inv_def tree_ok_def lists_ok_def)
  have acc: "account st' j = account st j" for j
    using xs(1) st_xs by (simp add: account_def s)
  have owed: "i \<in> set (cn_owed st) \<Longrightarrow> i \<notin> set xs" for i
    using inv st_xs [of i] by (auto simp: req_inv_def lists_ok_def)
  have "cn_tree st' = Leaf" using s(1) by (cases "cn_tree st'") auto
  then have "tree_ok st'" using xs(1) st_xs by (auto simp: tree_ok_def s)
  moreover have "lists_ok st'"
    using inv xs st_xs owed unfolding req_inv_def lists_ok_def by (auto simp: s)
  moreover have "walk_ok st'" by (simp add: walk_ok_def s)
  ultimately have "req_inv st'" using inv acc by (simp add: req_inv_def)
  then show "req_inv (cancel_begin rb st)" "account (cancel_begin rb st) j = account st j"
    using acc by (simp_all add: st'_def)
qed

lemma disconnect_begin_post:
  assumes rb: "rb_laws rb" and inv: "req_inv st" and pos: "cn_pos st = None"
  shows "req_inv (disconnect_begin rb st) \<and> account (disconnect_begin rb st) j = account st j"
proof -
  have same: "same_core st (st\<lparr>cn_connected := False\<rparr>)" by simp
  have "req_inv (st\<lparr>cn_connected := False\<rparr>)" using same_core_post [OF same inv] by blast
  from cancel_begin_post [OF rb this] pos show ?thesis
    using inv same_core_account [OF same] by (simp add: disconnect_begin_def)
qed

lemma cancel_step_post:
  assumes inv: "req_inv st"
  shows "req_inv (cancel_step st)" "account (cancel_step st) j = account st j"
proof -
  have "req_inv (cancel_step st) \<and> account (cancel_step st) j = account st j"
  proof (cases "cn_cancel st")
    case Nil
    then have "cancel_step st = st" using inv by (simp add: req_inv_def walk_ok_def cancel_step_def)
    then show ?thesis using inv by simp
  next
    case (Cons i rest)
    have pos: "cn_pos st = Some i" "cn_nxt st = (case rest of [] \<Rightarrow> None | k # _ \<Rightarrow> Some k)"
      using inv Cons by (auto simp: req_inv_def walk_ok_def split: list.splits)
    have oc: "rq_node (cn_reqs st i) = OnCancel" using inv Cons by (auto simp: req_inv_def lists_ok_def)
    have i: "rq_node (cn_reqs st i) = OnCancel" "i \<notin> set rest" "i \<notin> set (cn_owed st)" "i \<notin> set (cn_pending st)"
      "distinct rest" using inv Cons oc by (auto simp: req_inv_def lists_ok_def)
    define st' where "st' = cancel_step st"
    have s: "cn_reqs st' = (cn_reqs st)(i := (cn_reqs st i)\<lparr>rq_node := Unlinked, rq_timer := False,
        rq_completed := rq_completed (cn_reqs st i) + 1\<rparr>)"
      "cn_tree st' = cn_tree st" "cn_pending st' = cn_pending st" "cn_owed st' = cn_owed st" "cn_cancel st' = rest"
      "cn_pos st' = cn_nxt st" "cn_nxt st' = (case cn_nxt st of None \<Rightarrow> None | Some j \<Rightarrow> list_next rest j)"
      using pos i Cons unfolding st'_def cancel_step_def
      by (auto simp: powerfs_req_complete_def node_del_def Let_def remove1_idem removeAll_id split: option.split)
    have keys: "key_of st' = key_of st" by (auto simp: s)
    have acc: "account st' k = account st k" for k using i by (simp add: account_def s)
    have "tree_ok st'"
      using inv i(1) unfolding req_inv_def tree_ok_def keys by (auto simp: s)
    moreover have "lists_ok st'"
      using inv i Cons unfolding req_inv_def lists_ok_def by (auto simp: s)
    moreover have "walk_ok st'"
      using pos(2) i(5) by (cases rest) (auto simp: walk_ok_def s list_next_def split: list.splits)
    ultimately show ?thesis using inv acc by (simp add: req_inv_def st'_def)
  qed
  then show "req_inv (cancel_step st)" "account (cancel_step st) j = account st j" by auto
qed

text \<open>The operations that end the flight of a request.\<close>

lemma lookup_correct:
  assumes "req_inv st"
  shows "powerfs_req_tree_lookup st seq = Some i \<longleftrightarrow> rq_in_tree (cn_reqs st i) \<and> rq_seq (cn_reqs st i) = seq"
  using assms req_search_correct [of "key_of st" "cn_tree st" seq i]
  by (auto simp: powerfs_req_tree_lookup_def req_inv_def tree_ok_def)

lemma rx_match_eq:
  assumes "req_inv st" "powerfs_req_tree_lookup st seq = Some i"
  shows "rx_match rb seq st = (Some i, (req_detach rb i st)\<lparr>cn_owed := i # cn_owed (req_detach rb i st)\<rparr>)"
  using assms lookup_correct [OF assms(1), of seq i]
  by (auto simp: rx_match_def req_detach_def req_inv_def tree_ok_def Let_def)

lemma take_post:
  assumes rb: "rb_laws rb" and inv: "req_inv st" and i: "rq_in_tree (cn_reqs st i)"
    and same: "same_core ((req_detach rb i st)\<lparr>cn_owed := i # cn_owed st\<rparr>) st'"
  shows "req_inv st' \<and> account st' j = account st j"
  using detach_owe [OF rb inv i] same_core_inv [OF same] same_core_account [OF same] by simp

lemma match_post:
  assumes rb: "rb_laws rb" and inv: "req_inv st"
  shows "req_inv (snd (rx_match rb seq st)) \<and> account (snd (rx_match rb seq st)) j = account st j"
proof (cases "powerfs_req_tree_lookup st seq")
  case None
  then show ?thesis using inv by (simp add: rx_match_def)
next
  case (Some i)
  have "rq_in_tree (cn_reqs st i)" using Some lookup_correct [OF inv] by simp
  then show ?thesis
    by (rule take_post [OF rb inv]) (simp add: rx_match_eq [OF inv Some] detach_sel [OF rb inv])
qed

lemma timeout_post:
  assumes rb: "rb_laws rb" and inv: "req_inv st"
  shows "req_inv (powerfs_req_timeout_fn rb i st) \<and> account (powerfs_req_timeout_fn rb i st) j = account st j"
proof (cases "rq_in_tree (cn_reqs st i)")
  case True
  show ?thesis
    by (rule take_post [OF rb inv True])
      (use True in \<open>auto simp: powerfs_req_timeout_fn_def Let_def same_core_def core_def fun_eq_iff tx_del_def
        detach_sel [OF rb inv]\<close>)
qed (use inv in \<open>simp add: powerfs_req_timeout_fn_def\<close>)

lemma tx_fail_post:
  assumes rb: "rb_laws rb" and inv: "req_inv st"
  shows "req_inv (tx_fail rb i st) \<and> account (tx_fail rb i st) j = account st j"
proof (cases "rq_in_tree (cn_reqs st i)")
  case True
  show ?thesis
    by (rule take_post [OF rb inv True])
      (use True in \<open>auto simp: tx_fail_def Let_def same_core_def core_def fun_eq_iff detach_sel [OF rb inv]\<close>)
next
  case False
  then have "same_core st (tx_fail rb i st)" by (simp add: tx_fail_def)
  then show ?thesis by (rule same_core_post [OF _ inv])
qed

lemma finish_core:
  assumes inv: "req_inv st" and i: "rq_completed (cn_reqs st i) > 0"
  shows "same_core st (snd (do_send_finish rb i st))"
proof -
  have "account st i \<le> 1" using inv by (simp add: req_inv_def)
  then have "\<not> rq_in_tree (cn_reqs st i)" "rq_node (cn_reqs st i) \<noteq> OnCancel"
    using i by (auto simp: account_def)
  then have "rq_node (cn_reqs st i) = Unlinked"
    using inv by (cases "rq_node (cn_reqs st i)") (auto simp: req_inv_def tree_ok_def)
  then show ?thesis
    by (auto simp: do_send_finish_def Let_def same_core_def core_def fun_eq_iff tx_del_def)
qed

text \<open>A waiter that gives up takes its request back if it is still in flight; otherwise nothing changes.\<close>

lemma give_up_core:
  "same_core (if rq_node (cn_reqs st i) \<noteq> Unlinked then req_detach rb i st else st) (snd (do_send_give_up rb err i st))"
  by (auto simp: do_send_give_up_def Let_def same_core_def core_def fun_eq_iff tx_del_def)

lemma give_up_post:
  assumes rb: "rb_laws rb" and inv: "req_inv st" and i: "rq_node (cn_reqs st i) \<noteq> OnCancel"
  shows "req_inv (snd (do_send_give_up rb err i st)) \<and> account (snd (do_send_give_up rb err i st)) j =
    (if j = i \<and> rq_in_tree (cn_reqs st i) then 0 else account st j)"
proof -
  have node: "rq_in_tree (cn_reqs st i) \<longleftrightarrow> rq_node (cn_reqs st i) \<noteq> Unlinked"
    using inv i by (cases "rq_node (cn_reqs st i)") (auto simp: req_inv_def tree_ok_def)
  note c = give_up_core [of st i rb err]
  show ?thesis
  proof (cases "rq_in_tree (cn_reqs st i)")
    case True
    then have "same_core (req_detach rb i st) (snd (do_send_give_up rb err i st))" using c node by simp
    from same_core_post [OF this detach_drop(1) [OF rb inv True]] show ?thesis
      using True detach_drop(2) [OF rb inv True, of j] by simp
  next
    case False
    then have "same_core st (snd (do_send_give_up rb err i st))" using c node by simp
    from same_core_post [OF this inv] show ?thesis using False by simp
  qed
qed

lemma req_exec_post:
  assumes rb: "rb_laws rb" and inv: "req_inv st" and ok: "req_ok op st"
  shows "req_inv (req_exec rb op st) \<and> account (req_exec rb op st) j =
    (if op = Submit j then 1
     else if (\<exists>err. op = GiveUp err j) \<and> rq_in_tree (cn_reqs st j) then 0 else account st j)"
proof (cases op)
  case (Submit i)
  then show ?thesis using submit_post [OF rb inv, of i] ok by (auto simp: powerfs_request_do_send_def)
next
  case (Finish i)
  then have same: "same_core st (req_exec rb op st)" using finish_core [OF inv, of i rb] ok by simp
  show ?thesis using same_core_post [OF same inv] Finish by simp
next
  case (GiveUp err i)
  then show ?thesis using give_up_post [OF rb inv, of i err j] ok by auto
qed (use inv ok complete_post [OF inv] cancel_begin_post [OF rb inv] cancel_step_post [OF inv]
      disconnect_begin_post [OF rb inv] match_post [OF rb inv] timeout_post [OF rb inv] tx_fail_post [OF rb inv]
      same_core_post [OF same_core_ops(2) inv] same_core_post [OF same_core_ops(3) inv]
      same_core_post [OF same_core_ops(4) inv] same_core_post [OF same_core_ops(5) inv]
    in \<open>simp_all\<close>)

interpretation req: op_machine "req_exec rb" req_ok "\<lambda>st. rb_laws rb \<and> req_inv st" for rb
  by unfold_locales (use req_exec_post in blast)


section \<open>Properties\<close>

lemma run_account:
  assumes rb: "rb_laws rb"
  shows "req_inv st \<Longrightarrow> req.all_ok rb ops st \<Longrightarrow> Submit i \<notin> set ops \<Longrightarrow>
    account (fold (req_exec rb) ops st) i = account st i \<or>
    account (fold (req_exec rb) ops st) i = 0 \<and> (\<exists>err. GiveUp err i \<in> set ops)"
proof (induction ops arbitrary: st)
  case (Cons op ops)
  have ok: "req_ok op st" "req.all_ok rb ops (req_exec rb op st)" using Cons.prems(2) by simp_all
  have post: "req_inv (req_exec rb op st)" "account (req_exec rb op st) i = account st i \<or>
      account (req_exec rb op st) i = 0 \<and> (\<exists>err. op = GiveUp err i)"
    using req_exec_post [OF rb Cons.prems(1) ok(1), of i] Cons.prems(3) by auto
  then show ?case using Cons.IH [OF post(1) ok(2)] Cons.prems(3) by auto
qed simp


text \<open>A fresh connection, and a tree whose rebalancing keeps lists.\<close>

definition request0 :: "bool \<Rightarrow> request" where
  "request0 async = \<lparr>rq_seq = 0, rq_error = 0, rq_async = async, rq_deadline = async, rq_timer = False,
     rq_node = Unlinked, rq_in_tree = False, rq_in_tx = False, rq_completed = 0, rq_returned = False,
     rq_resp_status = 0, rq_resp_body = None, rq_body_cap = 0, rq_body_len = 0, rq_resp_data = None,
     rq_data_cap = 0, rq_data_len = 0\<rparr>"

definition conn0 :: "bool \<Rightarrow> rconn" where
  "conn0 async = \<lparr>cn_connected = True, cn_reqs = (\<lambda>_. request0 async), cn_seq = 0, cn_pending = [], cn_tree = Leaf, cn_tx = [],
     cn_timeouts = 0, cn_owed = [], cn_cancel = [], cn_pos = None, cn_nxt = None, cn_disconnect_work = False\<rparr>"

lemma conn0_inv: "req_inv (conn0 async)"
  by (simp add: req_inv_def tree_ok_def lists_ok_def walk_ok_def account_def conn0_def request0_def)

definition list_tree :: "nat list \<Rightarrow> nat tree" where
  "list_tree xs = foldr (\<lambda>x t. Node Leaf x t) xs Leaf"

definition rb0 :: rb_ops where
  "rb0 = (\<lambda>t. t, \<lambda>i t. list_tree (filter (\<lambda>j. j \<noteq> i) (inorder t)))"

lemma rb0_laws: "rb_laws rb0"
proof -
  have "inorder (list_tree xs) = xs" for xs by (induction xs) (simp_all add: list_tree_def)
  then show ?thesis by (simp add: rb_laws_def rb0_def)
qed

lemmas req_defs = powerfs_request_do_send_def disconnect_begin_def do_send_enqueue_def rx_match_def powerfs_req_timeout_fn_def powerfs_req_complete_def
  do_send_give_up_def tx_del_def node_del_def req_detach_def powerfs_req_tree_insert_def
  powerfs_req_tree_lookup_def powerfs_req_tree_remove_def cancel_begin_def cancel_step_def list_next_def
  conn0_def request0_def rb0_def list_tree_def idle_def


text \<open>The excluded moment: the waiter of the second request on the local list of a cancellation gives up. It
  unlinks the request from that list under the lock of the connection, but the walk runs outside the lock and has
  read the request ahead; it comes to it all the same, finds it linked to itself, and completes it over and over
  without end.\<close>

lemma cancel_step_self:
  assumes "cn_pos st = Some j" "cn_nxt st = Some j" "j \<notin> set (cn_cancel st)"
  shows "cn_pos (cancel_step st) = Some j" "cn_nxt (cancel_step st) = Some j" "j \<notin> set (cn_cancel (cancel_step st))"
    "rq_completed (cn_reqs (cancel_step st) j) = rq_completed (cn_reqs st j) + 1"
  using assms by (simp_all add: cancel_step_def Let_def powerfs_req_complete_def node_del_def list_next_def)

lemma cancel_step_loops:
  assumes "cn_pos st = Some j" "cn_nxt st = Some j" "j \<notin> set (cn_cancel st)"
  shows "cn_pos ((cancel_step ^^ n) st) = Some j \<and> cn_nxt ((cancel_step ^^ n) st) = Some j \<and>
    j \<notin> set (cn_cancel ((cancel_step ^^ n) st)) \<and>
    rq_completed (cn_reqs ((cancel_step ^^ n) st) j) = rq_completed (cn_reqs st j) + n"
  using assms by (induction n) (auto simp: cancel_step_self)

lemma give_up_breaks_cancel_walk:
  assumes rb: "rb_laws rb" and inv: "req_inv st" and c: "cn_cancel st = i # j # rest"
    and st': "st' = (cancel_step ^^ Suc n) (snd (do_send_give_up rb err j st))"
  shows "cn_pos st' = Some j \<and> rq_completed (cn_reqs st' j) = rq_completed (cn_reqs st j) + n"
proof -
  let ?g = "snd (do_send_give_up rb err j st)"
  have d: "i \<noteq> j" "j \<notin> set rest" "i \<notin> set rest" "rq_node (cn_reqs st j) \<noteq> Unlinked"
    using inv c by (auto simp: req_inv_def lists_ok_def)
  have g: "cn_cancel ?g = i # rest" "cn_pos ?g = Some i" "cn_nxt ?g = Some j"
    "rq_completed (cn_reqs ?g j) = rq_completed (cn_reqs st j)"
    using give_up_core [of st j rb err] d inv c
    by (auto simp: same_core_sel detach_sel [OF rb inv] req_inv_def walk_ok_def)
  have "cn_pos (cancel_step ?g) = Some j" "cn_nxt (cancel_step ?g) = Some j" "j \<notin> set (cn_cancel (cancel_step ?g))"
    "rq_completed (cn_reqs (cancel_step ?g) j) = rq_completed (cn_reqs st j)"
    using g d by (simp_all add: cancel_step_def Let_def powerfs_req_complete_def node_del_def list_next_def)
  then show ?thesis using cancel_step_loops [of "cancel_step ?g" j n] by (simp add: st' funpow_swap1)
qed

text \<open>A response is matched to the one request in flight with its sequence number, whose
  completion the receiver then owes; a response to a request that is no longer in flight (timed out,
  cancelled or answered) is matched to nothing, so a late or repeated response cannot complete another
  request.\<close>

theorem rx_match_correct:
  assumes rb: "rb_laws rb" and inv: "req_inv st" and m: "rx_match rb seq st = (m, st')"
  shows "(m = Some i \<longleftrightarrow> rq_in_tree (cn_reqs st i) \<and> rq_seq (cn_reqs st i) = seq) \<and>
    (m = None \<longrightarrow> st' = st) \<and> (m = Some i \<longrightarrow> cn_owed st' = i # cn_owed st) \<and> fst (rx_match rb seq st') = None"
proof (cases "powerfs_req_tree_lookup st seq")
  case None
  then have "m = None" "st' = st" using m by (simp_all add: rx_match_def)
  then show ?thesis using None lookup_correct [OF inv, of seq i] m by auto
next
  case (Some k)
  have mk: "m = Some k" "st' = (req_detach rb k st)\<lparr>cn_owed := k # cn_owed st\<rparr>"
    using m by (simp_all add: rx_match_eq [OF inv Some] detach_sel [OF rb inv])
  have k: "rq_in_tree (cn_reqs st k)" "rq_seq (cn_reqs st k) = seq" using Some lookup_correct [OF inv] by simp_all
  have inv': "req_inv st'" using detach_owe(1) [OF rb inv k(1)] mk(2) by simp
  have "powerfs_req_tree_lookup st' seq = None"
  proof (rule ccontr)
    assume "powerfs_req_tree_lookup st' seq \<noteq> None"
    then obtain j where "rq_in_tree (cn_reqs st' j)" "rq_seq (cn_reqs st' j) = seq"
      using lookup_correct [OF inv'] by auto
    then have j: "j \<noteq> k" "rq_in_tree (cn_reqs st j)" "rq_seq (cn_reqs st j) = seq"
      by (auto simp: mk(2) detach_sel [OF rb inv] split: if_splits)
    then have "powerfs_req_tree_lookup st seq = Some j" using lookup_correct [OF inv] by blast
    then show False using Some j(1) by simp
  qed
  then have "fst (rx_match rb seq st') = None" by (simp add: rx_match_def)
  moreover have "m = Some i \<longleftrightarrow> rq_in_tree (cn_reqs st i) \<and> rq_seq (cn_reqs st i) = seq"
    using lookup_correct [OF inv, of seq i] Some mk(1) by simp
  ultimately show ?thesis using mk by auto
qed

theorem rx_match_correct_witness:
  "let st = fold (req_exec rb0) [Submit 4, Submit 7] (conn0 True)
   in fst (rx_match rb0 2 st) = Some 7 \<and> fst (rx_match rb0 2 (snd (rx_match rb0 2 st))) = None"
proof -
  let ?st = "fold (req_exec rb0) [Submit 4, Submit 7] (conn0 True)"
  have "req.all_ok rb0 [Submit 4, Submit 7] (conn0 True)" by (simp add: req_defs Let_def)
  then have inv: "req_inv ?st"
    using req.run_inv [of rb0 "conn0 True" "[Submit 4, Submit 7]"] rb0_laws conn0_inv
    by (simp only: req.run_fold)
  obtain m st' where m: "rx_match rb0 2 ?st = (m, st')" by (cases "rx_match rb0 2 ?st")
  have "rq_in_tree (cn_reqs ?st 7) \<and> rq_seq (cn_reqs ?st 7) = 2" by (simp add: req_defs Let_def)
  then show ?thesis using rx_match_correct [OF rb0_laws inv m, of 7] m by (simp add: Let_def)
qed

text \<open>A synchronous caller whose wait ends while the receiver is between matching the response and
  completing the request returns at once, although the receiver still owes the completion: the receiver
  then fills in and completes a request whose caller has returned and may have freed it.\<close>

theorem do_send_returns_while_owed:
  assumes rb: "rb_laws rb" and inv: "req_inv st" and flight: "rq_in_tree (cn_reqs st i)"
    and m: "rx_match rb (rq_seq (cn_reqs st i)) st = (m, st1)" and g: "do_send_give_up rb ETIMEDOUT i st1 = (ret, st2)"
  shows "m = Some i \<and> i \<in> set (cn_owed st2) \<and> rq_returned (cn_reqs st2 i) \<and>
    rq_completed (cn_reqs st2 i) = 0 \<and> ret = rq_error (cn_reqs st i)"
proof -
  have look: "powerfs_req_tree_lookup st (rq_seq (cn_reqs st i)) = Some i"
    using lookup_correct [OF inv] flight by simp
  have s1: "m = Some i" "st1 = (req_detach rb i st)\<lparr>cn_owed := i # cn_owed st\<rparr>"
    using m by (simp_all add: rx_match_eq [OF inv look] detach_sel [OF rb inv])
  have "account st i \<le> 1" using inv by (simp add: req_inv_def)
  then have "rq_completed (cn_reqs st i) = 0" using flight by (simp add: account_def)
  then show ?thesis
    using g s1 by (auto simp: do_send_give_up_def Let_def tx_del_def detach_sel [OF rb inv] split: if_splits)
qed

theorem do_send_returns_while_owed_witness:
  "let st1 = snd (rx_match rb0 1 (do_send_enqueue rb0 4 (conn0 False)));
       st2 = snd (do_send_give_up rb0 ETIMEDOUT 4 st1)
   in 4 \<in> set (cn_owed st2) \<and> rq_returned (cn_reqs st2 4)"
proof -
  let ?st = "do_send_enqueue rb0 4 (conn0 False)"
  have inv: "req_inv ?st" using submit_post(1) [OF rb0_laws conn0_inv, of 4 False] by (simp add: req_defs)
  have f: "rq_in_tree (cn_reqs ?st 4)" "rq_seq (cn_reqs ?st 4) = 1" by (simp_all add: req_defs Let_def)
  obtain m st1 where m: "rx_match rb0 (rq_seq (cn_reqs ?st 4)) ?st = (m, st1)"
    by (cases "rx_match rb0 (rq_seq (cn_reqs ?st 4)) ?st")
  obtain ret st2 where g: "do_send_give_up rb0 ETIMEDOUT 4 st1 = (ret, st2)"
    by (cases "do_send_give_up rb0 ETIMEDOUT 4 st1")
  show ?thesis using do_send_returns_while_owed [OF rb0_laws inv f(1) m g] m g f(2) by (simp add: Let_def)
qed

end
