(* ===== verification/Caps.thy ===== *)
theory Caps
  imports Layout
begin

unbundle bit_operations_syntax

text \<open>
  Capabilities (\<open>powerfs_caps.c\<close>): what the metadata server allows this client to cache and to write,
  per inode. The tree \<open>i_caps\<close> of an inode is the list of its caps in the order of \<open>rb_next\<close>, sorted by
  issuer, and a pointer to a cap is its issuer. The C strings of tokens are byte lists without the
  terminating zero. What the code only calls (remote calls, write-back, the allocator, the clock) is
  the environment \<open>cenv\<close> of an operation, with the changes other threads make while \<open>i_lock\<close> is
  dropped during a flush; the calls that matter to another machine are recorded in \<open>i_log\<close>.
\<close>

section \<open>Capability bits\<close>

abbreviation CAP_PIN :: u32 where "CAP_PIN \<equiv> 1"
abbreviation CAP_AUTH_SHARED :: u32 where "CAP_AUTH_SHARED \<equiv> 2"
abbreviation CAP_AUTH_EXCL :: u32 where "CAP_AUTH_EXCL \<equiv> 4"
abbreviation CAP_LINK_SHARED :: u32 where "CAP_LINK_SHARED \<equiv> 8"
abbreviation CAP_XATTR_SHARED :: u32 where "CAP_XATTR_SHARED \<equiv> 16"
abbreviation CAP_XATTR_EXCL :: u32 where "CAP_XATTR_EXCL \<equiv> 32"
abbreviation CAP_FILE_SHARED :: u32 where "CAP_FILE_SHARED \<equiv> 64"
abbreviation CAP_FILE_CACHE :: u32 where "CAP_FILE_CACHE \<equiv> 128"
abbreviation CAP_FILE_WR :: u32 where "CAP_FILE_WR \<equiv> 256"
abbreviation CAP_FILE_EXCL :: u32 where "CAP_FILE_EXCL \<equiv> 512"
abbreviation CAP_WR_DATA :: u32 where "CAP_WR_DATA \<equiv> CAP_FILE_WR OR CAP_FILE_EXCL"
abbreviation CAP_ANY_RD :: u32 where "CAP_ANY_RD \<equiv> CAP_AUTH_SHARED OR CAP_FILE_SHARED"
abbreviation CAP_ANY_DIRTY :: u32 where "CAP_ANY_DIRTY \<equiv> CAP_AUTH_EXCL OR CAP_WR_DATA OR CAP_XATTR_EXCL"
abbreviation NET_CAP_R :: u8 where "NET_CAP_R \<equiv> 1"
abbreviation NET_CAP_W :: u8 where "NET_CAP_W \<equiv> 2"
abbreviation NET_CAP_X :: u8 where "NET_CAP_X \<equiv> 4"

abbreviation has :: "'a::len word \<Rightarrow> 'a word \<Rightarrow> bool" where "has k m \<equiv> k AND m \<noteq> 0"
abbreviation covers :: "'a::len word \<Rightarrow> 'a word \<Rightarrow> bool" where "covers k m \<equiv> m AND NOT k = 0"

definition wire_capset_to_kernel_bits :: "u8 \<Rightarrow> u32" where
  "wire_capset_to_kernel_bits w =
    CAP_PIN OR
    (if has w NET_CAP_R then CAP_AUTH_SHARED OR CAP_FILE_SHARED OR CAP_FILE_CACHE OR CAP_XATTR_SHARED OR
      CAP_LINK_SHARED else 0) OR
    (if has w NET_CAP_W then CAP_FILE_WR else 0) OR
    (if has w NET_CAP_X then CAP_FILE_EXCL OR CAP_AUTH_EXCL OR CAP_XATTR_EXCL else 0)"

definition kernel_bits_to_wire_capset :: "u32 \<Rightarrow> u8" where
  "kernel_bits_to_wire_capset k =
    (if has k (CAP_FILE_SHARED OR CAP_FILE_CACHE OR CAP_AUTH_SHARED) then NET_CAP_R else 0) OR
    (if has k CAP_FILE_WR then NET_CAP_W else 0) OR
    (if has k (CAP_FILE_EXCL OR CAP_AUTH_EXCL OR CAP_XATTR_EXCL) then NET_CAP_X else 0)"

section \<open>State and environment\<close>

record cap =
  issuer_id :: u64
  issued :: u32
  implemented :: u32
  c_seq :: u64
  issue_seq :: u64
  cap_gen :: u32
  c_token :: bytes
  c_epoch :: u64
  expire_jiffies :: u64
  last_used :: u64
  c_content_size :: u64

datatype cap_event =
    WriteBack int | SyncChunks int | SetAttr int | SetXattr bytes bytes int | UpdateInline bytes int
  | FlushCreates | InvalidatePages | Refresh | RecallAck bytes | Release bytes | LruAdd u64

record cinode =
  i_isdir :: bool
  i_isreg :: bool
  i_size :: u64
  i_nrpages :: u64
  i_count :: int
  i_evicting :: bool
  i_shutdown :: bool
  i_client :: bool
  i_caps :: "cap list"
  i_auth_cap :: "u64 option"
  i_dirty_caps :: u32
  i_flushing_caps :: u32
  i_snap_caps :: u32
  i_prealloc :: bool
  i_flush_list :: "(u64 \<times> u32) list"
  i_release_count :: u64
  i_pin_ref :: int
  i_rd_ref :: int
  i_rdcache_ref :: int
  i_wr_ref :: int
  i_wb_ref :: int
  i_fx_ref :: int
  i_wrbuffer_ref :: int
  i_shared_gen :: u32
  i_rdcache_gen :: u32
  i_nr_rd :: int
  i_nr_wr :: int
  i_last_rd :: u64
  i_last_wr :: u64
  i_complete :: bool
  i_dir_complete :: bool
  i_local_cap :: bool
  i_placement :: u8
  i_inline :: "bytes option"
  i_inline_len :: u32
  i_inline_dirty :: bool
  i_log :: "cap_event list"

record grant =
  g_ret :: int
  g_token :: bytes
  g_wire :: u8
  g_epoch :: u64
  g_sn :: u64
  g_dur :: u64

text \<open>One name of the extended attribute list: what the size probe, the allocation, the read and the
  remote call give.\<close>

record xattr_try =
  x_key :: bytes
  x_probe :: int
  x_alloc :: bool
  x_got :: int
  x_val :: bytes
  x_ret :: int

record cenv =
  jiffies :: u64
  hz :: u64
  msecs_to_jiffies :: "u32 \<Rightarrow> u64"
  e_cap_alloc :: bool
  e_flush_alloc :: bool
  e_flush_atomic :: bool
  e_writeback :: int
  e_chunks :: int
  e_setattr :: int
  e_list_sz :: int
  e_list_alloc :: bool
  e_list_got :: int
  e_xattrs :: "xattr_try list"
  e_align :: int
  e_snap_alloc :: bool
  e_inline_rpc :: "nat \<Rightarrow> int"
  e_others :: "nat \<Rightarrow> cinode \<Rightarrow> cinode"
  e_grant :: "bool \<Rightarrow> grant"
  e_acquire :: "bytes \<Rightarrow> u8 \<Rightarrow> grant"
  e_ack :: "bytes \<Rightarrow> int \<times> u8"
  e_release :: "bytes \<Rightarrow> bool \<times> grant"

abbreviation LEASE_DURATION :: "cenv \<Rightarrow> u64" where "LEASE_DURATION e \<equiv> 30 * hz e"
abbreviation DIR_LEASE_TTL :: "cenv \<Rightarrow> u64" where "DIR_LEASE_TTL e \<equiv> 5 * hz e"
abbreviation INODE_CACHE_TTL :: "cenv \<Rightarrow> u64" where "INODE_CACHE_TTL e \<equiv> 10 * hz e"

text \<open>The comparisons of wrapping time stamps of the kernel.\<close>

definition time_after_eq :: "u64 \<Rightarrow> u64 \<Rightarrow> bool" where "time_after_eq a b = (0 \<le> sint (a - b))"
definition time_after :: "u64 \<Rightarrow> u64 \<Rightarrow> bool" where "time_after a b = (sint (b - a) < 0)"

definition c_str :: "bytes \<Rightarrow> bytes" where "c_str bs = takeWhile (\<lambda>b. b \<noteq> 0) bs"

definition get_cap :: "u64 \<Rightarrow> cinode \<Rightarrow> cap option" where
  "get_cap q pi = find (\<lambda>c. issuer_id c = q) (i_caps pi)"

definition upd_cap :: "u64 \<Rightarrow> (cap \<Rightarrow> cap) \<Rightarrow> cinode \<Rightarrow> cinode" where
  "upd_cap q f pi = pi\<lparr>i_caps := map (\<lambda>c. if issuer_id c = q then f c else c) (i_caps pi)\<rparr>"

abbreviation log_ev :: "cap_event \<Rightarrow> cinode \<Rightarrow> cinode" where
  "log_ev ev pi \<equiv> pi\<lparr>i_log := i_log pi @ [ev]\<rparr>"

section \<open>Which bits are held, used and wanted\<close>

definition powerfs_cap_is_valid :: "cenv \<Rightarrow> cap \<Rightarrow> bool" where
  "powerfs_cap_is_valid e c =
    (cap_gen c \<noteq> 0 \<and> \<not> (expire_jiffies c \<noteq> 0 \<and> time_after_eq (jiffies e) (expire_jiffies c)))"

text \<open>The result is the pair of the bits issued and of the output \<open>implemented\<close>.\<close>

definition powerfs_caps_issued :: "cenv \<Rightarrow> cinode \<Rightarrow> u32 \<times> u32" where
  "powerfs_caps_issued e pi =
    (let (have, impl) = fold (\<lambda>c (have, impl).
           if powerfs_cap_is_valid e c then (have OR issued c, impl OR implemented c) else (have, impl))
           (i_caps pi) (i_snap_caps pi, 0)
     in case Option.bind (i_auth_cap pi) (\<lambda>q. get_cap q pi) of
          None \<Rightarrow> (have, impl)
        | Some c \<Rightarrow> (have AND (NOT (implemented c) OR issued c), impl))"

text \<open>\<open>issued_mask_loop done have rest\<close>: the caps of \<open>done\<close> have been visited (in order).\<close>

fun issued_mask_loop :: "cenv \<Rightarrow> u32 \<Rightarrow> bool \<Rightarrow> cap list \<Rightarrow> u32 \<Rightarrow> cap list \<Rightarrow> bool \<times> cap list" where
  "issued_mask_loop e m touch seen have [] = (False, seen)"
| "issued_mask_loop e m touch seen have (c # cs) =
    (if \<not> powerfs_cap_is_valid e c then issued_mask_loop e m touch (seen @ [c]) have cs
     else if issued c AND m = m then
       (True, seen @ (if touch then c\<lparr>last_used := jiffies e\<rparr> else c) # cs)
     else if (have OR issued c) AND m = m then
       (True, if touch then
          map (\<lambda>c. if powerfs_cap_is_valid e c \<and> has (issued c) m then c\<lparr>last_used := jiffies e\<rparr> else c) seen
          @ c\<lparr>last_used := jiffies e\<rparr> # cs
        else seen @ c # cs)
     else issued_mask_loop e m touch (seen @ [c]) (have OR issued c) cs)"

definition powerfs_caps_issued_mask :: "cenv \<Rightarrow> u32 \<Rightarrow> bool \<Rightarrow> cinode \<Rightarrow> bool \<times> cinode" where
  "powerfs_caps_issued_mask e m touch pi =
    (if i_snap_caps pi AND m = m then (True, pi)
     else let (r, cs) = issued_mask_loop e m touch [] (i_snap_caps pi) (i_caps pi)
          in (r, pi\<lparr>i_caps := cs\<rparr>))"

definition powerfs_caps_used :: "cinode \<Rightarrow> u32" where
  "powerfs_caps_used pi =
    (if i_pin_ref pi \<noteq> 0 then CAP_PIN else 0) OR
    (if i_rd_ref pi \<noteq> 0 then CAP_FILE_SHARED else 0) OR
    (if i_rdcache_ref pi \<noteq> 0 \<or> i_isreg pi \<and> i_nrpages pi \<noteq> 0 then CAP_FILE_CACHE else 0) OR
    (if i_wr_ref pi \<noteq> 0 then CAP_FILE_WR else 0) OR
    (if i_wb_ref pi \<noteq> 0 \<or> i_wrbuffer_ref pi \<noteq> 0 then CAP_FILE_WR else 0) OR
    (if i_fx_ref pi \<noteq> 0 then CAP_FILE_EXCL else 0)"

definition powerfs_caps_file_wanted :: "cenv \<Rightarrow> cinode \<Rightarrow> u32" where
  "powerfs_caps_file_wanted e pi =
    (let used_cutoff = jiffies e - DIR_LEASE_TTL e;
         idle_cutoff = jiffies e - INODE_CACHE_TTL e
     in if i_isdir pi then
       let want = (if i_nr_rd pi > 0 \<or> time_after (i_last_rd pi) used_cutoff then CAP_ANY_RD else 0);
           want = (if i_nr_wr pi > 0 \<or> time_after (i_last_wr pi) used_cutoff
                   then want OR CAP_ANY_RD OR CAP_FILE_EXCL else want)
       in if want \<noteq> 0 \<or> i_nr_rd pi > 0 then want OR CAP_PIN else want
     else
       let want = (if i_nr_rd pi > 0 then CAP_FILE_SHARED OR CAP_FILE_CACHE
                   else if time_after (i_last_rd pi) idle_cutoff then CAP_FILE_SHARED OR CAP_FILE_CACHE
                   else 0);
           want = (if i_nr_wr pi > 0 \<or> time_after (i_last_wr pi) used_cutoff
                   then want OR CAP_FILE_WR OR CAP_FILE_EXCL else want)
       in if want \<noteq> 0 then want OR CAP_PIN else want)"

definition powerfs_caps_wanted :: "cenv \<Rightarrow> cinode \<Rightarrow> u32" where
  "powerfs_caps_wanted e pi =
    (let w = powerfs_caps_file_wanted e pi OR powerfs_caps_used pi
     in if i_isdir pi then (if has w CAP_FILE_EXCL then w OR CAP_FILE_EXCL else w)
        else (if has (i_dirty_caps pi) CAP_ANY_DIRTY then w OR CAP_FILE_EXCL else w))"

section \<open>Grant\<close>

definition find_cap_by_token_locked :: "cinode \<Rightarrow> bytes \<Rightarrow> u64 option" where
  "find_cap_by_token_locked pi token =
    (if token = [] then i_auth_cap pi
     else case find (\<lambda>c. c_token c = token) (i_caps pi) of
            Some c \<Rightarrow> Some (issuer_id c)
          | None \<Rightarrow> i_auth_cap pi)"

definition cap_zero :: "u64 \<Rightarrow> cap" where
  "cap_zero q = \<lparr>issuer_id = q, issued = 0, implemented = 0, c_seq = 0, issue_seq = 0, cap_gen = 1,
    c_token = [], c_epoch = 0, expire_jiffies = 0, last_used = 0, c_content_size = 0\<rparr>"

fun cap_insert :: "cap \<Rightarrow> cap list \<Rightarrow> cap list" where
  "cap_insert c [] = [c]"
| "cap_insert c (d # ds) =
    (if issuer_id c < issuer_id d then c # d # ds
     else if issuer_id d < issuer_id c then d # cap_insert c ds
     else d # ds)"

definition add_cap_for_inode_locked :: "cenv \<Rightarrow> u64 \<Rightarrow> cinode \<Rightarrow> u64 option \<times> cinode" where
  "add_cap_for_inode_locked e q pi =
    (if \<not> e_cap_alloc e then (None, pi)
     else if get_cap q pi \<noteq> None then (Some q, pi)
     else
       let pi = pi\<lparr>i_caps := cap_insert (cap_zero q) (i_caps pi)\<rparr>;
           pi = (if i_auth_cap pi = None then pi\<lparr>i_auth_cap := Some q\<rparr> else pi)
       in (Some q, if i_client pi then log_ev (LruAdd q) pi else pi))"

definition powerfs_cap_issue :: "cenv \<Rightarrow> u64 \<Rightarrow> u32 \<Rightarrow> cinode \<Rightarrow> cinode" where
  "powerfs_cap_issue e q bits pi =
    (let had = fst (powerfs_caps_issued e pi);
         pi = upd_cap q (\<lambda>c. c\<lparr>issued := issued c OR bits, implemented := implemented c OR bits,
                cap_gen := 1, expire_jiffies := jiffies e + LEASE_DURATION e\<rparr>) pi;
         pi = (if i_isdir pi \<and> has bits CAP_FILE_SHARED \<and> \<not> has had CAP_FILE_SHARED
               then pi\<lparr>i_shared_gen := i_shared_gen pi + 1, i_complete := False, i_dir_complete := False\<rparr>
               else pi);
         pi = (if i_isreg pi \<and> has bits CAP_FILE_CACHE \<and> \<not> has had CAP_FILE_CACHE
               then pi\<lparr>i_rdcache_gen := i_rdcache_gen pi + 1\<rparr> else pi)
     in if i_auth_cap pi = None then pi\<lparr>i_auth_cap := Some q\<rparr> else pi)"


definition cap_token_set :: "bytes \<Rightarrow> cap \<Rightarrow> cap" where
  "cap_token_set tok c = (if 0 < length tok \<and> length tok < 64 then c\<lparr>c_token := c_str tok\<rparr> else c)"

text \<open>The grant that a failed call is replaced by.\<close>

definition grant_none :: grant where
  "grant_none = \<lparr>g_ret = 0, g_token = [], g_wire = 0, g_epoch = 0, g_sn = 0, g_dur = 0\<rparr>"

definition cap_open_grant_and_issue :: "cenv \<Rightarrow> bool \<Rightarrow> cinode \<Rightarrow> int \<times> cinode" where
  "cap_open_grant_and_issue e is_write pi =
    (let g = e_grant e is_write;
         g = (if g_ret g < 0 then grant_none else g);
         (q, pi) = (case i_auth_cap pi of Some q \<Rightarrow> (Some q, pi) | None \<Rightarrow> add_cap_for_inode_locked e 0 pi)
     in case q of
          None \<Rightarrow> (- ENOMEM, pi)
        | Some q \<Rightarrow>
            let pi = upd_cap q (\<lambda>c. (if g_token g \<noteq> [] then c\<lparr>c_token := c_str (take 63 (g_token g))\<rparr> else c)
                  \<lparr>c_epoch := g_epoch g, c_seq := g_sn g, issue_seq := g_sn g,
                   expire_jiffies := (if g_dur g > 0 then jiffies e + msecs_to_jiffies e (ucast (g_dur g))
                                      else jiffies e + LEASE_DURATION e),
                   c_content_size := i_size pi\<rparr>) pi
            in (g_ret g, powerfs_cap_issue e q (wire_capset_to_kernel_bits (g_wire g)) pi))"

definition cap_open_grant_local :: "cenv \<Rightarrow> bool \<Rightarrow> cinode \<Rightarrow> int \<times> cinode" where
  "cap_open_grant_local e is_write pi =
    (let (q, pi) = (case i_auth_cap pi of Some q \<Rightarrow> (Some q, pi) | None \<Rightarrow> add_cap_for_inode_locked e 0 pi)
     in case q of
          None \<Rightarrow> (- ENOMEM, pi)
        | Some q \<Rightarrow>
            let pi = powerfs_cap_issue e q
                  (if is_write then CAP_AUTH_EXCL OR CAP_FILE_WR OR CAP_FILE_EXCL
                   else CAP_AUTH_SHARED OR CAP_FILE_SHARED OR CAP_FILE_CACHE) pi
            in (0, upd_cap q (\<lambda>c. c\<lparr>expire_jiffies := jiffies e + LEASE_DURATION e,
                     c_content_size := i_size pi\<rparr>) pi))"

section \<open>Flush\<close>

text \<open>A failed step puts its bits back.\<close>

definition flush_rollback :: "u32 \<Rightarrow> cinode \<Rightarrow> cinode" where
  "flush_rollback bits pi =
    pi\<lparr>i_dirty_caps := i_dirty_caps pi OR bits, i_flushing_caps := i_flushing_caps pi AND NOT bits\<rparr>"

abbreviation first_err :: "int \<Rightarrow> int \<Rightarrow> int" where
  "first_err ret err \<equiv> if ret \<noteq> 0 then ret else err"

definition flush_data :: "cenv \<Rightarrow> u32 \<Rightarrow> cinode \<Rightarrow> int \<times> cinode" where
  "flush_data e bits pi =
    (let pi = log_ev (WriteBack (e_writeback e)) (e_others e 0 pi)
     in if e_writeback e < 0 then (e_writeback e, flush_rollback bits pi)
        else if i_placement pi \<in> {PLACEMENT_FLAT, PLACEMENT_STRIPE, PLACEMENT_WIDESTRIPE} then
          let pi = log_ev (SyncChunks (e_chunks e)) pi
          in if e_chunks e < 0 then (e_chunks e, flush_rollback bits pi) else (0, pi)
        else (0, pi))"

definition flush_attr :: "cenv \<Rightarrow> u32 \<Rightarrow> int \<Rightarrow> cinode \<Rightarrow> int \<times> cinode" where
  "flush_attr e bits ret pi =
    (let pi = log_ev (SetAttr (e_setattr e)) (e_others e 1 pi)
     in if e_setattr e < 0 then (first_err ret (e_setattr e), flush_rollback bits pi) else (ret, pi))"

fun xattr_push :: "xattr_try list \<Rightarrow> cinode \<Rightarrow> int \<times> cinode" where
  "xattr_push [] pi = (0, pi)"
| "xattr_push (x # xs) pi =
    (if x_probe x < 0 then xattr_push xs pi
     else if \<not> x_alloc x then (- ENOMEM, pi)
     else if x_probe x > 0 \<and> x_got x \<noteq> x_probe x then (if x_got x < 0 then x_got x else - EIO, pi)
     else let pi = log_ev (SetXattr (x_key x) (x_val x) (x_ret x)) pi
          in if x_ret x < 0 then (x_ret x, pi) else xattr_push xs pi)"

definition flush_xattr :: "cenv \<Rightarrow> u32 \<Rightarrow> int \<Rightarrow> cinode \<Rightarrow> int \<times> cinode" where
  "flush_xattr e bits ret pi =
    (let pi = e_others e 2 pi;
         (err, pi) =
           (if e_list_sz e < 0 then (e_list_sz e, pi)
            else if e_list_sz e = 0 then (0, pi)
            else if \<not> e_list_alloc e then (- ENOMEM, pi)
            else if e_list_got e \<noteq> e_list_sz e then (if e_list_got e < 0 then e_list_got e else - EIO, pi)
            else xattr_push (e_xattrs e) pi)
     in if err < 0 then (first_err ret err, flush_rollback bits pi) else (ret, pi))"

text \<open>The call for the inline data is tried five times.\<close>

fun inline_attempts :: "cenv \<Rightarrow> bytes \<Rightarrow> nat \<Rightarrow> cinode \<Rightarrow> bool \<times> cinode" where
  "inline_attempts e snap 0 pi = (False, pi)"
| "inline_attempts e snap (Suc n) pi =
    (let r = e_inline_rpc e (5 - n); pi = log_ev (UpdateInline snap r) pi
     in if r = 0 then (True, pi) else inline_attempts e snap n pi)"

definition flush_inline :: "cenv \<Rightarrow> int \<Rightarrow> cinode \<Rightarrow> int \<times> cinode" where
  "flush_inline e ret pi =
    (let pi = e_others e 3 pi; keep = (\<lambda>pi. pi\<lparr>i_inline_dirty := True\<rparr>)
     in if e_align e < 0 then (first_err ret (e_align e), keep pi)
        else if e_align e > 0 then (ret, pi)
        else if i_inline pi = None \<or> i_inline_len pi = 0 then (ret, pi\<lparr>i_inline_dirty := False\<rparr>)
        else
          let snap_len = i_inline_len pi; pi = e_others e 4 pi
          in if \<not> e_snap_alloc e then (first_err ret (- ENOMEM), keep pi)
             else case i_inline pi of
               Some d \<Rightarrow>
                 if i_inline_len pi = snap_len then
                   let (synced, pi) = inline_attempts e (take (unat snap_len) d) 5 pi;
                       pi = e_others e 5 pi
                   in if synced then (ret, pi\<lparr>i_inline_dirty := False\<rparr>) else (first_err ret (- EIO), keep pi)
                 else (first_err ret (- EAGAIN), keep pi)
             | None \<Rightarrow> (first_err ret (- EAGAIN), keep pi))"

text \<open>A step that runs only when there is something to push.\<close>

definition flush_step :: "bool \<Rightarrow> (int \<Rightarrow> cinode \<Rightarrow> int \<times> cinode) \<Rightarrow> int \<times> cinode \<Rightarrow> int \<times> cinode" where
  "flush_step needed f s = (if needed then f (fst s) (snd s) else s)"

text \<open>Taking the bits and the flush record, and giving the record back.\<close>

definition flush_begin :: "cenv \<Rightarrow> u32 \<Rightarrow> cinode \<Rightarrow> cinode" where
  "flush_begin e flushing pi =
    pi\<lparr>i_dirty_caps := i_dirty_caps pi AND NOT flushing,
       i_flushing_caps := i_flushing_caps pi OR flushing,
       i_prealloc := i_prealloc pi \<and> e_flush_alloc e,
       i_release_count := i_release_count pi + 1,
       i_flush_list := i_flush_list pi @ [(i_release_count pi + 1, flushing)]\<rparr>"

definition flush_end :: "u64 \<Rightarrow> cinode \<Rightarrow> cinode" where
  "flush_end tid pi =
    pi\<lparr>i_flushing_caps := 0, i_flush_list := filter (\<lambda>f. fst f \<noteq> tid) (i_flush_list pi), i_prealloc := True\<rparr>"

definition powerfs_cap_flush :: "cenv \<Rightarrow> u32 \<Rightarrow> cinode \<Rightarrow> int \<times> cinode" where
  "powerfs_cap_flush e msk pi =
    (let flushing = i_dirty_caps pi AND msk
     in if flushing = 0 then (0, pi\<lparr>i_prealloc := i_prealloc pi \<or> e_flush_alloc e\<rparr>)
        else if \<not> i_prealloc pi \<and> \<not> e_flush_alloc e \<and> \<not> e_flush_atomic e then
          (- ENOMEM, flush_rollback flushing pi)
        else
          let need_data = flushing AND CAP_WR_DATA;
              need_inline = (need_data \<noteq> 0 \<and> i_placement pi = PLACEMENT_INLINE \<and> i_inline_dirty pi);
              need_attr = flushing AND CAP_AUTH_EXCL;
              need_xattr = (if has flushing CAP_XATTR_EXCL then CAP_XATTR_EXCL else 0);
              tid = i_release_count pi + 1;
              s = (0, flush_begin e flushing pi);
              s = flush_step (need_data \<noteq> 0) (\<lambda>_. flush_data e need_data) s;
              s = flush_step (need_attr \<noteq> 0) (flush_attr e need_attr) s;
              s = flush_step (need_xattr \<noteq> 0) (flush_xattr e need_xattr) s;
              s = flush_step need_inline (flush_inline e) s
          in (fst s, flush_end tid (snd s)))"


section \<open>Recall, upgrade and release\<close>

definition cap_send_recall_ack :: "cenv \<Rightarrow> u64 \<Rightarrow> cinode \<Rightarrow> int \<times> cinode" where
  "cap_send_recall_ack e q pi =
    (case get_cap q pi of
       None \<Rightarrow> (- EINVAL, pi)
     | Some c \<Rightarrow>
         if c_token c = [] then (0, pi)
         else
           let (ret, piggyback) = e_ack e (c_token c); pi = log_ev (RecallAck (c_token c)) pi
           in if ret < 0 then (ret, pi)
              else if piggyback \<noteq> 0 then
                (0, powerfs_cap_issue e q (wire_capset_to_kernel_bits piggyback) pi)
              else (0, pi))"

definition cap_send_release :: "cenv \<Rightarrow> u64 \<Rightarrow> cinode \<Rightarrow> int \<times> cinode" where
  "cap_send_release e q pi =
    (case get_cap q pi of
       None \<Rightarrow> (- EINVAL, pi)
     | Some c \<Rightarrow>
         if c_token c = [] then (0, pi)
         else
           let (has_upg, g) = e_release e (c_token c); pi = log_ev (Release (c_token c)) pi
           in if g_ret g < 0 then (g_ret g, pi)
              else if has_upg then
                let pi = upd_cap q (\<lambda>c. (cap_token_set (g_token g) c)
                      \<lparr>c_epoch := g_epoch g, c_seq := g_sn g, issue_seq := g_sn g\<rparr>) pi
                in (0, powerfs_cap_issue e q (wire_capset_to_kernel_bits (g_wire g)) pi)
              else (0, pi))"

text \<open>\<open>powerfs_cap_revoke\<close>: the steps between the downgrade of \<open>issued\<close> and the acknowledgement.\<close>

definition revoke_inline :: "u32 \<Rightarrow> cinode \<Rightarrow> cinode" where
  "revoke_inline revoking pi =
    (if has revoking (CAP_FILE_WR OR CAP_FILE_EXCL) \<and> i_placement pi = PLACEMENT_INLINE then
       let pi = (if \<not> i_inline_dirty pi then pi\<lparr>i_inline := None, i_inline_len := 0\<rparr> else pi)
       in log_ev Refresh (log_ev InvalidatePages pi)
     else pi)"

definition revoke_pages :: "u32 \<Rightarrow> cinode \<Rightarrow> cinode" where
  "revoke_pages revoking pi =
    (if i_isreg pi \<and> i_placement pi \<noteq> PLACEMENT_INLINE \<and>
        has revoking (CAP_FILE_SHARED OR CAP_FILE_CACHE OR CAP_FILE_WR OR CAP_FILE_EXCL)
     then log_ev InvalidatePages pi else pi)"

definition powerfs_cap_revoke :: "cenv \<Rightarrow> u64 \<Rightarrow> u32 \<Rightarrow> cinode \<Rightarrow> cinode" where
  "powerfs_cap_revoke e q revoking pi =
    (let pi = upd_cap q (\<lambda>c. c\<lparr>issued := issued c AND NOT revoking\<rparr>) pi;
         dirty_to_flush = i_dirty_caps pi AND revoking;
         pi = (if dirty_to_flush \<noteq> 0 then snd (powerfs_cap_flush e dirty_to_flush pi) else pi);
         pi = (if has revoking CAP_AUTH_EXCL \<and> i_isdir pi then log_ev FlushCreates pi else pi);
         pi = upd_cap q (\<lambda>c. c\<lparr>implemented := issued c\<rparr>) pi;
         pi = (if has revoking CAP_FILE_SHARED
               then pi\<lparr>i_shared_gen := i_shared_gen pi + 1, i_complete := False, i_dir_complete := False\<rparr>
               else pi);
         pi = revoke_inline revoking pi;
         pi = revoke_pages revoking pi
     in snd (cap_send_recall_ack e q pi))"

datatype cap_notify =
    CapRecall (n_ino: u64) (n_token: bytes) u8 u8 u64
  | CapUpgrade (n_ino: u64) (n_token: bytes) u8 u64 u64

text \<open>The handlers run in the receive thread and only queue work; \<open>None\<close> is a dropped notification.\<close>

definition notify_token :: "bytes \<Rightarrow> bytes" where
  "notify_token tok = (if 0 < length tok \<and> length tok < 64 then tok else [])"

definition powerfs_cap_recall_notify_handler ::
  "bool \<Rightarrow> bool \<Rightarrow> u64 \<Rightarrow> bytes \<Rightarrow> u8 \<Rightarrow> u8 \<Rightarrow> u64 \<Rightarrow> cap_notify option" where
  "powerfs_cap_recall_notify_handler alloc wq ino tok recall retain epoch =
    (if \<not> alloc then None else if \<not> wq then None
     else Some (CapRecall ino (notify_token tok) recall retain epoch))"

definition powerfs_cap_upgrade_notify_handler ::
  "bool \<Rightarrow> bool \<Rightarrow> u64 \<Rightarrow> bytes \<Rightarrow> u8 \<Rightarrow> u64 \<Rightarrow> u64 \<Rightarrow> cap_notify option" where
  "powerfs_cap_upgrade_notify_handler alloc wq ino tok new_granted epoch sn =
    (if \<not> alloc then None else if \<not> wq then None
     else Some (CapUpgrade ino (notify_token tok) new_granted epoch sn))"

text \<open>The work on the inode that the cache has for the number of the notification.\<close>

definition powerfs_cap_notify_work_func :: "cenv \<Rightarrow> cap_notify \<Rightarrow> cinode \<Rightarrow> cinode" where
  "powerfs_cap_notify_work_func e w pi =
    (if i_evicting pi then pi else if i_shutdown pi then pi
     else case find_cap_by_token_locked pi (n_token w) of
       None \<Rightarrow> pi
     | Some q \<Rightarrow>
         (case w of
            CapRecall _ _ recall retain epoch \<Rightarrow>
              let k_retain = wire_capset_to_kernel_bits retain;
                  k_recall = (case get_cap q pi of Some c \<Rightarrow> issued c AND NOT k_retain | None \<Rightarrow> 0);
                  pi = upd_cap q (\<lambda>c. c\<lparr>c_epoch := epoch\<rparr>) pi
              in if k_recall \<noteq> 0 then powerfs_cap_revoke e q k_recall pi else pi
          | CapUpgrade _ _ new_granted epoch sn \<Rightarrow>
              let pi = upd_cap q (\<lambda>c. c\<lparr>c_epoch := epoch, c_seq := sn, issue_seq := sn\<rparr>) pi
              in powerfs_cap_issue e q (wire_capset_to_kernel_bits new_granted) pi))"

section \<open>Asking for more, and references\<close>

definition powerfs_check_caps :: "cenv \<Rightarrow> bool \<Rightarrow> cinode \<Rightarrow> cinode" where
  "powerfs_check_caps e flush_flag pi =
    (let iss = fst (powerfs_caps_issued e pi);
         wanted = powerfs_caps_file_wanted e pi OR powerfs_caps_used pi
     in if flush_flag \<and> i_dirty_caps pi \<noteq> 0 then snd (powerfs_cap_flush e (i_dirty_caps pi) pi)
        else
          let need_acquire = wanted AND NOT iss
          in case i_auth_cap pi of
            None \<Rightarrow> pi
          | Some q \<Rightarrow>
              if need_acquire \<noteq> 0 \<and> i_flushing_caps pi = 0 then
                let wire_wanted = kernel_bits_to_wire_capset need_acquire
                in if wire_wanted = 0 then pi
                   else
                     let g = e_acquire e (case get_cap q pi of Some c \<Rightarrow> c_token c | None \<Rightarrow> []) wire_wanted
                     in if g_ret g = 0 then
                          let pi = upd_cap q (\<lambda>c. (cap_token_set (g_token g) c)
                                \<lparr>c_epoch := g_epoch g, c_seq := g_sn g, issue_seq := g_sn g,
                                 expire_jiffies := (if g_dur g > 0
                                    then jiffies e + msecs_to_jiffies e (ucast (g_dur g))
                                    else jiffies e + LEASE_DURATION e)\<rparr>) pi
                          in powerfs_cap_issue e q (wire_capset_to_kernel_bits (g_wire g)) pi
                        else pi
              else pi)"

definition powerfs_cap_mark_dirty :: "u32 \<Rightarrow> cinode \<Rightarrow> cinode" where
  "powerfs_cap_mark_dirty caps pi = pi\<lparr>i_dirty_caps := i_dirty_caps pi OR caps\<rparr>"

abbreviation bump :: "u32 \<Rightarrow> u32 \<Rightarrow> int \<Rightarrow> int" where
  "bump k m r \<equiv> if has k m then r + 1 else r"

definition powerfs_cap_take_refs :: "u32 \<Rightarrow> cinode \<Rightarrow> cinode" where
  "powerfs_cap_take_refs got pi =
    pi\<lparr>i_pin_ref := bump got CAP_PIN (i_pin_ref pi),
       i_rd_ref := bump got CAP_FILE_SHARED (i_rd_ref pi),
       i_rdcache_ref := bump got CAP_FILE_CACHE (i_rdcache_ref pi),
       i_fx_ref := bump got CAP_FILE_EXCL (i_fx_ref pi),
       i_count := (if has got CAP_FILE_WR \<and> i_wr_ref pi = 0 then i_count pi + 1 else i_count pi),
       i_wr_ref := bump got CAP_FILE_WR (i_wr_ref pi)\<rparr>"

definition powerfs_cap_get_refs :: "u32 \<Rightarrow> cinode \<Rightarrow> cinode" where
  "powerfs_cap_get_refs got pi = powerfs_cap_take_refs got pi"

abbreviation drop_ref :: "u32 \<Rightarrow> u32 \<Rightarrow> int \<Rightarrow> int" where
  "drop_ref k m r \<equiv> if has k m then r - 1 else r"

definition drop_refs :: "u32 \<Rightarrow> cinode \<Rightarrow> cinode" where
  "drop_refs had pi =
    pi\<lparr>i_pin_ref := drop_ref had CAP_PIN (i_pin_ref pi),
       i_rd_ref := drop_ref had CAP_FILE_SHARED (i_rd_ref pi),
       i_rdcache_ref := drop_ref had CAP_FILE_CACHE (i_rdcache_ref pi),
       i_fx_ref := drop_ref had CAP_FILE_EXCL (i_fx_ref pi),
       i_wr_ref := drop_ref had CAP_FILE_WR (i_wr_ref pi)\<rparr>"

definition powerfs_cap_put_refs :: "cenv \<Rightarrow> u32 \<Rightarrow> cinode \<Rightarrow> cinode" where
  "powerfs_cap_put_refs e had pi =
    (let pi = drop_refs had pi;
         last = (has had CAP_FILE_SHARED \<and> i_rd_ref pi = 0 \<or> has had CAP_FILE_CACHE \<and> i_rdcache_ref pi = 0 \<or>
                 has had CAP_FILE_EXCL \<and> i_fx_ref pi = 0 \<or> has had CAP_FILE_WR \<and> i_wr_ref pi = 0);
         put_inode = (has had CAP_FILE_WR \<and> i_wr_ref pi = 0 \<and> i_wb_ref pi = 0);
         pi = (if last then powerfs_check_caps e False pi else pi)
     in if put_inode then pi\<lparr>i_count := i_count pi - 1\<rparr> else pi)"

text \<open>The result is the return value, the output \<open>got\<close> and the inode.\<close>

definition try_get_cap_refs_locked :: "cenv \<Rightarrow> u32 \<Rightarrow> u32 \<Rightarrow> cinode \<Rightarrow> bool \<times> u32 \<times> cinode" where
  "try_get_cap_refs_locked e need want pi =
    (let iss = fst (powerfs_caps_issued e pi);
         have_need = covers iss need;
         have_want = covers iss (want AND (CAP_FILE_SHARED OR CAP_FILE_CACHE OR CAP_FILE_WR OR CAP_FILE_EXCL))
     in if have_need then
          let refs = CAP_PIN OR (iss AND CAP_FILE_SHARED) OR (iss AND CAP_FILE_CACHE) OR
                (iss AND CAP_FILE_WR) OR (iss AND CAP_FILE_EXCL)
          in (have_want, refs, powerfs_cap_take_refs refs pi)
        else (False, 0, pi))"

definition powerfs_try_get_caps :: "cenv \<Rightarrow> u32 \<Rightarrow> u32 \<Rightarrow> cinode \<Rightarrow> bool \<times> u32 \<times> cinode" where
  "powerfs_try_get_caps e need want pi =
    (let (ok, refs, pi) = try_get_cap_refs_locked e need want pi
     in (ok, refs, if ok then pi else powerfs_check_caps e False pi))"


section \<open>Bits\<close>

lemma covers_bit: "covers k m \<longleftrightarrow> (\<forall>n. bit m n \<longrightarrow> bit k n)" for k m :: "'a::len word"
  by (auto simp: bit_eq_iff bit_simps dest: bit_imp_le_length)

lemma covers_or [simp]: "covers a k \<Longrightarrow> covers (a OR b) (k OR b)" for a b k :: "'a::len word"
  unfolding covers_bit by (auto simp: bit_simps)

lemma covers_or_norm [simp]: "covers a k \<Longrightarrow> (k OR b) AND NOT a AND NOT b = 0" for a b k :: "'a::len word"
  using covers_or [where a = a and k = k and b = b] by simp

lemma covers_andnot: "covers a k \<Longrightarrow> covers a (k AND NOT b)" for a b k :: "'a::len word"
  unfolding covers_bit by (auto simp: bit_simps)

lemma covers_refl [simp]: "covers a a" for a :: "'a::len word"
  unfolding covers_bit by simp

lemma bit_exp_num: "bit m n \<longleftrightarrow> n = i" if "m = 2 ^ i" "i < LENGTH('a)" for m :: "'a::len word"
  unfolding that(1) bit_exp_iff using that(2) by auto

lemma bit_pow2:
  "bit (1 :: u32) n \<longleftrightarrow> n = 0" "bit (2 :: u32) n \<longleftrightarrow> n = 1" "bit (4 :: u32) n \<longleftrightarrow> n = 2"
  "bit (8 :: u32) n \<longleftrightarrow> n = 3" "bit (16 :: u32) n \<longleftrightarrow> n = 4" "bit (32 :: u32) n \<longleftrightarrow> n = 5"
  "bit (64 :: u32) n \<longleftrightarrow> n = 6" "bit (128 :: u32) n \<longleftrightarrow> n = 7" "bit (256 :: u32) n \<longleftrightarrow> n = 8"
  "bit (512 :: u32) n \<longleftrightarrow> n = 9"
  "bit (1 :: u8) n \<longleftrightarrow> n = 0" "bit (2 :: u8) n \<longleftrightarrow> n = 1" "bit (4 :: u8) n \<longleftrightarrow> n = 2"
  by (rule bit_exp_num; simp)+

lemma has_bit: "has k m \<longleftrightarrow> (\<exists>n. bit k n \<and> bit m n)" for k m :: "'a::len word"
  by (auto simp: bit_eq_iff bit_simps dest: bit_imp_le_length)

lemma has_pow2:
  "has k 1 \<longleftrightarrow> bit k 0" "has k 2 \<longleftrightarrow> bit k 1" "has k 4 \<longleftrightarrow> bit k 2" "has k 32 \<longleftrightarrow> bit k 5"
  "has k 64 \<longleftrightarrow> bit k 6" "has k 128 \<longleftrightarrow> bit k 7" "has k 256 \<longleftrightarrow> bit k 8" "has k 512 \<longleftrightarrow> bit k 9"
  "has w 1 \<longleftrightarrow> bit w 0" "has w 2 \<longleftrightarrow> bit w 1" "has w 4 \<longleftrightarrow> bit w 2"
  for k :: u32 and w :: u8
  unfolding has_bit bit_pow2 by auto

lemma has_or: "has k (a OR b) \<longleftrightarrow> has k a \<or> has k b" for k a b :: "'a::len word"
  unfolding has_bit bit_or_iff by auto

lemma bit_if_0: "bit (if b then x else 0) n \<longleftrightarrow> b \<and> bit x n" for x :: "'a::len word"
  by simp

lemma bit_wire_kernel:
  "bit (wire_capset_to_kernel_bits w) n \<longleftrightarrow> n = 0 \<or> bit w 0 \<and> (n = 1 \<or> n = 3 \<or> n = 4 \<or> n = 6 \<or> n = 7) \<or>
    bit w 1 \<and> n = 8 \<or> bit w 2 \<and> (n = 2 \<or> n = 5 \<or> n = 9)"
  unfolding wire_capset_to_kernel_bits_def has_pow2 bit_or_iff bit_if_0 bit_pow2
  by (simp only: disj_ac conj_disj_distribL)

lemma bit_kernel_wire:
  "bit (kernel_bits_to_wire_capset k) n \<longleftrightarrow>
    (bit k 1 \<or> bit k 6 \<or> bit k 7) \<and> n = 0 \<or> bit k 8 \<and> n = 1 \<or> (bit k 2 \<or> bit k 5 \<or> bit k 9) \<and> n = 2"
  unfolding kernel_bits_to_wire_capset_def has_or has_pow2 bit_or_iff bit_if_0 bit_pow2
  by (simp only: disj_ac)

text \<open>The two conversions between the bits of the protocol and the bits of the client form a
  Galois connection: the capability set asked for is the least one whose bits cover the wanted bits
  (among the bits that the protocol can name), and every capability set survives the round trip.\<close>

theorem wire_capset_galois:
  fixes k :: u32 and w v :: u8
  assumes "covers (CAP_PIN OR CAP_ANY_RD OR CAP_FILE_CACHE OR CAP_ANY_DIRTY) k"
  shows "(covers (wire_capset_to_kernel_bits w) k \<longleftrightarrow> covers w (kernel_bits_to_wire_capset k)) \<and>
    kernel_bits_to_wire_capset (wire_capset_to_kernel_bits v) = v AND (NET_CAP_R OR NET_CAP_W OR NET_CAP_X)"
proof
  let ?need = "((bit k 1 \<or> bit k 6 \<or> bit k 7) \<longrightarrow> bit w 0) \<and> (bit k 8 \<longrightarrow> bit w 1) \<and>
    ((bit k 2 \<or> bit k 5 \<or> bit k 9) \<longrightarrow> bit w 2)"
  have k: "bit k n \<Longrightarrow> n = 0 \<or> n = 1 \<or> n = 2 \<or> n = 5 \<or> n = 6 \<or> n = 7 \<or> n = 8 \<or> n = 9" for n
    using assms unfolding covers_bit bit_or_iff bit_pow2 by blast
  have "?need" if "covers (wire_capset_to_kernel_bits w) k"
  proof -
    have "bit k n \<longrightarrow> n = 0 \<or> bit w 0 \<and> (n = 1 \<or> n = 3 \<or> n = 4 \<or> n = 6 \<or> n = 7) \<or> bit w 1 \<and> n = 8 \<or> bit w 2 \<and> (n = 2 \<or> n = 5 \<or> n = 9)" for n
      using that unfolding covers_bit bit_wire_kernel by blast
    from this [of 1] this [of 2] this [of 5] this [of 6] this [of 7] this [of 8] this [of 9] show ?thesis
      by simp
  qed
  moreover have "bit k n \<longrightarrow> n = 0 \<or> bit w 0 \<and> (n = 1 \<or> n = 3 \<or> n = 4 \<or> n = 6 \<or> n = 7) \<or> bit w 1 \<and> n = 8 \<or> bit w 2 \<and> (n = 2 \<or> n = 5 \<or> n = 9)"
    if need: ?need for n
  proof
    assume "bit k n"
    with k [OF this] need show "n = 0 \<or> bit w 0 \<and> (n = 1 \<or> n = 3 \<or> n = 4 \<or> n = 6 \<or> n = 7) \<or> bit w 1 \<and> n = 8 \<or> bit w 2 \<and> (n = 2 \<or> n = 5 \<or> n = 9)"
      by (elim disjE) simp_all
  qed
  moreover have "covers w (kernel_bits_to_wire_capset k) \<longleftrightarrow> ?need"
    unfolding covers_bit bit_kernel_wire by blast
  ultimately show "covers (wire_capset_to_kernel_bits w) k \<longleftrightarrow> covers w (kernel_bits_to_wire_capset k)"
    unfolding covers_bit bit_wire_kernel by blast
  have "bit (kernel_bits_to_wire_capset (wire_capset_to_kernel_bits v)) n \<longleftrightarrow>
      bit (v AND (NET_CAP_R OR NET_CAP_W OR NET_CAP_X)) n" for n
    unfolding bit_wire_kernel bit_kernel_wire bit_and_iff bit_or_iff bit_pow2 by auto
  then show "kernel_bits_to_wire_capset (wire_capset_to_kernel_bits v) = v AND (NET_CAP_R OR NET_CAP_W OR NET_CAP_X)"
    by (blast intro: bit_word_eqI)
qed


theorem wire_capset_galois_witness:
  "covers (wire_capset_to_kernel_bits NET_CAP_W) CAP_FILE_WR \<and>
   kernel_bits_to_wire_capset (wire_capset_to_kernel_bits 5) = 5 AND (NET_CAP_R OR NET_CAP_W OR NET_CAP_X)"
  using wire_capset_galois [of CAP_FILE_WR NET_CAP_W 5] by (simp add: kernel_bits_to_wire_capset_def)

end
