(* ===== verification/CapsInv.thy ===== *)
theory CapsInv
  imports Caps
begin

unbundle bit_operations_syntax

text \<open>
  The invariant of the caps of an inode, kept by every operation of \<open>powerfs_caps.c\<close> and by every
  sequence of them.
\<close>

section \<open>The invariant\<close>

text \<open>A cap never loses a bit from \<open>implemented\<close> before \<open>issued\<close>, its token is a C string that fits the
  field, the tree is sorted without duplicates, the authoritative cap is in the tree, and the inode is
  held exactly while there are write references.\<close>

definition cap_ok :: "cap \<Rightarrow> bool" where
  "cap_ok c \<longleftrightarrow> covers (implemented c) (issued c) \<and> cap_gen c \<noteq> 0 \<and> length (c_token c) < 64 \<and> 0 \<notin> set (c_token c)"

definition caps_wf :: "cap list \<Rightarrow> u64 option \<Rightarrow> bool" where
  "caps_wf cs q \<longleftrightarrow> sorted_wrt (<) (map issuer_id cs) \<and> list_all cap_ok cs \<and>
    (case q of None \<Rightarrow> cs = [] | Some a \<Rightarrow> a \<in> issuer_id ` set cs)"

definition refs_wf :: "int \<Rightarrow> cinode \<Rightarrow> bool" where
  "refs_wf b pi \<longleftrightarrow> i_wb_ref pi = 0 \<and> 0 \<le> i_pin_ref pi \<and> 0 \<le> i_rd_ref pi \<and> 0 \<le> i_rdcache_ref pi \<and>
    0 \<le> i_wr_ref pi \<and> 0 \<le> i_fx_ref pi \<and> i_count pi = b + (if 0 < i_wr_ref pi then 1 else 0)"

definition caps_inv :: "int \<Rightarrow> cinode \<Rightarrow> bool" where
  "caps_inv b pi \<longleftrightarrow> caps_wf (i_caps pi) (i_auth_cap pi) \<and> refs_wf b pi"

definition env_ok :: "int \<Rightarrow> cenv \<Rightarrow> bool" where
  "env_ok b e \<longleftrightarrow> (\<forall>n pi. caps_inv b pi \<longrightarrow> caps_inv b (e_others e n pi))"

lemma caps_inv_cong:
  "caps_inv b pi \<Longrightarrow> i_caps pi' = i_caps pi \<Longrightarrow> i_auth_cap pi' = i_auth_cap pi \<Longrightarrow> refs_wf b pi' = refs_wf b pi \<Longrightarrow>
    caps_inv b pi'"
  unfolding caps_inv_def by simp

lemma caps_wf_map:
  assumes "caps_wf cs q" "\<And>c. c \<in> set cs \<Longrightarrow> cap_ok c \<Longrightarrow> issuer_id (f c) = issuer_id c \<and> cap_ok (f c)"
  shows "caps_wf (map f cs) q"
proof -
  have "map issuer_id (map f cs) = map issuer_id cs"
    using assms by (auto simp: caps_wf_def list_all_iff)
  moreover have "issuer_id ` set (map f cs) = issuer_id ` set cs"
    using assms by (auto simp: caps_wf_def list_all_iff image_image intro!: image_cong)
  moreover have "list_all cap_ok (map f cs)"
    using assms by (auto simp: caps_wf_def list_all_iff)
  ultimately show ?thesis
    using assms(1) unfolding caps_wf_def by (auto split: option.splits simp del: map_map)
qed

lemma upd_cap_inv [inv_intros]:
  assumes "caps_inv b pi" "\<And>c. cap_ok c \<Longrightarrow> issuer_id (f c) = issuer_id c \<and> cap_ok (f c)"
  shows "caps_inv b (upd_cap q f pi)"
  using assms caps_wf_map [of "i_caps pi" "i_auth_cap pi" "\<lambda>c. if issuer_id c = q then f c else c"]
  by (auto simp: caps_inv_def upd_cap_def refs_wf_def)

lemma upd_cap_sel [simp]:
  "i_auth_cap (upd_cap q f pi) = i_auth_cap pi" "i_dirty_caps (upd_cap q f pi) = i_dirty_caps pi"
  "i_flushing_caps (upd_cap q f pi) = i_flushing_caps pi" "i_log (upd_cap q f pi) = i_log pi"
  "i_isdir (upd_cap q f pi) = i_isdir pi" "i_isreg (upd_cap q f pi) = i_isreg pi"
  "i_size (upd_cap q f pi) = i_size pi" "i_placement (upd_cap q f pi) = i_placement pi"
  "i_inline_dirty (upd_cap q f pi) = i_inline_dirty pi" "i_inline (upd_cap q f pi) = i_inline pi"
  by (simp_all add: upd_cap_def)

lemma c_str_ok: "length (c_str bs) \<le> length bs" "0 \<notin> set (c_str bs)"
  by (auto simp: c_str_def length_takeWhile_le dest: set_takeWhileD)

lemma c_str_simps [simp]: "length (c_str (take 63 bs)) < 64" "0 \<notin> set (c_str bs)"
  using c_str_ok [of "take 63 bs"] c_str_ok [of bs] by auto

lemma cap_token_set_ok: "cap_ok c \<Longrightarrow> cap_ok (cap_token_set tok c)"
  "issuer_id (cap_token_set tok c) = issuer_id c"
  using c_str_ok [of tok] by (auto simp: cap_token_set_def cap_ok_def)

lemma cap_issue_inv [inv_intros]:
  assumes "caps_inv b pi" "i_auth_cap pi \<noteq> None"
  shows "caps_inv b (powerfs_cap_issue e q bits pi)"
proof -
  have "caps_inv b (upd_cap q (\<lambda>c. c\<lparr>issued := issued c OR bits, implemented := implemented c OR bits,
      cap_gen := 1, expire_jiffies := jiffies e + LEASE_DURATION e\<rparr>) pi)"
    using assms(1) by (rule upd_cap_inv) (simp add: cap_ok_def)
  then show ?thesis
    using assms(2) unfolding powerfs_cap_issue_def Let_def
    by (auto intro: caps_inv_cong simp: refs_wf_def)
qed

lemma cap_issue_auth [simp]: "i_auth_cap pi = Some a \<Longrightarrow> i_auth_cap (powerfs_cap_issue e q bits pi) = Some a"
  by (simp add: powerfs_cap_issue_def Let_def)


lemma cap_insert_issuers: "issuer_id ` set (cap_insert c cs) = insert (issuer_id c) (issuer_id ` set cs)"
  by (induction cs) (auto simp: not_less)

lemma cap_insert_set: "set (cap_insert c cs) \<subseteq> insert c (set cs)"
  by (induction cs) auto

lemma cap_insert_sorted:
  "sorted_wrt (<) (map issuer_id cs) \<Longrightarrow> sorted_wrt (<) (map issuer_id (cap_insert c cs))"
proof (induction cs)
  case (Cons d ds)
  then have "x \<in> issuer_id ` set (cap_insert c ds) \<Longrightarrow> issuer_id d < issuer_id c \<Longrightarrow> issuer_id d < x" for x
    by (auto simp: cap_insert_issuers)
  with Cons show ?case
    by (auto intro: less_trans)
qed simp

lemma add_cap_inv:
  assumes "caps_inv b pi" "add_cap_for_inode_locked e q pi = (r, pi')"
  shows "caps_inv b pi'" "r \<noteq> None \<Longrightarrow> i_auth_cap pi' \<noteq> None"
proof -
  have "cap_ok (cap_zero q)"
    by (simp add: cap_ok_def cap_zero_def)
  then have ins: "caps_wf (cap_insert (cap_zero q) cs) (if a = None then Some q else a)"
    if "caps_wf cs a" for cs a
    using that cap_insert_sorted [of cs] cap_insert_issuers [of "cap_zero q" cs] cap_insert_set [of "cap_zero q" cs]
    by (auto simp: caps_wf_def list_all_iff cap_zero_def split: option.splits)
  have auth: "get_cap q pi \<noteq> None \<Longrightarrow> i_auth_cap pi \<noteq> None"
    using assms(1) by (auto simp: caps_inv_def caps_wf_def get_cap_def split: option.splits)
  show "caps_inv b pi'" "r \<noteq> None \<Longrightarrow> i_auth_cap pi' \<noteq> None"
    using assms auth ins [of "i_caps pi" "i_auth_cap pi"]
    by (auto simp: add_cap_for_inode_locked_def Let_def caps_inv_def refs_wf_def split: if_splits)
qed

lemma open_grant_inv [inv_intros]: "caps_inv b pi \<Longrightarrow> caps_inv b (snd (cap_open_grant_and_issue e wr pi))"
proof -
  assume inv: "caps_inv b pi"
  obtain r pi' where r: "(case i_auth_cap pi of Some q \<Rightarrow> (Some q, pi) | None \<Rightarrow> add_cap_for_inode_locked e 0 pi) = (r, pi')"
    by fastforce
  then have inv': "caps_inv b pi'" and auth: "r \<noteq> None \<Longrightarrow> i_auth_cap pi' \<noteq> None"
    using inv add_cap_inv [OF inv] by (auto split: option.splits)
  show ?thesis
    unfolding cap_open_grant_and_issue_def r Let_def prod.case
    using inv' auth by (auto split: option.split intro!: cap_issue_inv upd_cap_inv simp: cap_ok_def)
qed

lemma open_grant_local_inv [inv_intros]: "caps_inv b pi \<Longrightarrow> caps_inv b (snd (cap_open_grant_local e wr pi))"
proof -
  assume inv: "caps_inv b pi"
  obtain r pi' where r: "(case i_auth_cap pi of Some q \<Rightarrow> (Some q, pi) | None \<Rightarrow> add_cap_for_inode_locked e 0 pi) = (r, pi')"
    by fastforce
  then have inv': "caps_inv b pi'" and auth: "r \<noteq> None \<Longrightarrow> i_auth_cap pi' \<noteq> None"
    using inv add_cap_inv [OF inv] by (auto split: option.splits)
  show ?thesis
    unfolding cap_open_grant_local_def r Let_def prod.case
    using inv' auth by (auto split: option.split intro!: cap_issue_inv upd_cap_inv simp: cap_ok_def)
qed

text \<open>The steps of a flush only touch dirty bits, inline data, the flush list and the log.\<close>

lemma flush_fields_inv:
  "caps_inv b pi \<Longrightarrow> caps_inv b (pi\<lparr>i_log := l\<rparr>)" "caps_inv b pi \<Longrightarrow> caps_inv b (pi\<lparr>i_inline_dirty := d\<rparr>)"
  "caps_inv b pi \<Longrightarrow> caps_inv b (flush_rollback bits pi)"
  by (simp_all add: caps_inv_def refs_wf_def flush_rollback_def)

lemma xattr_push_inv: "caps_inv b pi \<Longrightarrow> caps_inv b (snd (xattr_push xs pi))"
  by (induction xs pi rule: xattr_push.induct) (auto simp: Let_def flush_fields_inv)

lemma inline_attempts_inv: "caps_inv b pi \<Longrightarrow> caps_inv b (snd (inline_attempts e snap n pi))"
  by (induction e snap n pi rule: inline_attempts.induct) (auto simp: Let_def flush_fields_inv)

lemma flush_steps_inv:
  assumes "env_ok b e" "caps_inv b pi"
  shows "caps_inv b (snd (flush_data e bits pi))" "caps_inv b (snd (flush_attr e bits ret pi))"
    "caps_inv b (snd (flush_xattr e bits ret pi))" "caps_inv b (snd (flush_inline e ret pi))"
proof -
  have o: "caps_inv b (e_others e n s)" if "caps_inv b s" for n s
    using assms(1) that by (auto simp: env_ok_def)
  show "caps_inv b (snd (flush_data e bits pi))"
    using assms(2) by (auto simp: flush_data_def Let_def o flush_fields_inv)
  show "caps_inv b (snd (flush_attr e bits ret pi))"
    using assms(2) by (auto simp: flush_attr_def Let_def o flush_fields_inv)
  show "caps_inv b (snd (flush_xattr e bits ret pi))"
    using assms(2) xattr_push_inv [of b _ "e_xattrs e"]
    by (auto simp: flush_xattr_def Let_def o flush_fields_inv split: prod.split) (metis o snd_conv flush_fields_inv(3))+
  show "caps_inv b (snd (flush_inline e ret pi))"
    using assms(2) inline_attempts_inv [of b _ e _ 5]
    by (auto simp: flush_inline_def Let_def o flush_fields_inv split: prod.split option.split)
      (metis o snd_conv flush_fields_inv(2))+
qed


lemma flush_step_inv:
  "caps_inv b (snd s) \<Longrightarrow> (\<And>ret pi. caps_inv b pi \<Longrightarrow> caps_inv b (snd (f ret pi))) \<Longrightarrow>
    caps_inv b (snd (flush_step c f s))"
  by (simp add: flush_step_def)

lemma flush_ends_inv:
  "caps_inv b pi \<Longrightarrow> caps_inv b (flush_begin e bits pi)" "caps_inv b pi \<Longrightarrow> caps_inv b (flush_end tid pi)"
  "caps_inv b pi \<Longrightarrow> caps_inv b (pi\<lparr>i_prealloc := p\<rparr>)"
  by (simp_all add: caps_inv_def refs_wf_def flush_begin_def flush_end_def)

lemma cap_flush_inv [inv_intros]:
  assumes "env_ok b e" "caps_inv b pi"
  shows "caps_inv b (snd (powerfs_cap_flush e m pi))"
  unfolding powerfs_cap_flush_def Let_def
  using assms(2)
  by (auto intro!: flush_ends_inv flush_step_inv flush_steps_inv [OF assms(1)] flush_fields_inv(3))

lemma recall_ack_inv [inv_intros]:
  assumes "caps_inv b pi"
  shows "caps_inv b (snd (cap_send_recall_ack e q pi))"
proof -
  have "get_cap q pi \<noteq> None \<Longrightarrow> i_auth_cap pi \<noteq> None"
    using assms by (auto simp: caps_inv_def caps_wf_def get_cap_def split: option.splits)
  then show ?thesis
    using assms
    by (auto simp: cap_send_recall_ack_def Let_def flush_fields_inv split: option.split prod.split intro!: cap_issue_inv)
qed

lemma release_inv [inv_intros]:
  assumes "caps_inv b pi"
  shows "caps_inv b (snd (cap_send_release e q pi))"
proof -
  have "get_cap q pi \<noteq> None \<Longrightarrow> i_auth_cap pi \<noteq> None"
    using assms by (auto simp: caps_inv_def caps_wf_def get_cap_def split: option.splits)
  moreover have "caps_inv b (upd_cap q (\<lambda>c. (cap_token_set t c)\<lparr>c_epoch := x, c_seq := y, issue_seq := y\<rparr>) s)"
    if "caps_inv b s" for t x y s
    using that by (rule upd_cap_inv) (use cap_token_set_ok in \<open>auto simp: cap_ok_def\<close>)
  ultimately show ?thesis
    using assms
    by (auto simp: cap_send_release_def Let_def flush_fields_inv split: option.split prod.split
        intro!: cap_issue_inv)
qed

lemma revoke_inv [inv_intros]:
  assumes "env_ok b e" "caps_inv b pi"
  shows "caps_inv b (powerfs_cap_revoke e q revoking pi)"
proof -
  have down: "caps_inv b (upd_cap q (\<lambda>c. c\<lparr>issued := issued c AND NOT revoking\<rparr>) pi)"
    using assms(2) by (rule upd_cap_inv) (simp add: cap_ok_def covers_andnot)
  have settle: "caps_inv b (upd_cap q (\<lambda>c. c\<lparr>implemented := issued c\<rparr>) s)" if "caps_inv b s" for s
    using that by (rule upd_cap_inv) (simp add: cap_ok_def)
  have rest: "caps_inv b (revoke_pages revoking (revoke_inline revoking s))"
    "caps_inv b (s\<lparr>i_shared_gen := g, i_complete := c, i_dir_complete := d\<rparr>)" if "caps_inv b s" for s g c d
    using that by (simp_all add: revoke_pages_def revoke_inline_def Let_def caps_inv_def refs_wf_def)
  show ?thesis
    unfolding powerfs_cap_revoke_def Let_def
    using down by (intro recall_ack_inv rest(1))
      (auto intro!: settle rest(2) cap_flush_inv [OF assms(1)] flush_fields_inv(1))
qed


lemma find_cap_auth:
  "caps_inv b pi \<Longrightarrow> find_cap_by_token_locked pi t = Some q \<Longrightarrow> i_auth_cap pi \<noteq> None"
  by (auto simp: find_cap_by_token_locked_def caps_inv_def caps_wf_def split: if_splits option.splits)

lemma notify_inv [inv_intros]:
  assumes "env_ok b e" "caps_inv b pi"
  shows "caps_inv b (powerfs_cap_notify_work_func e w pi)"
proof -
  have "caps_inv b (upd_cap q (\<lambda>c. c\<lparr>c_epoch := x\<rparr>) pi)"
    "caps_inv b (upd_cap q (\<lambda>c. c\<lparr>c_epoch := x, c_seq := y, issue_seq := y\<rparr>) pi)" for q x y
    using assms(2) by (auto intro!: upd_cap_inv simp: cap_ok_def)
  then show ?thesis
    using assms find_cap_auth [OF assms(2)] unfolding powerfs_cap_notify_work_func_def Let_def
    by (auto split: option.split cap_notify.split intro!: revoke_inv cap_issue_inv)
qed

lemma check_caps_inv [inv_intros]:
  assumes "fl \<Longrightarrow> env_ok b e" "caps_inv b pi"
  shows "caps_inv b (powerfs_check_caps e fl pi)"
proof -
  have "caps_inv b (upd_cap q (\<lambda>c. (cap_token_set t c)\<lparr>c_epoch := x, c_seq := y, issue_seq := y, expire_jiffies := z\<rparr>) pi)"
    for q t x y z
    using assms(2) by (rule upd_cap_inv) (use cap_token_set_ok in \<open>auto simp: cap_ok_def\<close>)
  then show ?thesis
    using assms cap_flush_inv [of b e pi] unfolding powerfs_check_caps_def Let_def
    by (auto split: option.split intro!: cap_issue_inv)
qed

lemma take_refs_inv [inv_intros]: "caps_inv b pi \<Longrightarrow> caps_inv b (powerfs_cap_take_refs got pi)"
  by (auto simp: caps_inv_def refs_wf_def powerfs_cap_take_refs_def)

text \<open>The references of \<open>had\<close> are there to be put.\<close>

definition holds :: "u32 \<Rightarrow> cinode \<Rightarrow> bool" where
  "holds had pi \<longleftrightarrow> (has had CAP_PIN \<longrightarrow> 0 < i_pin_ref pi) \<and> (has had CAP_FILE_SHARED \<longrightarrow> 0 < i_rd_ref pi) \<and>
    (has had CAP_FILE_CACHE \<longrightarrow> 0 < i_rdcache_ref pi) \<and> (has had CAP_FILE_EXCL \<longrightarrow> 0 < i_fx_ref pi) \<and>
    (has had CAP_FILE_WR \<longrightarrow> 0 < i_wr_ref pi)"

lemma cap_issue_refs [simp]:
  "i_count (powerfs_cap_issue e q bits pi) = i_count pi" "i_wr_ref (powerfs_cap_issue e q bits pi) = i_wr_ref pi"
  "i_wb_ref (powerfs_cap_issue e q bits pi) = i_wb_ref pi" "i_pin_ref (powerfs_cap_issue e q bits pi) = i_pin_ref pi"
  "i_rd_ref (powerfs_cap_issue e q bits pi) = i_rd_ref pi" "i_fx_ref (powerfs_cap_issue e q bits pi) = i_fx_ref pi"
  "i_rdcache_ref (powerfs_cap_issue e q bits pi) = i_rdcache_ref pi"
  by (simp_all add: powerfs_cap_issue_def upd_cap_def Let_def)

text \<open>Asking for more without the flush flag does not change the references.\<close>

lemma check_caps_refs [simp]:
  "i_count (powerfs_check_caps e False pi) = i_count pi" "i_wr_ref (powerfs_check_caps e False pi) = i_wr_ref pi"
  "i_wb_ref (powerfs_check_caps e False pi) = i_wb_ref pi" "i_pin_ref (powerfs_check_caps e False pi) = i_pin_ref pi"
  "i_rd_ref (powerfs_check_caps e False pi) = i_rd_ref pi" "i_fx_ref (powerfs_check_caps e False pi) = i_fx_ref pi"
  "i_rdcache_ref (powerfs_check_caps e False pi) = i_rdcache_ref pi"
  by (simp_all add: powerfs_check_caps_def upd_cap_def Let_def split: option.split)


lemma put_refs_inv [inv_intros]:
  assumes "caps_inv b pi" "holds had pi"
  shows "caps_inv b (powerfs_cap_put_refs e had pi)"
proof -
  let ?pi = "drop_refs had pi"
  let ?put = "has had CAP_FILE_WR \<and> i_wr_ref ?pi = 0 \<and> i_wb_ref ?pi = 0"
  have "caps_inv (if ?put then b + 1 else b) ?pi"
    using assms by (auto simp: caps_inv_def refs_wf_def holds_def drop_refs_def)
  then have A: "caps_inv (if ?put then b + 1 else b) (if last then powerfs_check_caps e False ?pi else ?pi)" for last
    using check_caps_inv [of False] by simp
  have B: "caps_inv b (s\<lparr>i_count := i_count s - 1\<rparr>)" if "caps_inv (b + 1) s" "i_wr_ref s = 0" for s
    using that by (simp add: caps_inv_def refs_wf_def)
  show ?thesis
  proof (cases ?put)
    case True
    then show ?thesis
      using A [of True] B [of "powerfs_check_caps e False ?pi"] unfolding powerfs_cap_put_refs_def Let_def by simp
  next
    case False
    then show ?thesis
      using A [of True] A [of False] unfolding powerfs_cap_put_refs_def Let_def by auto
  qed
qed

lemma try_get_inv [inv_intros]:
  "caps_inv b pi \<Longrightarrow> caps_inv b (snd (snd (try_get_cap_refs_locked e need want pi)))"
  "caps_inv b pi \<Longrightarrow> caps_inv b (snd (snd (powerfs_try_get_caps e need want pi)))"
proof -
  show A: "caps_inv b (snd (snd (try_get_cap_refs_locked e need want pi)))" if "caps_inv b pi"
    using that by (simp add: try_get_cap_refs_locked_def Let_def take_refs_inv)
  then show "caps_inv b (snd (snd (powerfs_try_get_caps e need want pi)))" if "caps_inv b pi"
    using that check_caps_inv [of False b e] by (auto simp: powerfs_try_get_caps_def split: prod.splits)
qed

text \<open>The operations on an inode, each with its environment.\<close>

datatype cap_op =
    OpenGrant bool | OpenLocal bool | Notify cap_notify | SendRelease u64 | CheckCaps bool | Flush u32
  | MarkDirty u32 | GetRefs u32 | PutRefs u32 | TryGet u32 u32

fun cap_exec :: "cenv \<times> cap_op \<Rightarrow> cinode \<Rightarrow> cinode" where
  "cap_exec (e, OpenGrant wr) pi = snd (cap_open_grant_and_issue e wr pi)"
| "cap_exec (e, OpenLocal wr) pi = snd (cap_open_grant_local e wr pi)"
| "cap_exec (e, Notify w) pi = powerfs_cap_notify_work_func e w pi"
| "cap_exec (e, SendRelease q) pi = snd (cap_send_release e q pi)"
| "cap_exec (e, CheckCaps fl) pi = powerfs_check_caps e fl pi"
| "cap_exec (e, Flush m) pi = snd (powerfs_cap_flush e m pi)"
| "cap_exec (e, MarkDirty m) pi = powerfs_cap_mark_dirty m pi"
| "cap_exec (e, GetRefs m) pi = powerfs_cap_get_refs m pi"
| "cap_exec (e, PutRefs m) pi = powerfs_cap_put_refs e m pi"
| "cap_exec (e, TryGet n m) pi = snd (snd (powerfs_try_get_caps e n m pi))"

fun cap_op_ok :: "int \<Rightarrow> cenv \<times> cap_op \<Rightarrow> cinode \<Rightarrow> bool" where
  "cap_op_ok b (e, PutRefs had) pi = (env_ok b e \<and> holds had pi)"
| "cap_op_ok b (e, a) pi = env_ok b e"

interpretation caps: op_machine cap_exec "cap_op_ok b" "caps_inv b" for b
proof
  fix pi and a :: "cenv \<times> cap_op"
  assume inv: "caps_inv b pi" and ok: "cap_op_ok b a pi"
  obtain e c where a: "a = (e, c)"
    by fastforce
  have "env_ok b e"
    using ok a by (cases c) auto
  moreover have "caps_inv b (powerfs_cap_mark_dirty m pi)" for m
    using inv by (simp add: caps_inv_def refs_wf_def powerfs_cap_mark_dirty_def)
  ultimately show "caps_inv b (cap_exec a pi)"
    using inv ok unfolding a by (cases c) (auto simp: powerfs_cap_get_refs_def intro: inv_intros)
qed

text \<open>C9: Whatever sequence of grants, recalls, upgrades, releases, flushes and reference operations
  an inode sees (references being put only when they are held, and other threads keeping the
  invariant in the windows where the lock is dropped): its caps stay sorted by issuer without
  duplicates, its authoritative cap is one of them, every issued bit is implemented, every token is a
  terminated string of the field, and the inode is held exactly while it has write references.\<close>

theorem caps_invariant:
  assumes "caps_inv b pi" "caps.all_ok b ops pi"
  shows "caps_inv b (fold cap_exec ops pi)"
  using caps.run_inv [OF assms] by (simp add: caps.run_fold)


text \<open>A regular file open for writing, whose cap has expired, and an environment in which the server
  does not answer.\<close>

definition cap0 :: cap where
  "cap0 = (cap_zero 0)\<lparr>issued := 321, implemented := 321, c_token := [7], expire_jiffies := 100\<rparr>"

definition inode0 :: cinode where
  "inode0 = \<lparr>i_isdir = False, i_isreg = True, i_size = 3, i_nrpages = 0, i_count = 1, i_evicting = False,
    i_shutdown = False, i_client = True, i_caps = [cap0], i_auth_cap = Some 0, i_dirty_caps = 256, i_flushing_caps = 0,
    i_snap_caps = 0, i_prealloc = True, i_flush_list = [], i_release_count = 0, i_pin_ref = 0, i_rd_ref = 0,
    i_rdcache_ref = 0, i_wr_ref = 0, i_wb_ref = 0, i_fx_ref = 0, i_wrbuffer_ref = 0, i_shared_gen = 0,
    i_rdcache_gen = 0, i_nr_rd = 0, i_nr_wr = 1, i_last_rd = 0, i_last_wr = 0, i_complete = False,
    i_dir_complete = False, i_local_cap = False, i_placement = PLACEMENT_FLAT, i_inline = None, i_inline_len = 0,
    i_inline_dirty = False, i_log = []\<rparr>"

definition env0 :: cenv where
  "env0 = \<lparr>jiffies = 200, hz = 100, msecs_to_jiffies = (\<lambda>m. ucast m div 10), e_cap_alloc = True, e_flush_alloc = True,
    e_flush_atomic = True, e_writeback = 0, e_chunks = 0, e_setattr = 0, e_list_sz = 0, e_list_alloc = True,
    e_list_got = 0, e_xattrs = [], e_align = 0, e_snap_alloc = True, e_inline_rpc = (\<lambda>_. 0), e_others = (\<lambda>_ s. s),
    e_grant = (\<lambda>_. grant_none\<lparr>g_ret := - EIO\<rparr>), e_acquire = (\<lambda>_ _. grant_none\<lparr>g_ret := - EIO\<rparr>),
    e_ack = (\<lambda>_. (0, 0)), e_release = (\<lambda>_. (False, grant_none))\<rparr>"

theorem caps_invariant_witness:
  "caps_inv 1 (fold cap_exec [(env0, GetRefs 257), (env0, Notify (CapRecall 1 [7] 2 1 5)), (env0, PutRefs 257)] inode0)"
proof -
  have "caps_inv 1 inode0"
    by (simp add: caps_inv_def caps_wf_def refs_wf_def cap_ok_def inode0_def cap0_def cap_zero_def)
  moreover have "env_ok 1 env0"
    by (simp add: env_ok_def env0_def)
  moreover have "holds 257 (powerfs_cap_notify_work_func env0 (CapRecall 1 [7] 2 1 5) (powerfs_cap_get_refs 257 inode0))"
    by code_simp
  ultimately show ?thesis
    using caps_invariant [of 1 inode0 "[(env0, GetRefs 257), (env0, Notify (CapRecall 1 [7] 2 1 5)), (env0, PutRefs 257)]"]
    by simp
qed

end
