(* ===== verification/CapsFlush.thy ===== *)
theory CapsFlush
  imports CapsInv
begin

unbundle bit_operations_syntax

text \<open>
  What a flush pushes and leaves dirty, and what a recall therefore promises to the server: the effect of
  \<open>powerfs_cap_flush\<close>, \<open>powerfs_cap_revoke\<close> and of the work that a recall notification queues.
\<close>

section \<open>What a flush leaves dirty\<close>

text \<open>In the windows without the lock other threads mark the bits \<open>d\<close> dirty and may do anything to the
  rest of the inode, the placement apart.\<close>

definition marks :: "u32 \<Rightarrow> cenv \<Rightarrow> bool" where
  "marks d e \<longleftrightarrow> (\<forall>n s. i_dirty_caps (e_others e n s) = i_dirty_caps s OR d \<and> i_placement (e_others e n s) = i_placement s)"

definition data_fails :: "cenv \<Rightarrow> u8 \<Rightarrow> bool" where
  "data_fails e p \<longleftrightarrow> e_writeback e < 0 \<or> p \<in> {PLACEMENT_FLAT, PLACEMENT_STRIPE, PLACEMENT_WIDESTRIPE} \<and> e_chunks e < 0"

definition xattr_fails :: "cenv \<Rightarrow> bool" where
  "xattr_fails e \<longleftrightarrow> e_list_sz e < 0 \<or> 0 < e_list_sz e \<and>
    (\<not> e_list_alloc e \<or> e_list_got e \<noteq> e_list_sz e \<or>
     (\<exists>x\<in>set (e_xattrs e). 0 \<le> x_probe x \<and> (\<not> x_alloc x \<or> 0 < x_probe x \<and> x_got x \<noteq> x_probe x \<or> x_ret x < 0)))"

lemma xattr_push_dirty:
  "i_dirty_caps (snd (xattr_push xs pi)) = i_dirty_caps pi \<and> i_placement (snd (xattr_push xs pi)) = i_placement pi"
  by (induction xs pi rule: xattr_push.induct) (auto simp: Let_def)

lemma xattr_push_fails:
  "fst (xattr_push xs pi) < 0 \<longleftrightarrow>
    (\<exists>x\<in>set xs. 0 \<le> x_probe x \<and> (\<not> x_alloc x \<or> 0 < x_probe x \<and> x_got x \<noteq> x_probe x \<or> x_ret x < 0))"
  by (induction xs pi rule: xattr_push.induct) (auto simp: Let_def)

lemma inline_attempts_dirty:
  "i_dirty_caps (snd (inline_attempts e snap n pi)) = i_dirty_caps pi"
  by (induction e snap n pi rule: inline_attempts.induct) (auto simp: Let_def)

abbreviation bits_if :: "bool \<Rightarrow> u32 \<Rightarrow> u32" where "bits_if c m \<equiv> if c then m else 0"

lemma flush_data_dirty:
  assumes "marks d e"
  shows "i_dirty_caps (snd (flush_data e bits pi)) = i_dirty_caps pi OR d OR bits_if (data_fails e (i_placement pi)) bits"
    "i_placement (snd (flush_data e bits pi)) = i_placement pi"
    "fst (flush_data e bits pi) < 0 \<longleftrightarrow> data_fails e (i_placement pi)"
    "fst (flush_data e bits pi) \<le> 0"
  using assms by (auto simp: flush_data_def Let_def marks_def data_fails_def flush_rollback_def or.assoc)

lemma flush_attr_dirty:
  assumes "marks d e"
  shows "i_dirty_caps (snd (flush_attr e bits ret pi)) = i_dirty_caps pi OR d OR bits_if (e_setattr e < 0) bits"
    "i_placement (snd (flush_attr e bits ret pi)) = i_placement pi"
    "ret \<le> 0 \<Longrightarrow> fst (flush_attr e bits ret pi) < 0 \<longleftrightarrow> ret < 0 \<or> e_setattr e < 0"
    "ret \<le> 0 \<Longrightarrow> fst (flush_attr e bits ret pi) \<le> 0"
  using assms by (auto simp: flush_attr_def Let_def marks_def flush_rollback_def or.assoc)

lemma flush_xattr_dirty:
  assumes "marks d e"
  shows "i_dirty_caps (snd (flush_xattr e bits ret pi)) = i_dirty_caps pi OR d OR bits_if (xattr_fails e) bits"
    "i_placement (snd (flush_xattr e bits ret pi)) = i_placement pi"
    "ret \<le> 0 \<Longrightarrow> fst (flush_xattr e bits ret pi) < 0 \<longleftrightarrow> ret < 0 \<or> xattr_fails e"
    "ret \<le> 0 \<Longrightarrow> fst (flush_xattr e bits ret pi) \<le> 0"
proof -
  let ?s = "e_others e 2 pi"
  define r where "r = (if e_list_sz e < 0 then (e_list_sz e, ?s)
            else if e_list_sz e = 0 then (0, ?s)
            else if \<not> e_list_alloc e then (- ENOMEM, ?s)
            else if e_list_got e \<noteq> e_list_sz e then (if e_list_got e < 0 then e_list_got e else - EIO, ?s)
            else xattr_push (e_xattrs e) ?s)"
  have r: "i_dirty_caps (snd r) = i_dirty_caps pi OR d" "i_placement (snd r) = i_placement pi"
    "fst r < 0 \<longleftrightarrow> xattr_fails e"
    using assms xattr_push_dirty [of "e_xattrs e" ?s] xattr_push_fails [of "e_xattrs e" ?s]
    by (auto simp: r_def marks_def xattr_fails_def)
  have eq: "flush_xattr e bits ret pi = (if fst r < 0 then (first_err ret (fst r), flush_rollback bits (snd r)) else (ret, snd r))"
    unfolding flush_xattr_def Let_def r_def [symmetric] by (simp add: case_prod_beta)
  show "i_dirty_caps (snd (flush_xattr e bits ret pi)) = i_dirty_caps pi OR d OR bits_if (xattr_fails e) bits"
    "i_placement (snd (flush_xattr e bits ret pi)) = i_placement pi"
    "ret \<le> 0 \<Longrightarrow> fst (flush_xattr e bits ret pi) < 0 \<longleftrightarrow> ret < 0 \<or> xattr_fails e"
    "ret \<le> 0 \<Longrightarrow> fst (flush_xattr e bits ret pi) \<le> 0"
    using r unfolding eq by (auto simp: flush_rollback_def or.assoc)
qed

lemma flush_inline_dirty:
  assumes "marks d e"
  shows "i_dirty_caps (snd (flush_inline e ret pi)) = i_dirty_caps pi OR d"
    "ret < 0 \<Longrightarrow> fst (flush_inline e ret pi) < 0"
proof -
  have o: "i_dirty_caps (e_others e n s) = i_dirty_caps s OR d" for n s
    using assms by (simp add: marks_def)
  have a: "inline_attempts e x n s = (b, t) \<Longrightarrow> i_dirty_caps t = i_dirty_caps s" for x n s b t
    using inline_attempts_dirty [of e x n s] by simp
  show "i_dirty_caps (snd (flush_inline e ret pi)) = i_dirty_caps pi OR d"
    by (auto simp: flush_inline_def Let_def o or.assoc dest!: a split: prod.split option.split)
  show "ret < 0 \<Longrightarrow> fst (flush_inline e ret pi) < 0"
    by (auto simp: flush_inline_def Let_def split: prod.split option.split)
qed


lemma has_32_and: "(if has f 32 then 32 else 0) = f AND 32" for f :: u32
proof (rule bit_word_eqI)
  show "bit (if has f 32 then 32 :: u32 else 0) n \<longleftrightarrow> bit (f AND 32) n" for n
    unfolding has_pow2 bit_if_0 bit_and_iff bit_pow2 by auto
qed

lemma flush_accounts:
  assumes "marks d e" "has (i_dirty_caps pi) m" "i_prealloc pi \<or> e_flush_alloc e \<or> e_flush_atomic e"
  defines "f \<equiv> i_dirty_caps pi AND m"
  defines "failed \<equiv> bits_if (data_fails e (i_placement pi)) (f AND CAP_WR_DATA) OR
    bits_if (e_setattr e < 0) (f AND CAP_AUTH_EXCL) OR bits_if (xattr_fails e) (f AND CAP_XATTR_EXCL)"
  shows "i_dirty_caps (snd (powerfs_cap_flush e m pi)) =
      (i_dirty_caps pi AND NOT m) OR failed OR bits_if (has f CAP_ANY_DIRTY) d \<and>
    i_flushing_caps (snd (powerfs_cap_flush e m pi)) = 0 \<and>
    (failed \<noteq> 0 \<longrightarrow> fst (powerfs_cap_flush e m pi) < 0)"
proof -
  let ?nd = "f AND CAP_WR_DATA" and ?na = "f AND CAP_AUTH_EXCL" and ?nx = "f AND CAP_XATTR_EXCL"
  define ni where "ni = (?nd \<noteq> 0 \<and> i_placement pi = PLACEMENT_INLINE \<and> i_inline_dirty pi)"
  define s0 where "s0 = (0::int, flush_begin e f pi)"
  define s1 where "s1 = flush_step (?nd \<noteq> 0) (\<lambda>_. flush_data e ?nd) s0"
  define s2 where "s2 = flush_step (?na \<noteq> 0) (flush_attr e ?na) s1"
  define s3 where "s3 = flush_step (?nx \<noteq> 0) (flush_xattr e ?nx) s2"
  define s4 where "s4 = flush_step ni (flush_inline e) s3"
  have run: "powerfs_cap_flush e m pi = (fst s4, flush_end (i_release_count pi + 1) (snd s4))"
    using assms(2,3) unfolding powerfs_cap_flush_def Let_def f_def [symmetric] has_32_and
    by (auto simp: s4_def s3_def s2_def s1_def s0_def ni_def)
  let ?D = "i_dirty_caps pi AND NOT f"
  have 0: "i_dirty_caps (snd s0) = ?D" "i_placement (snd s0) = i_placement pi" "fst s0 = 0"
    by (simp_all add: s0_def flush_begin_def)
  have 1: "i_dirty_caps (snd s1) = ?D OR bits_if (?nd \<noteq> 0) (d OR bits_if (data_fails e (i_placement pi)) ?nd)"
    "i_placement (snd s1) = i_placement pi" "fst s1 < 0 \<longleftrightarrow> ?nd \<noteq> 0 \<and> data_fails e (i_placement pi)" "fst s1 \<le> 0"
    using flush_data_dirty [OF assms(1)] 0 by (simp_all add: s1_def flush_step_def)
  have 2: "i_dirty_caps (snd s2) = i_dirty_caps (snd s1) OR bits_if (?na \<noteq> 0) (d OR bits_if (e_setattr e < 0) ?na)"
    "fst s2 < 0 \<longleftrightarrow> fst s1 < 0 \<or> ?na \<noteq> 0 \<and> e_setattr e < 0" "fst s2 \<le> 0"
    using flush_attr_dirty [OF assms(1)] 1(4) by (simp_all add: s2_def flush_step_def)
  have 3: "i_dirty_caps (snd s3) = i_dirty_caps (snd s2) OR bits_if (?nx \<noteq> 0) (d OR bits_if (xattr_fails e) ?nx)"
    "fst s3 < 0 \<longleftrightarrow> fst s2 < 0 \<or> ?nx \<noteq> 0 \<and> xattr_fails e"
    using flush_xattr_dirty [OF assms(1)] 2(3) by (simp_all add: s3_def flush_step_def)
  have 4: "i_dirty_caps (snd s4) = i_dirty_caps (snd s3) OR bits_if ni d" "fst s3 < 0 \<Longrightarrow> fst s4 < 0"
    using flush_inline_dirty [OF assms(1)] by (simp_all add: s4_def flush_step_def)
  have any: "has f CAP_ANY_DIRTY \<longleftrightarrow> ?nd \<noteq> 0 \<or> ?na \<noteq> 0 \<or> ?nx \<noteq> 0"
    unfolding has_or by blast
  have D: "?D = i_dirty_caps pi AND NOT m"
    unfolding f_def by (rule bit_word_eqI) (auto simp: bit_simps)
  have nd: "ni \<Longrightarrow> ?nd \<noteq> 0"
    by (simp add: ni_def)
  have "i_dirty_caps (snd s4) = ?D OR failed OR bits_if (has f CAP_ANY_DIRTY) d"
    unfolding 4 3(1) 2(1) 1(1) failed_def any using nd
    by (cases "?nd = 0"; cases "?na = 0"; cases "?nx = 0") (auto simp: ac_simps)
  moreover have "failed \<noteq> 0 \<Longrightarrow> fst s4 < 0"
    using 4(2) 3(2) 2(2) 1(3) unfolding failed_def by (auto split: if_splits)
  ultimately show ?thesis
    unfolding run D by (simp add: flush_end_def)
qed



section \<open>Recall\<close>

text \<open>A window in which other threads leave the caps and the log alone, and what a flush then adds.\<close>

definition quiet :: "cenv \<Rightarrow> bool" where
  "quiet e \<longleftrightarrow> (\<forall>n s. i_caps (e_others e n s) = i_caps s \<and> i_auth_cap (e_others e n s) = i_auth_cap s \<and>
    i_log (e_others e n s) = i_log s)"

fun is_ack :: "cap_event \<Rightarrow> bool" where
  "is_ack (RecallAck t) = True"
| "is_ack _ = False"

definition extends :: "cinode \<Rightarrow> cinode \<Rightarrow> bool" where
  "extends s t \<longleftrightarrow> i_caps t = i_caps s \<and> i_auth_cap t = i_auth_cap s \<and>
    (\<exists>evs. i_log t = i_log s @ evs \<and> \<not> list_ex is_ack evs)"

lemma extends_refl [simp]: "extends s s"
  by (simp add: extends_def)

lemma extends_trans: "extends s t \<Longrightarrow> extends t u \<Longrightarrow> extends s u"
  unfolding extends_def by force

lemma extends_log [simp]: "extends s t \<Longrightarrow> \<not> list_ex is_ack evs \<Longrightarrow> extends s (t\<lparr>i_log := i_log t @ evs\<rparr>)"
  unfolding extends_def by force

lemma extends_fields:
  "extends s t \<Longrightarrow> extends s (flush_rollback bits t)" "extends s t \<Longrightarrow> extends s (t\<lparr>i_inline_dirty := d\<rparr>)"
  "extends s t \<Longrightarrow> extends s (flush_begin e bits t)" "extends s t \<Longrightarrow> extends s (flush_end tid t)"
  "extends s t \<Longrightarrow> extends s (t\<lparr>i_prealloc := p\<rparr>)"
  by (simp_all add: extends_def flush_rollback_def flush_begin_def flush_end_def)

lemma extends_others: "quiet e \<Longrightarrow> extends s t \<Longrightarrow> extends s (e_others e n t)"
  by (simp add: extends_def quiet_def)

lemma extends_xattr_push: "extends s t \<Longrightarrow> extends s (snd (xattr_push xs t))"
  by (induction xs t rule: xattr_push.induct) (auto simp: Let_def)

lemma extends_inline_attempts: "extends s t \<Longrightarrow> extends s (snd (inline_attempts e snap n t))"
  by (induction e snap n t rule: inline_attempts.induct) (auto simp: Let_def)

lemma extends_flush_steps:
  assumes "quiet e" "extends s t"
  shows "extends s (snd (flush_data e bits t))" "extends s (snd (flush_attr e bits ret t))"
    "extends s (snd (flush_xattr e bits ret t))" "extends s (snd (flush_inline e ret t))"
proof -
  note i = extends_fields extends_log [OF extends_others [OF assms(1)]] extends_others [OF assms(1)]
  show "extends s (snd (flush_data e bits t))" "extends s (snd (flush_attr e bits ret t))"
    using assms(2) by (auto simp: flush_data_def flush_attr_def Let_def intro!: i)
  have x: "xattr_push xs u = (r, v) \<Longrightarrow> extends s u \<Longrightarrow> extends s v" for xs u r v
    using extends_xattr_push [of s u xs] by simp
  show "extends s (snd (flush_xattr e bits ret t))"
    using assms(2) by (auto simp: flush_xattr_def Let_def intro!: i split: prod.split if_splits elim!: x)
  have x: "inline_attempts e y 5 u = (r, v) \<Longrightarrow> extends s u \<Longrightarrow> extends s v" for y u r v
    using extends_inline_attempts [of s u e y 5] by simp
  show "extends s (snd (flush_inline e ret t))"
    using assms(2) by (auto simp: flush_inline_def Let_def intro!: i split: prod.split option.split elim!: x)
qed

lemma extends_flush_step:
  "extends s (snd u) \<Longrightarrow> (\<And>r t. extends s t \<Longrightarrow> extends s (snd (f r t))) \<Longrightarrow> extends s (snd (flush_step c f u))"
  by (simp add: flush_step_def)

lemma extends_flush: "quiet e \<Longrightarrow> extends s (snd (powerfs_cap_flush e m s))"
  unfolding powerfs_cap_flush_def Let_def
  by (auto intro!: extends_fields extends_flush_steps extends_flush_step)

lemma get_cap_upd:
  assumes "\<And>c. issuer_id (f c) = issuer_id c"
  shows "get_cap q (upd_cap q f pi) = map_option f (get_cap q pi)"
proof -
  have "find (\<lambda>c. issuer_id c = q) (map (\<lambda>c. if issuer_id c = q then f c else c) cs) =
      map_option f (find (\<lambda>c. issuer_id c = q) cs)" for cs
    using assms by (induction cs) auto
  then show ?thesis
    by (simp add: get_cap_def upd_cap_def)
qed

lemma get_cap_cong: "i_caps pi = i_caps pi' \<Longrightarrow> get_cap q pi = get_cap q pi'"
  by (simp add: get_cap_def)

lemma get_cap_issue:
  "get_cap q (powerfs_cap_issue e q bits pi) = map_option (\<lambda>c. c\<lparr>issued := issued c OR bits,
    implemented := implemented c OR bits, cap_gen := 1, expire_jiffies := jiffies e + LEASE_DURATION e\<rparr>) (get_cap q pi)"
proof -
  have "i_caps (powerfs_cap_issue e q bits pi) = i_caps (upd_cap q (\<lambda>c. c\<lparr>issued := issued c OR bits,
      implemented := implemented c OR bits, cap_gen := 1, expire_jiffies := jiffies e + LEASE_DURATION e\<rparr>) pi)"
    by (simp add: powerfs_cap_issue_def Let_def)
  from get_cap_cong [OF this, of q] show ?thesis
    by (simp add: get_cap_upd)
qed

lemma cap_issue_log [simp]: "i_log (powerfs_cap_issue e q bits pi) = i_log pi"
  "i_dirty_caps (powerfs_cap_issue e q bits pi) = i_dirty_caps pi"
  by (simp_all add: powerfs_cap_issue_def Let_def)

text \<open>The bits granted with the acknowledgement.\<close>

definition piggyback :: "cenv \<Rightarrow> bytes \<Rightarrow> u32" where
  "piggyback e t = (let (r, p) = e_ack e t in if r < 0 \<or> p = 0 then 0 else wire_capset_to_kernel_bits p)"

lemma recall_ack_effect:
  assumes "get_cap q pi = Some c" "c_token c \<noteq> []"
  shows "i_log (snd (cap_send_recall_ack e q pi)) = i_log pi @ [RecallAck (c_token c)]"
    "i_dirty_caps (snd (cap_send_recall_ack e q pi)) = i_dirty_caps pi"
    "\<exists>c'. get_cap q (snd (cap_send_recall_ack e q pi)) = Some c' \<and> issued c' = issued c OR piggyback e (c_token c) \<and>
      implemented c' = implemented c OR piggyback e (c_token c) \<and> c_epoch c' = c_epoch c"
proof -
  have "get_cap q (log_ev ev pi) = Some c" for ev
    using assms(1) by (simp add: get_cap_def)
  then show "i_log (snd (cap_send_recall_ack e q pi)) = i_log pi @ [RecallAck (c_token c)]"
    "i_dirty_caps (snd (cap_send_recall_ack e q pi)) = i_dirty_caps pi"
    "\<exists>c'. get_cap q (snd (cap_send_recall_ack e q pi)) = Some c' \<and> issued c' = issued c OR piggyback e (c_token c) \<and>
      implemented c' = implemented c OR piggyback e (c_token c) \<and> c_epoch c' = c_epoch c"
    using assms by (auto simp: cap_send_recall_ack_def piggyback_def Let_def get_cap_issue split: prod.split)
qed


lemma revoke_effect:
  assumes "quiet e" "get_cap q pi = Some c" "c_token c \<noteq> []"
  shows "\<exists>evs. i_log (powerfs_cap_revoke e q rv pi) = i_log pi @ evs @ [RecallAck (c_token c)] \<and> \<not> list_ex is_ack evs"
    "\<exists>c'. get_cap q (powerfs_cap_revoke e q rv pi) = Some c' \<and>
      issued c' = (issued c AND NOT rv) OR piggyback e (c_token c) \<and> implemented c' = issued c' \<and> c_epoch c' = c_epoch c"
    "i_dirty_caps (powerfs_cap_revoke e q rv pi) = (if has (i_dirty_caps pi) rv then i_dirty_caps (snd (powerfs_cap_flush e
      (i_dirty_caps pi AND rv) (upd_cap q (\<lambda>c. c\<lparr>issued := issued c AND NOT rv\<rparr>) pi))) else i_dirty_caps pi)"
proof -
  define p1 where "p1 = upd_cap q (\<lambda>c. c\<lparr>issued := issued c AND NOT rv\<rparr>) pi"
  define p2 where "p2 = (if has (i_dirty_caps pi) rv then snd (powerfs_cap_flush e (i_dirty_caps pi AND rv) p1) else p1)"
  define p3 where "p3 = (if has rv CAP_AUTH_EXCL \<and> i_isdir p2 then log_ev FlushCreates p2 else p2)"
  define p4 where "p4 = upd_cap q (\<lambda>c. c\<lparr>implemented := issued c\<rparr>) p3"
  define p5 where "p5 = (if has rv CAP_FILE_SHARED
    then p4\<lparr>i_shared_gen := i_shared_gen p4 + 1, i_complete := False, i_dir_complete := False\<rparr> else p4)"
  define p6 where "p6 = revoke_pages rv (revoke_inline rv p5)"
  have run: "powerfs_cap_revoke e q rv pi = snd (cap_send_recall_ack e q p6)"
    unfolding powerfs_cap_revoke_def Let_def p6_def p5_def p4_def p3_def p2_def p1_def by simp
  have 1: "get_cap q p1 = Some (c\<lparr>issued := issued c AND NOT rv\<rparr>)" "i_log p1 = i_log pi"
    "i_dirty_caps p1 = i_dirty_caps pi"
    using assms(2) by (simp_all add: p1_def get_cap_upd)
  have "extends p1 p3"
    using extends_flush [OF assms(1)] by (simp add: p3_def p2_def)
  then have 3: "get_cap q p3 = get_cap q p1" "\<exists>evs. i_log p3 = i_log pi @ evs \<and> \<not> list_ex is_ack evs"
    using 1 by (auto simp: extends_def get_cap_def)
  have 6: "i_caps p6 = i_caps p4" "\<exists>evs. i_log p6 = i_log p3 @ evs \<and> \<not> list_ex is_ack evs"
    "i_dirty_caps p6 = i_dirty_caps p2"
    by (auto simp: p6_def p5_def p4_def p3_def revoke_pages_def revoke_inline_def Let_def upd_cap_def)
  have c6: "get_cap q p6 = Some (c\<lparr>issued := issued c AND NOT rv, implemented := issued c AND NOT rv\<rparr>)"
    using get_cap_cong [OF 6(1), of q] 3(1) 1(1) by (simp add: p4_def get_cap_upd)
  have tok: "c_token (c\<lparr>issued := issued c AND NOT rv, implemented := issued c AND NOT rv\<rparr>) \<noteq> []"
    using assms(3) by simp
  note ack = recall_ack_effect [OF c6 tok, of e]
  show "\<exists>evs. i_log (powerfs_cap_revoke e q rv pi) = i_log pi @ evs @ [RecallAck (c_token c)] \<and> \<not> list_ex is_ack evs"
    using 3(2) 6(2) ack(1) unfolding run by force
  show "\<exists>c'. get_cap q (powerfs_cap_revoke e q rv pi) = Some c' \<and>
      issued c' = (issued c AND NOT rv) OR piggyback e (c_token c) \<and> implemented c' = issued c' \<and> c_epoch c' = c_epoch c"
    using ack(3) unfolding run by auto
  show "i_dirty_caps (powerfs_cap_revoke e q rv pi) = (if has (i_dirty_caps pi) rv then i_dirty_caps (snd (powerfs_cap_flush e
      (i_dirty_caps pi AND rv) (upd_cap q (\<lambda>c. c\<lparr>issued := issued c AND NOT rv\<rparr>) pi))) else i_dirty_caps pi)"
    using ack(2) 6(3) 1(3) unfolding run p2_def p1_def by simp
qed


lemma notify_recall:
  assumes "\<not> i_evicting pi" "\<not> i_shutdown pi" "find_cap_by_token_locked pi tok = Some q" "get_cap q pi = Some c"
    "has (issued c) (NOT (wire_capset_to_kernel_bits retain))"
  shows "powerfs_cap_notify_work_func e (CapRecall ino tok rc retain ep) pi =
    powerfs_cap_revoke e q (issued c AND NOT (wire_capset_to_kernel_bits retain)) (upd_cap q (\<lambda>c. c\<lparr>c_epoch := ep\<rparr>) pi)"
  using assms by (simp add: powerfs_cap_notify_work_func_def Let_def)

lemma andnot_andnot: "a AND NOT (a AND NOT b) = a AND b" for a b :: "'a::len word"
  by (rule bit_word_eqI) (auto simp: bit_simps)

lemma and_and_not: "a AND NOT (a AND b) = a AND NOT b" for a b :: "'a::len word"
  by (rule bit_word_eqI) (auto simp: bit_simps)

lemma and_and_not_norm: "a AND (NOT a OR NOT b) = a AND NOT b" for a b :: "'a::len word"
  by (rule bit_word_eqI) (auto simp: bit_simps)



text \<open>The recall is acknowledged even when the write-back of its data failed: the bits are still
  dirty when the acknowledgement tells the server that the flush is complete.\<close>

theorem recall_acks_failed_flush:
  assumes "quiet e" "marks 0 e" "\<not> i_evicting pi" "\<not> i_shutdown pi" "find_cap_by_token_locked pi tok = Some q"
    "get_cap q pi = Some c" "c_token c \<noteq> []" "i_prealloc pi"
    "has (i_dirty_caps pi AND (issued c AND NOT (wire_capset_to_kernel_bits retain))) CAP_WR_DATA" "e_writeback e < 0"
  shows "last (i_log (powerfs_cap_notify_work_func e (CapRecall ino tok rc retain ep) pi)) = RecallAck (c_token c) \<and>
    has (i_dirty_caps (powerfs_cap_notify_work_func e (CapRecall ino tok rc retain ep) pi)) CAP_WR_DATA"
proof -
  define rv where "rv = issued c AND NOT (wire_capset_to_kernel_bits retain)"
  let ?p = "upd_cap q (\<lambda>c. c\<lparr>c_epoch := ep\<rparr>) pi"
  let ?p1 = "upd_cap q (\<lambda>c. c\<lparr>issued := issued c AND NOT rv\<rparr>) ?p"
  have d: "has (i_dirty_caps pi AND rv) CAP_WR_DATA"
    using assms(9) by (simp add: rv_def)
  then have h: "has (i_dirty_caps ?p1) (i_dirty_caps pi AND rv)" and rv: "has (issued c) (NOT (wire_capset_to_kernel_bits retain))"
    by (auto simp: rv_def)
  have run: "powerfs_cap_notify_work_func e (CapRecall ino tok rc retain ep) pi = powerfs_cap_revoke e q rv ?p"
    using notify_recall [OF assms(3-6) rv] by (simp add: rv_def)
  have c: "get_cap q ?p = Some (c\<lparr>c_epoch := ep\<rparr>)" and t: "c_token (c\<lparr>c_epoch := ep\<rparr>) \<noteq> []"
    using assms(6,7) by (simp_all add: get_cap_upd)
  note eff = revoke_effect [OF assms(1) c t, of rv]
  have "i_prealloc ?p1 \<or> e_flush_alloc e \<or> e_flush_atomic e" "data_fails e p" for p
    using assms(8,10) by (simp_all add: upd_cap_def data_fails_def)
  then have "covers (i_dirty_caps (powerfs_cap_revoke e q rv ?p)) (i_dirty_caps pi AND rv AND CAP_WR_DATA)"
    using flush_accounts [OF assms(2) h] eff(3) h unfolding covers_bit by (simp add: bit_simps)
  then have "has (i_dirty_caps (powerfs_cap_revoke e q rv ?p)) CAP_WR_DATA"
    using d unfolding covers_bit has_bit by (auto simp: bit_simps)
  with eff(1) show ?thesis
    unfolding run by auto
qed

theorem recall_acks_failed_flush_witness:
  "last (i_log (powerfs_cap_notify_work_func (env0\<lparr>e_writeback := - EIO\<rparr>) (CapRecall 1 [7] 2 1 5) inode0)) = RecallAck [7]"
proof -
  let ?e = "env0\<lparr>e_writeback := - EIO\<rparr>"
  have e: "quiet ?e" "marks 0 ?e"
    by (simp_all add: quiet_def marks_def env0_def)
  have "find_cap_by_token_locked inode0 [7] = Some 0" "get_cap 0 inode0 = Some cap0" "\<not> i_evicting inode0" "\<not> i_shutdown inode0"
    "c_token cap0 \<noteq> []" "i_prealloc inode0" "e_writeback ?e < 0"
    "has (i_dirty_caps inode0 AND (issued cap0 AND NOT (wire_capset_to_kernel_bits 1))) CAP_WR_DATA"
    by (simp_all add: find_cap_by_token_locked_def get_cap_def inode0_def cap0_def cap_zero_def wire_capset_to_kernel_bits_def)
  from recall_acks_failed_flush [OF e this(3,4,1,2,5,6,8,7), of 1 2 5] show ?thesis
    by (simp add: cap0_def)
qed

section \<open>Inline data\<close>

lemma flushed_bits: "(a AND NOT (a AND m)) AND m = 0" for a m :: "'a::len word"
  by (rule bit_word_eqI) (auto simp: bit_simps)

lemma flush_inline_only:
  assumes "marks 0 e" "has (i_dirty_caps pi) CAP_WR_DATA" "i_prealloc pi" "i_placement pi = PLACEMENT_INLINE" "i_inline_dirty pi"
    "0 \<le> e_writeback e"
  shows "powerfs_cap_flush e CAP_WR_DATA pi = (let s = flush_inline e 0 (log_ev (WriteBack (e_writeback e))
      (e_others e 0 (flush_begin e (i_dirty_caps pi AND CAP_WR_DATA) pi)))
    in (fst s, flush_end (i_release_count pi + 1) (snd s)))"
proof -
  let ?f = "i_dirty_caps pi AND CAP_WR_DATA"
  have z: "?f AND CAP_AUTH_EXCL = 0" "?f AND CAP_XATTR_EXCL = 0" "?f AND CAP_WR_DATA = ?f"
    by (simp_all add: and.assoc)
  have "i_placement (e_others e 0 (flush_begin e ?f pi)) = PLACEMENT_INLINE"
    using assms(1,4) by (simp add: marks_def flush_begin_def)
  then show ?thesis
    using assms z unfolding powerfs_cap_flush_def Let_def
    by (simp add: flush_step_def flush_data_def Let_def)
qed

text \<open>When the inline data of a file could not be sent, the data stays marked as unsent, but the
  dirty bit is gone: flushing again succeeds at once without sending anything.\<close>

theorem inline_flush_not_retried:
  assumes "marks 0 e" "has (i_dirty_caps pi) CAP_WR_DATA" "i_prealloc pi" "i_placement pi = PLACEMENT_INLINE" "i_inline_dirty pi"
    "0 \<le> e_writeback e" "e_align e < 0"
  shows "case powerfs_cap_flush e CAP_WR_DATA pi of (r1, pi1) \<Rightarrow> r1 < 0 \<and> i_inline_dirty pi1 \<and>
    (case powerfs_cap_flush e2 CAP_WR_DATA pi1 of (r2, pi2) \<Rightarrow> r2 = 0 \<and> i_inline_dirty pi2 \<and> i_log pi2 = i_log pi1)"
proof -
  define f where "f = i_dirty_caps pi AND CAP_WR_DATA"
  let ?s = "e_others e 3 (log_ev (WriteBack (e_writeback e)) (e_others e 0 (flush_begin e f pi)))"
  let ?pi1 = "flush_end (i_release_count pi + 1) (?s\<lparr>i_inline_dirty := True\<rparr>)"
  have run: "powerfs_cap_flush e CAP_WR_DATA pi = (e_align e, ?pi1)"
    using assms(7) unfolding flush_inline_only [OF assms(1-6)] f_def [symmetric] by (simp add: flush_inline_def Let_def)
  have "i_dirty_caps ?pi1 = i_dirty_caps pi AND NOT f"
    using assms(1) by (simp add: marks_def flush_end_def flush_begin_def)
  then have "i_dirty_caps ?pi1 AND CAP_WR_DATA = 0"
    using flushed_bits [of "i_dirty_caps pi" CAP_WR_DATA] unfolding f_def by argo
  then have "powerfs_cap_flush e2 CAP_WR_DATA ?pi1 = (0, ?pi1\<lparr>i_prealloc := i_prealloc ?pi1 \<or> e_flush_alloc e2\<rparr>)"
    unfolding powerfs_cap_flush_def Let_def by simp
  then show ?thesis
    unfolding run using assms(7) by (simp add: flush_end_def)
qed

theorem inline_flush_not_retried_witness:
  "case powerfs_cap_flush (env0\<lparr>e_align := - EIO\<rparr>) CAP_WR_DATA
      (inode0\<lparr>i_placement := PLACEMENT_INLINE, i_inline := Some [1, 2], i_inline_len := 2, i_inline_dirty := True\<rparr>) of
    (r1, pi1) \<Rightarrow> r1 < 0 \<and> i_inline_dirty pi1 \<and>
    (case powerfs_cap_flush env0 CAP_WR_DATA pi1 of (r2, pi2) \<Rightarrow> r2 = 0 \<and> i_inline_dirty pi2 \<and> i_log pi2 = i_log pi1)"
  by (rule inline_flush_not_retried) (simp_all add: marks_def env0_def inode0_def)

text \<open>C30: A write to the inline data while its old contents are being sent is forgotten: the flush
  succeeds, the new contents were not sent, and the inode is not marked as having unsent data.\<close>

theorem inline_write_during_flush_lost:
  assumes "\<And>n s. n \<noteq> 5 \<Longrightarrow> e_others e n s = s"
    "\<And>s. e_others e 5 s = s\<lparr>i_inline := Some new, i_inline_dirty := True, i_dirty_caps := i_dirty_caps s OR CAP_FILE_WR\<rparr>"
    "has (i_dirty_caps pi) CAP_WR_DATA" "i_prealloc pi" "i_placement pi = PLACEMENT_INLINE" "i_inline_dirty pi"
    "i_inline pi = Some old" "length new = length old" "unat (i_inline_len pi) = length old" "old \<noteq> []"
    "0 \<le> e_writeback e" "e_align e = 0" "e_snap_alloc e" "e_inline_rpc e 1 = 0"
  shows "case powerfs_cap_flush e CAP_WR_DATA pi of (r, pi1) \<Rightarrow> r = 0 \<and> i_inline pi1 = Some new \<and>
    i_log pi1 = i_log pi @ [WriteBack (e_writeback e), UpdateInline old 0] \<and> \<not> i_inline_dirty pi1"
proof -
  let ?f = "i_dirty_caps pi AND CAP_WR_DATA"
  have z: "?f AND CAP_AUTH_EXCL = 0" "?f AND CAP_XATTR_EXCL = 0" "?f AND CAP_WR_DATA = ?f"
    by (simp_all add: and.assoc)
  have len: "i_inline_len pi \<noteq> 0"
    using assms(9,10) by auto
  have try1: "inline_attempts e old 5 s = (True, log_ev (UpdateInline old 0) s)" for s
    using assms(14) by (simp add: numeral_eq_Suc)
  have "flush_inline e 0 (log_ev (WriteBack (e_writeback e)) (flush_begin e ?f pi)) =
      (0, (flush_begin e ?f pi)\<lparr>i_log := i_log pi @ [WriteBack (e_writeback e), UpdateInline old 0], i_inline := Some new,
        i_dirty_caps := i_dirty_caps pi AND NOT ?f OR CAP_FILE_WR, i_inline_dirty := False\<rparr>)"
    using assms len by (simp add: flush_inline_def Let_def try1 flush_begin_def)
  then show ?thesis
    using assms z unfolding powerfs_cap_flush_def Let_def
    by (simp add: flush_step_def flush_data_def Let_def flush_begin_def flush_end_def)
qed

theorem inline_write_during_flush_lost_witness:
  "case powerfs_cap_flush (env0\<lparr>e_others := (\<lambda>n s. if n = 5 then s\<lparr>i_inline := Some [8, 9], i_inline_dirty := True,
      i_dirty_caps := i_dirty_caps s OR CAP_FILE_WR\<rparr> else s)\<rparr>) CAP_WR_DATA
      (inode0\<lparr>i_placement := PLACEMENT_INLINE, i_inline := Some [1, 2], i_inline_len := 2, i_inline_dirty := True\<rparr>) of
    (r, pi1) \<Rightarrow> r = 0 \<and> i_inline pi1 = Some [8, 9] \<and> i_log pi1 = [WriteBack 0, UpdateInline [1, 2] 0] \<and> \<not> i_inline_dirty pi1"
  using inline_write_during_flush_lost [where new = "[8, 9]" and old = "[1, 2]" and
    e = "env0\<lparr>e_others := (\<lambda>n s. if n = 5 then s\<lparr>i_inline := Some [8, 9], i_inline_dirty := True,
      i_dirty_caps := i_dirty_caps s OR CAP_FILE_WR\<rparr> else s)\<rparr>" and
    pi = "inode0\<lparr>i_placement := PLACEMENT_INLINE, i_inline := Some [1, 2], i_inline_len := 2, i_inline_dirty := True\<rparr>"]
  by (simp add: env0_def inode0_def)

end
