(* ===== verification/CapsClient.thy ===== *)
theory CapsClient
  imports CapsFlush
begin

unbundle bit_operations_syntax

text \<open>
  The clients of the caps of an inode: the queries for what is held, the waiting acquisition of references,
  the upgrade of locally created inodes, the renewal sweep and the shrinker of \<open>powerfs_caps.c\<close>.
\<close>

section \<open>Waiting for references\<close>

abbreviation ERESTARTSYS :: int where "ERESTARTSYS \<equiv> 512"

datatype cap_metric = CapHit | CapMis

text \<open>The loop of \<open>powerfs_get_caps\<close> with \<open>n\<close> rounds left of thirty. \<open>E\<close> gives the environment of each call,
  \<open>sg\<close> tells whether a signal is pending at each test, and \<open>ot\<close> is what other threads do while it sleeps.
  The result is the return value, the output \<open>got\<close> where it is written, the metric counted, and the inode.\<close>

fun get_caps_loop :: "(nat \<Rightarrow> cenv) \<Rightarrow> (nat \<Rightarrow> bool) \<Rightarrow> (nat \<Rightarrow> cinode \<Rightarrow> cinode) \<Rightarrow> u32 \<Rightarrow> u32 \<Rightarrow> nat \<Rightarrow> cinode \<Rightarrow>
    int \<times> u32 option \<times> cap_metric option \<times> cinode" where
  "get_caps_loop E sg ot need want n pi =
    (let r = 30 - n; (ok, refs, pi) = try_get_cap_refs_locked (E (3 * r)) need want pi
     in if ok then (0, Some refs, Some (if r = 0 then CapHit else CapMis), pi)
        else case n of
          0 \<Rightarrow> (0, Some refs, Some CapMis, pi)
        | Suc k \<Rightarrow>
            let pi = powerfs_check_caps (E (3 * r + 1)) False pi
            in if sg (2 * r) then (- ERESTARTSYS, None, None, pi)
               else
                 let (ok, refs, pi) = try_get_cap_refs_locked (E (3 * r + 2)) need want pi
                 in if ok then (0, Some refs, None, pi)
                    else if sg (2 * r + 1) then (- ERESTARTSYS, None, None, pi)
                    else get_caps_loop E sg ot need want k (ot r pi))"

declare get_caps_loop.simps [simp del]

definition powerfs_get_caps :: "(nat \<Rightarrow> cenv) \<Rightarrow> (nat \<Rightarrow> bool) \<Rightarrow> (nat \<Rightarrow> cinode \<Rightarrow> cinode) \<Rightarrow> u32 \<Rightarrow> u32 \<Rightarrow> cinode \<Rightarrow>
    int \<times> u32 option \<times> cap_metric option \<times> cinode" where
  "powerfs_get_caps E sg ot need want pi = get_caps_loop E sg ot need want 30 pi"

section \<open>Upgrade of a local create, and renewal\<close>

definition has_token :: "cinode \<Rightarrow> bool" where
  "has_token pi = (case Option.bind (i_auth_cap pi) (\<lambda>q. get_cap q pi) of None \<Rightarrow> False | Some c \<Rightarrow> c_token c \<noteq> [])"

text \<open>The attempts that are left, at most three. The first component tells that the marker was seen cleared.\<close>

fun upgrade_attempts :: "(nat \<Rightarrow> cenv) \<Rightarrow> (nat \<Rightarrow> cinode \<Rightarrow> cinode) \<Rightarrow> bool \<Rightarrow> nat \<Rightarrow> cinode \<Rightarrow> bool \<times> cinode" where
  "upgrade_attempts E ot wr 0 pi = (False, pi)"
| "upgrade_attempts E ot wr (Suc k) pi =
    (if \<not> i_local_cap pi then (True, pi)
     else if has_token pi then (False, pi)
     else
       let (ret, pi) = cap_open_grant_and_issue (E (3 - Suc k)) wr pi
       in if ret = 0 \<and> \<not> i_local_cap pi then (True, pi)
          else if ret = 0 \<and> has_token pi then (False, pi)
          else upgrade_attempts E ot wr k (if k = 0 then pi else ot (3 - Suc k) pi))"

text \<open>\<open>fl\<close> is the forced flush of the pending create of the parent directory.\<close>

definition powerfs_upgrade_local_create ::
  "(nat \<Rightarrow> cenv) \<Rightarrow> (nat \<Rightarrow> cinode \<Rightarrow> cinode) \<Rightarrow> (cinode \<Rightarrow> cinode) \<Rightarrow> bool \<Rightarrow> cinode \<Rightarrow> int \<times> cinode" where
  "powerfs_upgrade_local_create E ot fl wr pi =
    (if \<not> i_local_cap pi then (0, pi)
     else let (fin, pi) = upgrade_attempts E ot wr 3 (fl pi)
          in if fin then (0, pi)
             else if has_token pi then (0, pi\<lparr>i_local_cap := False\<rparr>)
             else (- EAGAIN, pi))"

text \<open>One inode of the sweep of \<open>powerfs_cap_renew_work_fn\<close>; the result tells whether the renewal counts as
  successful (\<open>None\<close> when it was not tried).\<close>

definition cap_renew_inode :: "cenv \<Rightarrow> bool \<Rightarrow> cinode \<Rightarrow> bool option \<times> cinode" where
  "cap_renew_inode e pages_dirty pi =
    (if \<not> i_isreg pi then (None, pi)
     else case Option.bind (i_auth_cap pi) (\<lambda>q. get_cap q pi) of
       None \<Rightarrow> (None, pi)
     | Some c \<Rightarrow>
         if c_token c = [] \<or> cap_gen c = 0 then (None, pi)
         else
           let open_wr = (i_nr_wr pi > 0);
               dirty = (i_inline_dirty pi \<or> i_dirty_caps pi \<noteq> 0);
               was_expired = (expire_jiffies c \<noteq> 0 \<and> time_after_eq (jiffies e) (expire_jiffies c));
               renew_now = (expire_jiffies c = 0 \<or>
                 time_after_eq (jiffies e) (expire_jiffies c - LEASE_DURATION e div 3))
           in if \<not> renew_now then (None, pi)
              else if \<not> open_wr \<and> \<not> dirty \<and> \<not> pages_dirty then (None, pi)
              else
                let dirty = (dirty \<or> \<not> open_wr);
                    pi = snd (cap_open_grant_and_issue e (open_wr \<or> dirty) pi);
                    ok = (case Option.bind (i_auth_cap pi) (\<lambda>q. get_cap q pi) of
                            None \<Rightarrow> False | Some c \<Rightarrow> c_token c \<noteq> [] \<and> powerfs_cap_is_valid e c)
                in (Some ok, if ok \<and> was_expired \<and> dirty then snd (powerfs_cap_flush e CAP_ANY_DIRTY pi) else pi))"

section \<open>The shrinker and the quiesce operation\<close>

text \<open>A cap on the LRU list: whether it has an inode, whether its pages are dirty or under write-back,
  whether it has a token, and whether a reference to its inode can be taken.\<close>

record lru_cap =
  l_id :: nat
  l_ci :: bool
  l_busy :: bool
  l_token :: bool
  l_igrab :: bool

definition powerfs_cap_shrinker_count :: "lru_cap list \<Rightarrow> nat" where
  "powerfs_cap_shrinker_count lru = (if lru = [] then 0 else length lru)"

text \<open>The first phase with \<open>n\<close> entries left of the budget: the list, the entries to dispose of (latest first)
  and the number of them.\<close>

fun shrink_loop :: "nat \<Rightarrow> nat \<Rightarrow> lru_cap list \<Rightarrow> lru_cap list \<Rightarrow> nat \<Rightarrow> lru_cap list \<times> lru_cap list \<times> nat" where
  "shrink_loop nr 0 lru disp freed = (lru, disp, freed)"
| "shrink_loop nr (Suc n) [] disp freed = ([], disp, freed)"
| "shrink_loop nr (Suc n) (c # cs) disp freed =
    (if \<not> freed < nr then (c # cs, disp, freed)
     else if \<not> l_ci c then shrink_loop nr n cs disp freed
     else if l_busy c then shrink_loop nr n (cs @ [c]) disp freed
     else if \<not> l_token c then shrink_loop nr n cs disp freed
     else if \<not> l_igrab c then shrink_loop nr n cs disp freed
     else shrink_loop nr n cs (c # disp) (freed + 1))"

text \<open>The result is the number freed, the list, and the inodes whose pages are invalidated, in order.\<close>

definition powerfs_cap_shrinker_scan :: "nat \<Rightarrow> lru_cap list \<Rightarrow> nat \<times> lru_cap list \<times> nat list" where
  "powerfs_cap_shrinker_scan nr lru =
    (let (lru', disp, freed) = shrink_loop nr (length lru) lru [] 0 in (freed, lru', map l_id disp))"

text \<open>\<open>powerfs_quiesce_all\<close> after the file system has been synchronised: the inodes that are collected, each
  with whether a reference can be taken and whether its pages are busy, and what is done with one.\<close>

definition quiesce_takes :: "bool \<times> bool \<times> cinode \<Rightarrow> bool" where
  "quiesce_takes = (\<lambda>(igrab, busy, pi). igrab \<and> has_token pi \<and> \<not> (i_nr_rd pi > 0 \<or> i_nr_wr pi > 0) \<and> \<not> busy)"

definition quiesce_inode :: "cenv \<Rightarrow> cinode \<Rightarrow> cinode" where
  "quiesce_inode e pi =
    (case i_auth_cap pi of None \<Rightarrow> pi | Some q \<Rightarrow> log_ev InvalidatePages (snd (cap_send_release e q pi)))"

definition powerfs_quiesce_all :: "cenv \<Rightarrow> (bool \<times> bool \<times> cinode) list \<Rightarrow> nat \<times> (bool \<times> bool \<times> cinode) list" where
  "powerfs_quiesce_all e inodes =
    (length (filter quiesce_takes inodes),
     map (\<lambda>x. if quiesce_takes x then (fst x, fst (snd x), quiesce_inode e (snd (snd x))) else x) inodes)"

section \<open>The bits held\<close>

definition held :: "cenv \<Rightarrow> cap list \<Rightarrow> u32 \<Rightarrow> u32" where
  "held e cs have = fold (\<lambda>c a. if powerfs_cap_is_valid e c then a OR issued c else a) cs have"

lemma held_simps [simp]: "held e [] a = a"
  "held e (c # cs) a = held e cs (if powerfs_cap_is_valid e c then a OR issued c else a)"
  by (simp_all add: held_def)

lemma held_mono: "covers a m \<Longrightarrow> covers (held e cs a) m"
proof (induction cs arbitrary: a)
  case (Cons c cs)
  then have "covers (a OR issued c) m"
    unfolding covers_bit by (simp add: bit_or_iff)
  with Cons show ?case
    by simp
qed simp

lemma and_eq_covers: "k AND m = m \<longleftrightarrow> covers k m" for k m :: "'a::len word"
  unfolding covers_bit by (auto simp: bit_eq_iff bit_simps dest: bit_imp_le_length)

lemma issued_mask_loop_held:
  "\<not> covers a m \<Longrightarrow> fst (issued_mask_loop e m touch seen a cs) \<longleftrightarrow> covers (held e cs a) m"
proof (induction cs arbitrary: seen a)
  case (Cons c cs)
  let ?a = "a OR issued c"
  have mono: "covers (issued c) m \<Longrightarrow> covers ?a m"
    unfolding covers_bit by (simp add: bit_or_iff)
  consider (invalid) "\<not> powerfs_cap_is_valid e c" | (hit) "powerfs_cap_is_valid e c" "covers ?a m"
    | (miss) "powerfs_cap_is_valid e c" "\<not> covers ?a m" by blast
  then show ?case
  proof cases
    case invalid
    then show ?thesis using Cons by simp
  next
    case hit
    then show ?thesis
      unfolding issued_mask_loop.simps held_simps and_eq_covers using held_mono by simp
  next
    case miss
    then have "\<not> covers (issued c) m" using mono by blast
    with miss show ?thesis
      unfolding issued_mask_loop.simps held_simps and_eq_covers using Cons.IH [OF miss(2)] by simp
  qed
qed simp

lemma issued_mask_loop_same:
  "map (last_used_update (\<lambda>_. 0)) (snd (issued_mask_loop e m touch seen a cs)) = map (last_used_update (\<lambda>_. 0)) (seen @ cs) \<and>
    (\<not> touch \<longrightarrow> snd (issued_mask_loop e m touch seen a cs) = seen @ cs)"
  by (induction e m touch seen a cs rule: issued_mask_loop.induct) (auto simp: o_def)

lemma caps_issued_held:
  "fst (powerfs_caps_issued e pi) = held e (i_caps pi) (i_snap_caps pi) AND
    (case Option.bind (i_auth_cap pi) (\<lambda>q. get_cap q pi) of None \<Rightarrow> NOT 0 | Some c \<Rightarrow> NOT (implemented c) OR issued c)"
proof -
  have "fst (fold (\<lambda>c (have, impl).
      if powerfs_cap_is_valid e c then (have OR issued c, impl OR implemented c) else (have, impl)) cs (a, b)) = held e cs a"
    for cs and a b :: u32
    by (induction cs arbitrary: a b) auto
  then show ?thesis
    unfolding powerfs_caps_issued_def Let_def case_prod_beta by (auto split: option.split)
qed

text \<open>The two ways to ask what is held agree: the query for a mask answers yes exactly when the
  union of the bits of the valid caps covers the mask, changes nothing but time stamps of last use
  (nothing at all without \<open>touch\<close>), and \<open>powerfs_caps_issued\<close> is this union without the bits that the
  authoritative cap is giving back.\<close>

theorem caps_issued_mask_spec:
  "(fst (powerfs_caps_issued_mask e m touch pi) \<longleftrightarrow> covers (held e (i_caps pi) (i_snap_caps pi)) m) \<and>
   map (last_used_update (\<lambda>_. 0)) (i_caps (snd (powerfs_caps_issued_mask e m touch pi))) =
     map (last_used_update (\<lambda>_. 0)) (i_caps pi) \<and>
   (touch \<or> snd (powerfs_caps_issued_mask e m touch pi) = pi) \<and>
   fst (powerfs_caps_issued e pi) = held e (i_caps pi) (i_snap_caps pi) AND
     (case Option.bind (i_auth_cap pi) (\<lambda>q. get_cap q pi) of None \<Rightarrow> NOT 0 | Some c \<Rightarrow> NOT (implemented c AND NOT (issued c)))"
proof -
  have loop: "powerfs_caps_issued_mask e m touch pi = (if covers (i_snap_caps pi) m then (True, pi)
      else let s = issued_mask_loop e m touch [] (i_snap_caps pi) (i_caps pi) in (fst s, pi\<lparr>i_caps := snd s\<rparr>))"
    unfolding powerfs_caps_issued_mask_def and_eq_covers Let_def case_prod_beta ..
  have demorgan: "NOT (a AND NOT b) = NOT a OR b" for a b :: u32
    by (rule bit_word_eqI) (auto simp: bit_simps)
  note same = issued_mask_loop_same [of e m touch "[]" "i_snap_caps pi" "i_caps pi"]
  have "fst (powerfs_caps_issued_mask e m touch pi) \<longleftrightarrow> covers (held e (i_caps pi) (i_snap_caps pi)) m"
  proof (cases "covers (i_snap_caps pi) m")
    case True
    with held_mono [OF True, of e "i_caps pi"] show ?thesis
      unfolding loop by simp
  next
    case False
    with issued_mask_loop_held [OF False, of e touch "[]" "i_caps pi"] show ?thesis
      unfolding loop Let_def by simp
  qed
  moreover have "map (last_used_update (\<lambda>_. 0)) (i_caps (snd (powerfs_caps_issued_mask e m touch pi))) =
     map (last_used_update (\<lambda>_. 0)) (i_caps pi)"
    using same unfolding loop Let_def by (cases "covers (i_snap_caps pi) m") simp_all
  moreover have "touch \<or> snd (powerfs_caps_issued_mask e m touch pi) = pi"
    using same unfolding loop Let_def by (cases touch) simp_all
  ultimately show ?thesis
    unfolding caps_issued_held demorgan by blast
qed



section \<open>References taken by the waiting loop\<close>

lemma caps_issued_take_refs [simp]: "powerfs_caps_issued e (powerfs_cap_take_refs got pi) = powerfs_caps_issued e pi"
  by (simp add: powerfs_caps_issued_def powerfs_cap_take_refs_def get_cap_def)

lemma check_caps_no_grant:
  "\<forall>t w. g_ret (e_acquire e t w) \<noteq> 0 \<Longrightarrow> powerfs_check_caps e False pi = pi"
  by (simp add: powerfs_check_caps_def Let_def split: option.split)

definition refs_of :: "u32 \<Rightarrow> u32" where
  "refs_of iss = CAP_PIN OR (iss AND CAP_FILE_SHARED) OR (iss AND CAP_FILE_CACHE) OR
    (iss AND CAP_FILE_WR) OR (iss AND CAP_FILE_EXCL)"

lemma has_refs_of: "has (refs_of iss) CAP_PIN" "has (refs_of iss) CAP_FILE_WR \<longleftrightarrow> has iss CAP_FILE_WR"
  unfolding refs_of_def has_pow2 bit_or_iff bit_and_iff bit_pow2 by auto

text \<open>Only the bits the loop needs are held, and the server grants no more.\<close>

definition half_granted :: "cenv \<Rightarrow> u32 \<Rightarrow> u32 \<Rightarrow> cinode \<Rightarrow> bool" where
  "half_granted e need want pi \<longleftrightarrow> covers (fst (powerfs_caps_issued e pi)) need \<and>
    \<not> covers (fst (powerfs_caps_issued e pi)) (want AND (CAP_FILE_SHARED OR CAP_FILE_CACHE OR CAP_FILE_WR OR CAP_FILE_EXCL)) \<and>
    (\<forall>t w. g_ret (e_acquire e t w) \<noteq> 0)"

lemma half_granted_try:
  assumes "half_granted e need want pi"
  shows "try_get_cap_refs_locked e need want pi = (False, refs_of (fst (powerfs_caps_issued e pi)),
      powerfs_cap_take_refs (refs_of (fst (powerfs_caps_issued e pi))) pi)"
    "half_granted e need want (powerfs_cap_take_refs got pi)"
  using assms unfolding half_granted_def try_get_cap_refs_locked_def Let_def refs_of_def [symmetric] by simp_all

lemma take_refs_counts:
  "i_pin_ref (powerfs_cap_take_refs (refs_of iss) pi) = i_pin_ref pi + 1"
  "i_wr_ref (powerfs_cap_take_refs (refs_of iss) pi) = i_wr_ref pi + (if has iss CAP_FILE_WR then 1 else 0)"
  unfolding powerfs_cap_take_refs_def by (simp_all only: cinode.simps cinode.update_convs has_refs_of if_True) simp_all

lemma get_caps_loop_half:
  assumes "half_granted e need want pi"
  shows "\<exists>pi'. get_caps_loop (\<lambda>_. e) (\<lambda>_. False) (\<lambda>_ s. s) need want n pi =
      (0, Some (refs_of (fst (powerfs_caps_issued e pi))), Some CapMis, pi') \<and>
    i_pin_ref pi' = i_pin_ref pi + 2 * int n + 1 \<and>
    i_wr_ref pi' = i_wr_ref pi + (if has (fst (powerfs_caps_issued e pi)) CAP_FILE_WR then 2 * int n + 1 else 0)"
  using assms
proof (induction n arbitrary: pi)
  case 0
  then show ?case
    by (subst get_caps_loop.simps) (simp add: half_granted_try Let_def take_refs_counts)
next
  case (Suc n)
  let ?r = "refs_of (fst (powerfs_caps_issued e pi))"
  let ?s = "powerfs_cap_take_refs ?r (powerfs_cap_take_refs ?r pi)"
  have h: "half_granted e need want (powerfs_cap_take_refs ?r pi)" "half_granted e need want ?s"
    using Suc.prems by (simp_all add: half_granted_try)
  have na: "\<forall>t w. g_ret (e_acquire e t w) \<noteq> 0"
    using Suc.prems by (simp add: half_granted_def)
  have "get_caps_loop (\<lambda>_. e) (\<lambda>_. False) (\<lambda>_ s. s) need want (Suc n) pi =
      get_caps_loop (\<lambda>_. e) (\<lambda>_. False) (\<lambda>_ s. s) need want n ?s"
    using Suc.prems h(1) by (subst get_caps_loop.simps) (simp add: half_granted_try Let_def check_caps_no_grant [OF na])
  with Suc.IH [OF h(2)] show ?case
    by (auto simp: take_refs_counts)
qed

lemma put_refs_counts:
  "i_pin_ref (powerfs_cap_put_refs e (refs_of iss) pi) = i_pin_ref pi - 1"
  "i_wr_ref (powerfs_cap_put_refs e (refs_of iss) pi) = i_wr_ref pi - (if has iss CAP_FILE_WR then 1 else 0)"
proof -
  have "i_pin_ref (drop_refs (refs_of iss) pi) = i_pin_ref pi - 1"
    "i_wr_ref (drop_refs (refs_of iss) pi) = i_wr_ref pi - (if has iss CAP_FILE_WR then 1 else 0)"
    unfolding drop_refs_def by (simp_all only: cinode.simps cinode.update_convs has_refs_of if_True) simp_all
  then show "i_pin_ref (powerfs_cap_put_refs e (refs_of iss) pi) = i_pin_ref pi - 1"
    "i_wr_ref (powerfs_cap_put_refs e (refs_of iss) pi) = i_wr_ref pi - (if has iss CAP_FILE_WR then 1 else 0)"
    by (simp_all add: powerfs_cap_put_refs_def Let_def)
qed

text \<open>A caller that gets what it needs but not all it wants takes a set of references in each of the
  sixty-one attempts of \<open>powerfs_get_caps\<close> and is told of one: after it has put that one, sixty references
  of every kind it was given are left, among them the write references that hold the inode.\<close>

theorem get_caps_leaks_refs:
  assumes "half_granted e need want pi"
  shows "\<exists>got pi'. powerfs_get_caps (\<lambda>_. e) (\<lambda>_. False) (\<lambda>_ s. s) need want pi = (0, Some got, Some CapMis, pi') \<and>
    i_pin_ref (powerfs_cap_put_refs e got pi') = i_pin_ref pi + 60 \<and>
    i_wr_ref (powerfs_cap_put_refs e got pi') =
      i_wr_ref pi + (if has (fst (powerfs_caps_issued e pi)) CAP_FILE_WR then 60 else 0)"
  using get_caps_loop_half [OF assms, of 30] unfolding powerfs_get_caps_def by (auto simp: put_refs_counts)

theorem get_caps_leaks_refs_witness:
  "\<exists>got pi'. powerfs_get_caps (\<lambda>_. env0\<lparr>jiffies := 50\<rparr>) (\<lambda>_. False) (\<lambda>_ s. s) CAP_FILE_WR CAP_FILE_EXCL inode0 =
      (0, Some got, Some CapMis, pi') \<and> i_wr_ref (powerfs_cap_put_refs (env0\<lparr>jiffies := 50\<rparr>) got pi') = 60"
proof -
  have iss: "fst (powerfs_caps_issued (env0\<lparr>jiffies := 50\<rparr>) inode0) = 321"
    by code_simp
  have "half_granted (env0\<lparr>jiffies := 50\<rparr>) CAP_FILE_WR CAP_FILE_EXCL inode0"
    unfolding half_granted_def iss by (simp add: env0_def)
  from get_caps_leaks_refs [OF this] show ?thesis
    by (auto simp: iss) (simp add: inode0_def)
qed

section \<open>A renewal that fails\<close>

text \<open>A fresh lease is valid at once, for every tick rate of the kernel.\<close>

lemma sint_minus_lease: "0 < uint h \<Longrightarrow> uint h \<le> 1000 \<Longrightarrow> sint (- (30 * h)) < 0" for h :: u64
proof -
  assume h: "0 < uint h" "uint h \<le> 1000"
  have "- (30 * h) = word_of_int (- (30 * uint h))"
    by simp
  then have "sint (- (30 * h)) = signed_take_bit 63 (- (30 * uint h))"
    by (simp only: sint_sbintrunc') simp
  also have "\<dots> = - (30 * uint h)"
    using h by (intro signed_take_bit_int_eq_self) simp_all
  finally show ?thesis
    using h by simp
qed

lemma fresh_lease_valid:
  assumes "0 < uint (hz e)" "uint (hz e) \<le> 1000" "cap_gen c \<noteq> 0" "expire_jiffies c = jiffies e + LEASE_DURATION e"
  shows "powerfs_cap_is_valid e c"
proof -
  have "jiffies e - (jiffies e + LEASE_DURATION e) = - (30 * hz e)"
    by simp
  then show ?thesis
    using assms(3,4) sint_minus_lease [OF assms(1,2)] by (simp add: powerfs_cap_is_valid_def time_after_eq_def)
qed

lemma failed_grant:
  assumes "i_auth_cap pi = Some q" "get_cap q pi = Some c" "g_ret (e_grant e wr) < 0"
  shows "fst (cap_open_grant_and_issue e wr pi) = 0"
    "i_auth_cap (snd (cap_open_grant_and_issue e wr pi)) = Some q"
    "get_cap q (snd (cap_open_grant_and_issue e wr pi)) = Some (c\<lparr>issued := issued c OR CAP_PIN,
      implemented := implemented c OR CAP_PIN, c_seq := 0, issue_seq := 0, cap_gen := 1, c_epoch := 0,
      expire_jiffies := jiffies e + LEASE_DURATION e, c_content_size := i_size pi\<rparr>)"
proof -
  have w: "wire_capset_to_kernel_bits 0 = CAP_PIN"
    by (simp add: wire_capset_to_kernel_bits_def)
  show "fst (cap_open_grant_and_issue e wr pi) = 0"
    "i_auth_cap (snd (cap_open_grant_and_issue e wr pi)) = Some q"
    using assms by (simp_all add: cap_open_grant_and_issue_def Let_def grant_none_def)
  show "get_cap q (snd (cap_open_grant_and_issue e wr pi)) = Some (c\<lparr>issued := issued c OR CAP_PIN,
      implemented := implemented c OR CAP_PIN, c_seq := 0, issue_seq := 0, cap_gen := 1, c_epoch := 0,
      expire_jiffies := jiffies e + LEASE_DURATION e, c_content_size := i_size pi\<rparr>)"
    using assms by (simp add: cap_open_grant_and_issue_def Let_def grant_none_def w get_cap_issue get_cap_upd)
qed

text \<open>When the lease of a writer has expired and the server cannot be reached, the sweep counts
  the renewal as a success: the cap that was no longer valid is valid again for a whole lease with all
  its bits, although the server granted nothing, and its epoch is zero.\<close>

theorem failed_renewal_revives_cap:
  assumes "quiet e" "i_isreg pi" "i_auth_cap pi = Some q" "get_cap q pi = Some c" "c_token c \<noteq> []" "cap_gen c \<noteq> 0"
    "i_nr_wr pi > 0" "expire_jiffies c \<noteq> 0" "time_after_eq (jiffies e) (expire_jiffies c)"
    "time_after_eq (jiffies e) (expire_jiffies c - LEASE_DURATION e div 3)"
    "g_ret (e_grant e True) < 0" "0 < uint (hz e)" "uint (hz e) \<le> 1000"
  shows "\<not> powerfs_cap_is_valid e c \<and> fst (cap_renew_inode e pages pi) = Some True \<and>
    (\<exists>c'. get_cap q (snd (cap_renew_inode e pages pi)) = Some c' \<and> powerfs_cap_is_valid e c' \<and>
      covers (issued c') (issued c) \<and> c_epoch c' = 0)"
proof -
  define c' where "c' = c\<lparr>issued := issued c OR CAP_PIN,
      implemented := implemented c OR CAP_PIN, c_seq := 0, issue_seq := 0, cap_gen := 1, c_epoch := 0,
      expire_jiffies := jiffies e + LEASE_DURATION e, c_content_size := i_size pi\<rparr>"
  define s where "s = snd (cap_open_grant_and_issue e True pi)"
  have s: "i_auth_cap s = Some q" "get_cap q s = Some c'"
    using failed_grant [OF assms(3,4,11)] by (simp_all add: s_def c'_def)
  have valid: "powerfs_cap_is_valid e c'"
    using fresh_lease_valid [OF assms(12,13), of c'] by (simp add: c'_def)
  have "issued c' = issued c OR CAP_PIN"
    by (simp add: c'_def)
  then have cov: "covers (issued c') (issued c)"
    unfolding covers_bit by (simp only: bit_or_iff) blast
  have c': "c_token c' \<noteq> []" "c_epoch c' = 0"
    using assms(5) by (simp_all add: c'_def)
  have run: "cap_renew_inode e pages pi = (Some True,
      if i_inline_dirty pi \<or> i_dirty_caps pi \<noteq> 0 then snd (powerfs_cap_flush e CAP_ANY_DIRTY s) else s)"
    using assms s valid c'(1) by (simp add: cap_renew_inode_def Let_def s_def)
  have "get_cap q (snd (powerfs_cap_flush e CAP_ANY_DIRTY s)) = get_cap q s"
    using extends_flush [OF assms(1)] by (auto simp: extends_def get_cap_def)
  then show ?thesis
    using assms(8,9) s(2) valid c' cov unfolding run by (auto simp: powerfs_cap_is_valid_def)
qed

theorem failed_renewal_revives_cap_witness:
  "\<not> powerfs_cap_is_valid env0 cap0 \<and> fst (cap_renew_inode env0 False inode0) = Some True"
proof -
  have e: "quiet env0"
    by (simp add: quiet_def env0_def)
  have t: "time_after_eq (jiffies env0) (expire_jiffies cap0)"
    "time_after_eq (jiffies env0) (expire_jiffies cap0 - LEASE_DURATION env0 div 3)"
    by code_simp+
  have "i_isreg inode0" "i_auth_cap inode0 = Some 0" "get_cap 0 inode0 = Some cap0" "c_token cap0 \<noteq> []" "cap_gen cap0 \<noteq> 0"
    "i_nr_wr inode0 > 0" "expire_jiffies cap0 \<noteq> 0" "g_ret (e_grant env0 True) < 0" "0 < uint (hz env0)" "uint (hz env0) \<le> 1000"
    by (simp_all add: inode0_def get_cap_def cap0_def cap_zero_def env0_def)
  from failed_renewal_revives_cap [OF e this(1-7) t this(8-10), of False] show ?thesis
    by blast
qed

section \<open>Upgrade of a local create\<close>

text \<open>Neither the flush of the create nor the threads that run during the pauses clear the marker
  without registering the caps.\<close>

definition honest :: "(cinode \<Rightarrow> cinode) \<Rightarrow> bool" where
  "honest f \<longleftrightarrow> (\<forall>pi. i_local_cap pi \<longrightarrow> i_local_cap (f pi) \<or> has_token (f pi))"

lemma cap_issue_local [simp]: "i_local_cap (powerfs_cap_issue e q bits pi) = i_local_cap pi"
  by (simp add: powerfs_cap_issue_def upd_cap_def Let_def)

lemma open_grant_local_flag [simp]: "i_local_cap (snd (cap_open_grant_and_issue e wr pi)) = i_local_cap pi"
  by (simp add: cap_open_grant_and_issue_def add_cap_for_inode_locked_def upd_cap_def Let_def
      split: option.split prod.split)

lemma upgrade_attempts_local:
  assumes "\<And>n. honest (ot n)" "upgrade_attempts E ot wr k pi = (fin, pi')" "i_local_cap pi \<or> has_token pi"
  shows "(fin \<longrightarrow> \<not> i_local_cap pi' \<and> has_token pi') \<and> (i_local_cap pi' \<or> has_token pi')"
  using assms(2,3)
proof (induction k arbitrary: pi)
  case (Suc k)
  obtain ret p where g: "cap_open_grant_and_issue (E (2 - k)) wr pi = (ret, p)"
    by fastforce
  have l: "i_local_cap p = i_local_cap pi"
    by (metis g open_grant_local_flag snd_conv)
  have o: "i_local_cap pi \<Longrightarrow> i_local_cap (ot n p) \<or> has_token (ot n p)" for n
    using assms(1) [of n] l by (simp add: honest_def)
  show ?case
    using Suc.prems Suc.IH [of p] Suc.IH [of "ot (2 - k) p"] o l by (auto simp: g split: if_splits)
qed simp

text \<open>A write to a file created locally proceeds only with caps that the server knows: the upgrade
  reports success exactly when the inode leaves the local state, and then it has a token; otherwise it
  answers \<open>-EAGAIN\<close> after three attempts and the marker stays.\<close>

theorem upgrade_local_create_registers:
  assumes "honest fl" "\<And>n. honest (ot n)" "i_local_cap pi"
  shows "case powerfs_upgrade_local_create E ot fl wr pi of (ret, pi') \<Rightarrow>
    ret = 0 \<and> \<not> i_local_cap pi' \<and> has_token pi' \<or> ret = - EAGAIN \<and> i_local_cap pi' \<and> \<not> has_token pi'"
proof -
  obtain fin s where s: "upgrade_attempts E ot wr 3 (fl pi) = (fin, s)"
    by fastforce
  have "i_local_cap (fl pi) \<or> has_token (fl pi)"
    using assms(1,3) by (simp add: honest_def)
  from upgrade_attempts_local [OF assms(2) s this]
  have inv: "fin \<Longrightarrow> \<not> i_local_cap s \<and> has_token s" "i_local_cap s \<or> has_token s"
    by blast+
  have "has_token (s\<lparr>i_local_cap := b\<rparr>) = has_token s" for b
    by (simp add: has_token_def get_cap_def)
  then show ?thesis
    using inv assms(3) by (auto simp: powerfs_upgrade_local_create_def s)
qed

theorem upgrade_local_create_registers_witness:
  "fst (powerfs_upgrade_local_create (\<lambda>_. env0) (\<lambda>_ s. s) (\<lambda>s. s) True (inode0\<lparr>i_local_cap := True\<rparr>)) = 0"
proof -
  have "honest (\<lambda>s. s)"
    by (simp add: honest_def)
  then have "case powerfs_upgrade_local_create (\<lambda>_. env0) (\<lambda>_ s. s) (\<lambda>s. s) True (inode0\<lparr>i_local_cap := True\<rparr>) of (ret, pi') \<Rightarrow>
    ret = 0 \<and> \<not> i_local_cap pi' \<and> has_token pi' \<or> ret = - EAGAIN \<and> i_local_cap pi' \<and> \<not> has_token pi'"
    by (intro upgrade_local_create_registers) (simp_all add: inode0_def)
  moreover have "has_token (inode0\<lparr>i_local_cap := True\<rparr>)"
    by code_simp
  ultimately show ?thesis
    by (simp add: powerfs_upgrade_local_create_def numeral_3_eq_3 split: prod.splits)
qed

section \<open>The shrinker looks at each cap once\<close>

definition reclaimable :: "lru_cap \<Rightarrow> bool" where
  "reclaimable c \<longleftrightarrow> l_ci c \<and> \<not> l_busy c \<and> l_token c \<and> l_igrab c"

lemma shrink_loop_pass:
  "n \<le> length lru \<Longrightarrow> freed \<le> nr \<Longrightarrow> shrink_loop nr n (lru @ skipped) disp freed = (lru', disp', freed') \<Longrightarrow>
    \<exists>s\<le>n. lru' = drop s lru @ skipped @ filter (\<lambda>c. l_ci c \<and> l_busy c) (take s lru) \<and>
      disp' = rev (filter reclaimable (take s lru)) @ disp \<and>
      freed' = freed + length (filter reclaimable (take s lru)) \<and> freed' \<le> nr \<and> (s = n \<or> freed' = nr)"
proof (induction n arbitrary: lru skipped disp freed)
  case (Suc n)
  then obtain c cs where lru: "lru = c # cs"
    by (cases lru) auto
  have ext: "\<exists>s\<le>Suc n. lru' = drop s lru @ skipped @ filter (\<lambda>c. l_ci c \<and> l_busy c) (take s lru) \<and>
      disp' = rev (filter reclaimable (take s lru)) @ disp \<and>
      freed' = freed + length (filter reclaimable (take s lru)) \<and> freed' \<le> nr \<and> (s = Suc n \<or> freed' = nr)"
    if "\<exists>s\<le>n. lru' = drop s cs @ (skipped @ filter (\<lambda>c. l_ci c \<and> l_busy c) [c]) @ filter (\<lambda>c. l_ci c \<and> l_busy c) (take s cs) \<and>
      disp' = rev (filter reclaimable (take s cs)) @ rev (filter reclaimable [c]) @ disp \<and>
      freed' = (freed + length (filter reclaimable [c])) + length (filter reclaimable (take s cs)) \<and> freed' \<le> nr \<and> (s = n \<or> freed' = nr)"
    using that
  proof (elim exE conjE)
    fix s
    assume "s \<le> n" "lru' = drop s cs @ (skipped @ filter (\<lambda>c. l_ci c \<and> l_busy c) [c]) @ filter (\<lambda>c. l_ci c \<and> l_busy c) (take s cs)"
      "disp' = rev (filter reclaimable (take s cs)) @ rev (filter reclaimable [c]) @ disp"
      "freed' = (freed + length (filter reclaimable [c])) + length (filter reclaimable (take s cs))" "freed' \<le> nr"
      "s = n \<or> freed' = nr"
    then show ?thesis
      by (intro exI [of _ "Suc s"]) (auto simp: lru)
  qed
  show ?case
  proof (cases "freed < nr")
    case False
    then show ?thesis
      using Suc.prems by (intro exI [of _ 0]) (auto simp: lru)
  next
    case True
    have n: "n \<le> length cs"
      using Suc.prems(1) by (simp add: lru)
    consider (busy) "l_ci c" "l_busy c" | (take) "reclaimable c" | (drop) "\<not> (l_ci c \<and> l_busy c)" "\<not> reclaimable c"
      by blast
    then show ?thesis
    proof cases
      case busy
      then have "shrink_loop nr n (cs @ skipped @ [c]) disp freed = (lru', disp', freed')" "\<not> reclaimable c"
        using Suc.prems(3) True by (simp_all add: lru reclaimable_def)
      from Suc.IH [OF n Suc.prems(2) this(1)] this(2) show ?thesis
        using busy by (intro ext) simp
    next
      case take
      then have "shrink_loop nr n (cs @ skipped) (c # disp) (freed + 1) = (lru', disp', freed')"
        using Suc.prems(3) True by (simp add: lru reclaimable_def)
      moreover have "l_ci c" "\<not> l_busy c"
        using take by (simp_all add: reclaimable_def)
      ultimately show ?thesis
        using Suc.IH [of cs "freed + 1" skipped "c # disp"] n True take by (intro ext) simp
    next
      case drop
      then have "shrink_loop nr n (cs @ skipped) disp freed = (lru', disp', freed')"
        using Suc.prems(3) True by (auto simp: lru reclaimable_def split: if_splits)
      from Suc.IH [OF n Suc.prems(2) this] drop show ?thesis
        by (intro ext) (simp, blast)
    qed
  qed
qed auto

text \<open>C29: One call of the shrinker examines a prefix of the list, each cap once, even if every cap is
  busy: the caps with dirty pages or pages under write-back go to the tail, the reclaimable ones are
  invalidated, and it stops when it has freed what was asked for or has seen the whole list.\<close>

theorem shrinker_one_pass:
  "\<exists>s\<le>length lru. powerfs_cap_shrinker_scan nr lru =
     (length (filter reclaimable (take s lru)), drop s lru @ filter (\<lambda>c. l_ci c \<and> l_busy c) (take s lru),
      map l_id (rev (filter reclaimable (take s lru)))) \<and>
    length (filter reclaimable (take s lru)) \<le> nr \<and>
    (s = length lru \<or> length (filter reclaimable (take s lru)) = nr)"
proof -
  obtain lru' disp' freed' where r: "shrink_loop nr (length lru) (lru @ []) [] 0 = (lru', disp', freed')"
    using prod_cases3 by blast
  from shrink_loop_pass [OF _ _ r] show ?thesis
    using r by (auto simp: powerfs_cap_shrinker_scan_def)
qed

end
