(* ===== verification/Route.thy ===== *)
theory Route
  imports Prelude
begin

text \<open>
  The connection pool as the routing of requests sees it (\<open>powerfs_net_conn.c\<close>, \<open>powerfs_net_req.c\<close>): the
  states of the filer connections, the route of every shard with the requests parked on it, and the events
  that propagate between them: disconnect, reconnect, redirect. A connection is its index in the pool, a
  request is a number, and a completion of a request is counted. Connecting a socket is a parameter.
\<close>

section \<open>State\<close>

datatype conn_state = Conn_Init | Conn_Connecting | Conn_Connected | Conn_Reconnecting | Conn_Fault

datatype route_state = Route_Valid | Route_Checking | Route_Unknown

record filer =
  f_addr :: bytes
  f_port :: u16
  f_in_use :: bool
  f_state :: conn_state
  f_ever :: bool
  f_count :: nat
  f_delay :: u64
  f_pending :: "nat list"

record route_entry =
  r_leader :: int
  r_state :: route_state
  r_parked :: "nat list"

record pool =
  filers :: "filer list"
  routes :: "route_entry list"
  shard_count :: u64
  stopping :: bool
  last_disconnect :: u64
  q_error :: "nat \<Rightarrow> int"
  q_done :: "nat \<Rightarrow> nat"
  q_filer :: "nat \<Rightarrow> nat option"

abbreviation MAX_SHARDS :: nat where "MAX_SHARDS \<equiv> 64"
abbreviation MAX_RECONNECT :: nat where "MAX_RECONNECT \<equiv> 3"
abbreviation BASE_DELAY :: u32 where "BASE_DELAY \<equiv> 1000"
abbreviation MAX_DELAY :: u32 where "MAX_DELAY \<equiv> 30000"
abbreviation FAULT_DELAY :: u32 where "FAULT_DELAY \<equiv> 5000"
abbreviation RECV_TIMEOUT :: int where "RECV_TIMEOUT \<equiv> 10000"
abbreviation RECENT_DISCONNECT_MS :: u32 where "RECENT_DISCONNECT_MS \<equiv> 5000"

abbreviation upd_filer :: "nat \<Rightarrow> (filer \<Rightarrow> filer) \<Rightarrow> pool \<Rightarrow> pool" where
  "upd_filer i f pl \<equiv> pl\<lparr>filers := (filers pl)[i := f (filers pl ! i)]\<rparr>"

abbreviation upd_route :: "nat \<Rightarrow> (route_entry \<Rightarrow> route_entry) \<Rightarrow> pool \<Rightarrow> pool" where
  "upd_route s f pl \<equiv> pl\<lparr>routes := (routes pl)[s := f (routes pl ! s)]\<rparr>"

definition connected :: "filer \<Rightarrow> bool" where
  "connected f \<longleftrightarrow> f_state f = Conn_Connected"

section \<open>Queries\<close>

definition powerfs_net_is_connected :: "pool \<Rightarrow> bool" where
  "powerfs_net_is_connected pl = (length (filers pl) > 0 \<and> \<not> stopping pl)"

definition powerfs_net_any_filer_connected :: "pool \<Rightarrow> bool" where
  "powerfs_net_any_filer_connected pl =
    (if filers pl = [] \<or> stopping pl then False else list_ex connected (filers pl))"

definition powerfs_net_recently_disconnected :: "(u32 \<Rightarrow> u64) \<Rightarrow> u64 \<Rightarrow> u32 \<Rightarrow> pool \<Rightarrow> bool" where
  "powerfs_net_recently_disconnected msecs now window_ms pl =
    (if last_disconnect pl = 0 then False
     else sint (now - (last_disconnect pl + msecs window_ms)) < 0)"

definition powerfs_net_pick_timeout :: "(u32 \<Rightarrow> u64) \<Rightarrow> u64 \<Rightarrow> int \<Rightarrow> pool \<Rightarrow> int" where
  "powerfs_net_pick_timeout msecs now short pl =
    (if \<not> powerfs_net_is_connected pl \<or> powerfs_net_recently_disconnected msecs now RECENT_DISCONNECT_MS pl
     then short else RECV_TIMEOUT)"

definition powerfs_shard_route_get_state :: "u64 \<Rightarrow> pool \<Rightarrow> route_state" where
  "powerfs_shard_route_get_state sid pl =
    (if unat sid \<ge> MAX_SHARDS then Route_Unknown else r_state (routes pl ! unat sid))"

text \<open>The round robin from the filer after the leader; \<open>n\<close> filers are left to try.\<close>

fun find_from :: "filer list \<Rightarrow> nat \<Rightarrow> nat \<Rightarrow> int" where
  "find_from fs start 0 = - 1"
| "find_from fs start (Suc n) =
    (let idx = (start + (length fs - Suc n)) mod length fs
     in if f_in_use (fs ! idx) \<and> connected (fs ! idx) then int idx else find_from fs start n)"

definition powerfs_shard_route_find_available_filer :: "u64 \<Rightarrow> pool \<Rightarrow> int" where
  "powerfs_shard_route_find_available_filer sid pl =
    (if unat sid \<ge> MAX_SHARDS then - 1
     else if filers pl = [] then - 1
     else let leader = r_leader (routes pl ! unat sid);
              start = (if leader \<ge> 0 then nat leader + 1 else 0)
          in find_from (filers pl) start (length (filers pl)))"

definition powerfs_conn_get_filer_for_shard :: "u64 \<Rightarrow> pool \<Rightarrow> nat option" where
  "powerfs_conn_get_filer_for_shard sid pl =
    (if unat sid \<ge> MAX_SHARDS then None
     else let leader = r_leader (routes pl ! unat sid)
          in if leader < 0 \<or> leader \<ge> int (length (filers pl)) then None else Some (nat leader))"

fun index_where :: "('a \<Rightarrow> bool) \<Rightarrow> 'a list \<Rightarrow> nat option" where
  "index_where p [] = None"
| "index_where p (x # xs) = (if p x then Some 0 else map_option Suc (index_where p xs))"

definition powerfs_conn_find_filer :: "bytes \<Rightarrow> u16 \<Rightarrow> pool \<Rightarrow> nat option" where
  "powerfs_conn_find_filer addr port pl =
    index_where (\<lambda>f. f_in_use f \<and> f_addr f = addr \<and> f_port f = port) (filers pl)"

section \<open>Events\<close>

definition powerfs_shard_route_on_filer_disconnect :: "int \<Rightarrow> pool \<Rightarrow> pool" where
  "powerfs_shard_route_on_filer_disconnect idx pl =
    (if idx < 0 \<or> idx \<ge> int (length (filers pl)) then pl
     else pl\<lparr>routes := map (\<lambda>r. if r_leader r = idx \<and> r_state r = Route_Valid
                              then r\<lparr>r_state := Route_Checking\<rparr> else r) (routes pl)\<rparr>)"

text \<open>A parked request is completed with an error.\<close>

definition wake_one :: "int \<Rightarrow> nat \<Rightarrow> pool \<Rightarrow> pool" where
  "wake_one err q pl = pl\<lparr>q_error := (q_error pl)(q := err), q_done := (q_done pl)(q := q_done pl q + 1)\<rparr>"

definition powerfs_shard_route_dispatch_pending :: "nat \<Rightarrow> pool \<Rightarrow> pool" where
  "powerfs_shard_route_dispatch_pending s pl =
    (if s \<ge> unat (shard_count pl) then pl
     else
       let leader = r_leader (routes pl ! s)
       in if leader < 0 \<or> leader \<ge> int (length (filers pl)) then pl
          else if \<not> connected (filers pl ! nat leader) then pl
          else
            let qs = r_parked (routes pl ! s); pl = upd_route s (\<lambda>r. r\<lparr>r_parked := []\<rparr>) pl
            in fold (\<lambda>q pl. wake_one (- EAGAIN) q (pl\<lparr>q_filer := (q_filer pl)(q \<mapsto> nat leader)\<rparr>)) qs pl)"

text \<open>Waking the requests of a shard whose leader is another filer.\<close>

definition wake_shard :: "nat \<Rightarrow> pool \<Rightarrow> pool" where
  "wake_shard s pl =
    (let qs = r_parked (routes pl ! s); pl = upd_route s (\<lambda>r. r\<lparr>r_parked := []\<rparr>) pl
     in fold (wake_one (- EAGAIN)) qs pl)"

definition reconnect_entry :: "int \<Rightarrow> route_entry \<Rightarrow> route_entry" where
  "reconnect_entry idx r =
    (if r_leader r = idx \<and> r_state r = Route_Unknown then r\<lparr>r_state := Route_Checking\<rparr> else r)"

definition powerfs_shard_route_on_filer_reconnect :: "int \<Rightarrow> pool \<Rightarrow> pool" where
  "powerfs_shard_route_on_filer_reconnect idx pl =
    (if idx < 0 \<or> idx \<ge> int (length (filers pl)) then pl
     else
       let pl = pl\<lparr>routes := map (reconnect_entry idx) (routes pl)\<rparr>;
           need = map (\<lambda>r. r_state r = Route_Checking \<or> r_state r = Route_Unknown) (routes pl)
       in fold (\<lambda>s pl. if \<not> need ! s then pl
                        else if r_leader (routes pl ! s) = idx then powerfs_shard_route_dispatch_pending s pl
                        else wake_shard s pl) [0..<length (routes pl)] pl)"

definition powerfs_shard_route_update :: "u64 \<Rightarrow> int \<Rightarrow> pool \<Rightarrow> pool" where
  "powerfs_shard_route_update sid idx pl =
    (if unat sid \<ge> MAX_SHARDS then pl
     else
       let old = r_state (routes pl ! unat sid);
           pl = upd_route (unat sid) (\<lambda>r. r\<lparr>r_leader := idx, r_state := Route_Valid\<rparr>) pl
       in if old \<noteq> Route_Valid then powerfs_shard_route_dispatch_pending (unat sid) pl else pl)"

text \<open>A connection that is given up cancels the requests that wait on it.\<close>

definition cancel_pending :: "nat \<Rightarrow> pool \<Rightarrow> pool" where
  "cancel_pending i pl =
    (let qs = f_pending (filers pl ! i); pl = upd_filer i (\<lambda>f. f\<lparr>f_pending := []\<rparr>) pl
     in fold (wake_one (- ENOTCONN)) qs pl)"

definition powerfs_conn_set_state :: "nat \<Rightarrow> conn_state \<Rightarrow> pool \<Rightarrow> pool" where
  "powerfs_conn_set_state i new pl =
    (let old = f_state (filers pl ! i);
         pl = upd_filer i (\<lambda>f. f\<lparr>f_state := new, f_ever := f_ever f \<or> new = Conn_Connected\<rparr>) pl;
         pl = (if new = Conn_Reconnecting \<or> new = Conn_Fault then
                 powerfs_shard_route_on_filer_disconnect (int i) pl
               else if new = Conn_Connected \<and> (old = Conn_Reconnecting \<or> old = Conn_Connecting) then
                 upd_filer i (\<lambda>f. f\<lparr>f_delay := 0\<rparr>) (powerfs_shard_route_on_filer_reconnect (int i) pl)
               else pl)
     in if new = Conn_Fault then cancel_pending i pl else pl)"

text \<open>The wait for the first connection; the result of the wait is the pool after it.\<close>

definition powerfs_conn_wait_initial :: "nat \<Rightarrow> pool \<Rightarrow> pool \<Rightarrow> int" where
  "powerfs_conn_wait_initial i pl pl' =
    (if connected (filers pl ! i) then 0
     else if f_ever (filers pl ! i) then - ENOTCONN
     else if connected (filers pl' ! i) then 0 else - ENOTCONN)"

section \<open>Connecting\<close>

text \<open>\<open>powerfs_conn_connect_one\<close> over TCP: whether a socket was made, and the results of the connection and
  of the handshake.\<close>

definition powerfs_conn_connect_one :: "bool \<times> int \<times> int \<Rightarrow> nat \<Rightarrow> pool \<Rightarrow> int \<times> pool" where
  "powerfs_conn_connect_one net i pl =
    (if \<not> f_in_use (filers pl ! i) then (- EINVAL, pl)
     else if connected (filers pl ! i) then (0, pl)
     else
       let pl = powerfs_conn_set_state i Conn_Connecting pl; (sock, cret, hret) = net
       in if \<not> sock then (- ENOMEM, powerfs_conn_set_state i Conn_Reconnecting pl)
          else if cret < 0 then (cret, powerfs_conn_set_state i Conn_Reconnecting pl)
          else if hret < 0 then (hret, powerfs_conn_set_state i Conn_Reconnecting pl)
          else (0, upd_filer i (\<lambda>f. f\<lparr>f_count := 0, f_delay := 0\<rparr>) (powerfs_conn_set_state i Conn_Connected pl)))"

text \<open>The reconnect work; the second component is the delay with which it queues itself again.\<close>

definition powerfs_conn_reconnect_work_fn ::
  "(u32 \<Rightarrow> u64) \<Rightarrow> bool \<times> int \<times> int \<Rightarrow> nat \<Rightarrow> pool \<Rightarrow> pool \<times> u64 option" where
  "powerfs_conn_reconnect_work_fn msecs net i pl =
    (if stopping pl then (pl, None)
     else if connected (filers pl ! i) then (pl, None)
     else if f_count (filers pl ! i) \<ge> MAX_RECONNECT then
       (upd_filer i (\<lambda>f. f\<lparr>f_count := 0, f_delay := msecs FAULT_DELAY\<rparr>) (powerfs_conn_set_state i Conn_Fault pl),
        Some (msecs FAULT_DELAY))
     else
       let (ret, pl) = powerfs_conn_connect_one net i (upd_filer i (\<lambda>f. f\<lparr>f_count := f_count f + 1\<rparr>) pl)
       in if ret = 0 then (pl, None)
          else
            let d = f_delay (filers pl ! i);
                d' = (if d = 0 then msecs BASE_DELAY else min (d * 2) (msecs MAX_DELAY))
            in (upd_filer i (\<lambda>f. f\<lparr>f_delay := d'\<rparr>) pl, Some d'))"

text \<open>The routing part of \<open>powerfs_conn_disconnect_one\<close>.\<close>

definition powerfs_conn_disconnect_route :: "(u32 \<Rightarrow> u64) \<Rightarrow> u64 \<Rightarrow> nat \<Rightarrow> pool \<Rightarrow> pool \<times> u64 option" where
  "powerfs_conn_disconnect_route msecs now i pl =
    (if \<not> f_in_use (filers pl ! i) then (pl, None)
     else if \<not> connected (filers pl ! i) then (pl, None)
     else
       let pl = (upd_filer i (\<lambda>f. f\<lparr>f_state := Conn_Reconnecting\<rparr>) pl)\<lparr>last_disconnect := now\<rparr>;
           pl = powerfs_shard_route_on_filer_disconnect (int i) pl
       in (pl, if stopping pl then None else Some (msecs BASE_DELAY)))"

text \<open>The reconnect work of one connection as the queue runs it: again and again while it queues itself, on
  the outcomes the network has for the attempts. The second component is the list of the delays.\<close>

fun reconnect_runs ::
  "(u32 \<Rightarrow> u64) \<Rightarrow> (bool \<times> int \<times> int) list \<Rightarrow> nat \<Rightarrow> pool \<Rightarrow> pool \<times> u64 list" where
  "reconnect_runs msecs [] i pl = (pl, [])"
| "reconnect_runs msecs (net # nets) i pl =
    (case powerfs_conn_reconnect_work_fn msecs net i pl of
       (pl, None) \<Rightarrow> (pl, [])
     | (pl, Some d) \<Rightarrow> (case reconnect_runs msecs nets i pl of (pl, ds) \<Rightarrow> (pl, d # ds)))"

text \<open>A valid route is taken back.\<close>

definition route_downgrade :: "u64 \<Rightarrow> pool \<Rightarrow> pool" where
  "route_downgrade sid pl =
    (if unat sid < MAX_SHARDS \<and> r_state (routes pl ! unat sid) = Route_Valid
     then upd_route (unat sid) (\<lambda>r. r\<lparr>r_state := Route_Checking\<rparr>) pl else pl)"

text \<open>The first wait of \<open>powerfs_request_submit\<close> for a route.\<close>

definition route_park :: "u64 \<Rightarrow> nat \<Rightarrow> pool \<Rightarrow> pool" where
  "route_park sid q pl =
    (upd_route (unat sid) (\<lambda>r. r\<lparr>r_parked := r_parked r @ [q]\<rparr>) pl)\<lparr>q_done := (q_done pl)(q := 0)\<rparr>"

text \<open>The end of that wait: the submitter takes the request off the queue if it is still there.\<close>

definition route_unpark :: "u64 \<Rightarrow> nat \<Rightarrow> pool \<Rightarrow> pool" where
  "route_unpark sid q pl = upd_route (unat sid) (\<lambda>r. r\<lparr>r_parked := remove1 q (r_parked r)\<rparr>) pl"

text \<open>The events of the pool, in any order.\<close>

datatype route_op =
    Connect "bool \<times> int \<times> int" nat
  | Work "bool \<times> int \<times> int" nat
  | Disconnect u64 nat
  | Update u64 int
  | Downgrade u64
  | Park u64 nat
  | Unpark u64 nat

fun route_exec :: "(u32 \<Rightarrow> u64) \<Rightarrow> route_op \<Rightarrow> pool \<Rightarrow> pool" where
  "route_exec msecs (Connect net i) pl = snd (powerfs_conn_connect_one net i pl)"
| "route_exec msecs (Work net i) pl = fst (powerfs_conn_reconnect_work_fn msecs net i pl)"
| "route_exec msecs (Disconnect now i) pl = fst (powerfs_conn_disconnect_route msecs now i pl)"
| "route_exec msecs (Update sid idx) pl = powerfs_shard_route_update sid idx pl"
| "route_exec msecs (Downgrade sid) pl = route_downgrade sid pl"
| "route_exec msecs (Park sid q) pl = route_park sid q pl"
| "route_exec msecs (Unpark sid q) pl = route_unpark sid q pl"

text \<open>The pool with two pieces of history: the shard on whose queue the submitter of a request is waiting
  (\<open>Park\<close> begins the wait and \<open>Unpark\<close> ends it, whether or not the request is still queued), and the shards
  whose last redirect named a filer that was not connected at that moment.\<close>

record route_mach =
  rm_pool :: pool
  rm_wait :: "nat \<Rightarrow> nat option"
  rm_down :: "nat set"

fun note_wait :: "route_op \<Rightarrow> (nat \<Rightarrow> nat option) \<Rightarrow> nat \<Rightarrow> nat option" where
  "note_wait (Park sid q) w = w(q \<mapsto> unat sid)"
| "note_wait (Unpark sid q) w = w(q := None)"
| "note_wait _ w = w"

fun note_down :: "route_op \<Rightarrow> pool \<Rightarrow> nat set \<Rightarrow> nat set" where
  "note_down (Update sid idx) pl D =
    (if connected (filers pl ! nat idx) then D - {unat sid} else insert (unat sid) D)"
| "note_down _ pl D = D"

definition mach_exec :: "(u32 \<Rightarrow> u64) \<Rightarrow> route_op \<Rightarrow> route_mach \<Rightarrow> route_mach" where
  "mach_exec msecs a m = \<lparr>rm_pool = route_exec msecs a (rm_pool m), rm_wait = note_wait a (rm_wait m),
    rm_down = note_down a (rm_pool m) (rm_down m)\<rparr>"

text \<open>The program's own conditions: an event concerns a filer of the pool; a redirect names a filer of the pool,
  connected or not; a submitter that waits does nothing else, and it waits on a queue only while its request is
  not sent.\<close>

fun route_op_ok :: "route_op \<Rightarrow> route_mach \<Rightarrow> bool" where
  "route_op_ok (Connect net i) m \<longleftrightarrow> i < length (filers (rm_pool m))"
| "route_op_ok (Work net i) m \<longleftrightarrow> i < length (filers (rm_pool m))"
| "route_op_ok (Disconnect now i) m \<longleftrightarrow> i < length (filers (rm_pool m))"
| "route_op_ok (Update sid idx) m \<longleftrightarrow> 0 \<le> idx \<and> idx < int (length (filers (rm_pool m)))"
| "route_op_ok (Downgrade sid) m \<longleftrightarrow> True"
| "route_op_ok (Park sid q) m \<longleftrightarrow> unat sid < MAX_SHARDS \<and> rm_wait m q = None \<and>
    (\<forall>f \<in> set (filers (rm_pool m)). q \<notin> set (f_pending f))"
| "route_op_ok (Unpark sid q) m \<longleftrightarrow> rm_wait m q = Some (unat sid)"

text \<open>A pool of two filers on one host, the first one down, with request 7 parked on shard 3.\<close>

definition filer_of :: "u16 \<Rightarrow> conn_state \<Rightarrow> filer" where
  "filer_of port st = \<lparr>f_addr = [49, 48, 46, 49], f_port = port, f_in_use = True, f_state = st, f_ever = True,
    f_count = 0, f_delay = 0, f_pending = []\<rparr>"

definition pool0 :: pool where
  "pool0 = \<lparr>filers = [filer_of 9001 Conn_Reconnecting, filer_of 9002 Conn_Connected],
    routes = (replicate 64 \<lparr>r_leader = - 1, r_state = Route_Unknown, r_parked = []\<rparr>)
      [3 := \<lparr>r_leader = 0, r_state = Route_Checking, r_parked = [7]\<rparr>],
    shard_count = 16, stopping = False, last_disconnect = 0, q_error = (\<lambda>_. 0), q_done = (\<lambda>_. 0),
    q_filer = (\<lambda>_. None)\<rparr>"

section \<open>Waking the parked requests\<close>

lemma fold_wake:
  "fold (wake_one e) qs pl = pl\<lparr>q_error := (\<lambda>q. if q \<in> set qs then e else q_error pl q),
    q_done := (\<lambda>q. q_done pl q + count_list qs q)\<rparr>"
  by (induction qs arbitrary: pl) (auto simp: wake_one_def fun_eq_iff)

lemma fold_dispatch:
  "fold (\<lambda>q pl. wake_one e q (pl\<lparr>q_filer := (q_filer pl)(q \<mapsto> l)\<rparr>)) qs pl =
   pl\<lparr>q_error := (\<lambda>q. if q \<in> set qs then e else q_error pl q),
     q_done := (\<lambda>q. q_done pl q + count_list qs q),
     q_filer := (\<lambda>q. if q \<in> set qs then Some l else q_filer pl q)\<rparr>"
  by (induction qs arbitrary: pl) (auto simp: wake_one_def fun_eq_iff)

text \<open>The fields that waking a shard leaves alone, and what it does to the rest.\<close>

definition wakes :: "nat set \<Rightarrow> pool \<Rightarrow> pool \<Rightarrow> bool" where
  "wakes S pl pl' \<longleftrightarrow>
    filers pl' = filers pl \<and> shard_count pl' = shard_count pl \<and> stopping pl' = stopping pl \<and>
    length (routes pl') = length (routes pl) \<and>
    (\<forall>s < length (routes pl). routes pl' ! s = (routes pl ! s)\<lparr>r_parked := if s \<in> S then [] else r_parked (routes pl ! s)\<rparr>) \<and>
    q_done pl' = (\<lambda>q. q_done pl q + (\<Sum>s \<in> S. count_list (r_parked (routes pl ! s)) q)) \<and>
    q_error pl' = (\<lambda>q. if \<exists>s \<in> S. q \<in> set (r_parked (routes pl ! s)) then - EAGAIN else q_error pl q)"

lemma wakes_none: "wakes {} pl pl"
  by (simp add: wakes_def)

lemma wakes_shard: "s < length (routes pl) \<Longrightarrow> wakes {s} pl (wake_shard s pl)"
  by (auto simp: wakes_def wake_shard_def fold_wake Let_def nth_list_update fun_eq_iff)

lemma wakes_dispatch:
  "s < length (routes pl) \<Longrightarrow>
   wakes (if s < unat (shard_count pl) \<and> 0 \<le> r_leader (routes pl ! s) \<and>
             r_leader (routes pl ! s) < int (length (filers pl)) \<and> connected (filers pl ! nat (r_leader (routes pl ! s)))
          then {s} else {}) pl (powerfs_shard_route_dispatch_pending s pl)"
  by (auto simp: wakes_def powerfs_shard_route_dispatch_pending_def fold_dispatch Let_def nth_list_update fun_eq_iff)

lemma wakes_trans:
  assumes "wakes S pl pl1" "wakes T pl1 pl2" "S \<inter> T = {}" "finite S" "finite T"
    "T \<subseteq> {..<length (routes pl)}"
  shows "wakes (S \<union> T) pl pl2"
proof -
  have parked: "r_parked (routes pl1 ! t) = r_parked (routes pl ! t)" if "t \<in> T" for t
  proof -
    have "t < length (routes pl)" "t \<notin> S" using that assms(3,6) by auto
    then show ?thesis using assms(1) by (simp add: wakes_def)
  qed
  have sum: "(\<Sum>s \<in> S \<union> T. count_list (r_parked (routes pl ! s)) q) =
      (\<Sum>s \<in> S. count_list (r_parked (routes pl ! s)) q) + (\<Sum>s \<in> T. count_list (r_parked (routes pl1 ! s)) q)" for q
    using assms(3-5) by (simp add: sum.union_disjoint parked)
  have err: "(\<exists>s \<in> T. q \<in> set (r_parked (routes pl1 ! s))) \<longleftrightarrow> (\<exists>s \<in> T. q \<in> set (r_parked (routes pl ! s)))" for q
    using parked by auto
  show ?thesis
    using assms(1,2) unfolding wakes_def sum err by (auto simp: fun_eq_iff)
qed

text \<open>The shards a reconnect of filer \<open>idx\<close> wakes.\<close>

definition woken :: "int \<Rightarrow> pool \<Rightarrow> nat set" where
  "woken idx pl = {s. s < length (routes pl) \<and> r_state (routes pl ! s) \<noteq> Route_Valid \<and>
    (r_leader (routes pl ! s) \<noteq> idx \<or> s < unat (shard_count pl))}"

lemma wakes_fold:
  assumes "distinct ss" "set ss \<subseteq> {..<length (routes pl)}" "0 \<le> idx" "idx < int (length (filers pl))"
    "connected (filers pl ! nat idx)"
  shows "wakes {s \<in> set ss. need ! s \<and> (r_leader (routes pl ! s) \<noteq> idx \<or> s < unat (shard_count pl))} pl
    (fold (\<lambda>s pl. if \<not> need ! s then pl
                   else if r_leader (routes pl ! s) = idx then powerfs_shard_route_dispatch_pending s pl
                   else wake_shard s pl) ss pl)"
  using assms
proof (induction ss arbitrary: pl)
  case Nil
  then show ?case by (simp add: wakes_none)
next
  case (Cons s ss)
  let ?g = "\<lambda>s pl. need ! s \<and> (r_leader (routes pl ! s) \<noteq> idx \<or> s < unat (shard_count pl))"
  let ?f = "\<lambda>s pl. if \<not> need ! s then pl
                   else if r_leader (routes pl ! s) = idx then powerfs_shard_route_dispatch_pending s pl
                   else wake_shard s pl"
  let ?S = "if ?g s pl then {s} else {}"
  have s: "s < length (routes pl)" using Cons.prems(2) by simp
  have w: "wakes ?S pl (?f s pl)"
    using wakes_none wakes_shard [OF s] wakes_dispatch [OF s] Cons.prems(3-5) by auto
  then have same: "filers (?f s pl) = filers pl" "length (routes (?f s pl)) = length (routes pl)"
    "shard_count (?f s pl) = shard_count pl"
    "\<And>t. t < length (routes pl) \<Longrightarrow> r_leader (routes (?f s pl) ! t) = r_leader (routes pl ! t)"
    unfolding wakes_def by simp_all
  have "wakes {t \<in> set ss. ?g t (?f s pl)} (?f s pl) (fold ?f ss (?f s pl))"
    using Cons.prems same by (intro Cons.IH) auto
  moreover have "{t \<in> set ss. ?g t (?f s pl)} = {t \<in> set ss. ?g t pl}"
    using Cons.prems(2) same by auto
  ultimately have "wakes {t \<in> set ss. ?g t pl} (?f s pl) (fold ?f ss (?f s pl))" by simp
  with w have "wakes (?S \<union> {t \<in> set ss. ?g t pl}) pl (fold ?f ss (?f s pl))"
    using Cons.prems(1,2) by (intro wakes_trans) auto
  moreover have "?S \<union> {t \<in> set ss. ?g t pl} = {t \<in> set (s # ss). ?g t pl}" by auto
  ultimately show ?case by simp
qed

lemma reconnect_entry_simps:
  "r_leader (reconnect_entry idx r) = r_leader r" "r_parked (reconnect_entry idx r) = r_parked r"
  "(r_state (reconnect_entry idx r) = Route_Checking \<or> r_state (reconnect_entry idx r) = Route_Unknown) \<longleftrightarrow>
   r_state r \<noteq> Route_Valid"
  by (cases "r_state r"; auto simp: reconnect_entry_def)+

lemma reconnect_wakes:
  assumes "0 \<le> idx" "idx < int (length (filers pl))" "connected (filers pl ! nat idx)"
  shows "wakes (woken idx pl) (pl\<lparr>routes := map (reconnect_entry idx) (routes pl)\<rparr>)
    (powerfs_shard_route_on_filer_reconnect idx pl)"
proof -
  let ?p = "pl\<lparr>routes := map (reconnect_entry idx) (routes pl)\<rparr>"
  let ?need = "map (\<lambda>r. r_state r = Route_Checking \<or> r_state r = Route_Unknown) (routes ?p)"
  have "{s \<in> set [0..<length (routes ?p)]. ?need ! s \<and>
      (r_leader (routes ?p ! s) \<noteq> idx \<or> s < unat (shard_count ?p))} = woken idx pl"
    by (auto simp: woken_def reconnect_entry_simps)
  with wakes_fold [of "[0..<length (routes ?p)]" ?p idx ?need] assms show ?thesis
    by (simp add: powerfs_shard_route_on_filer_reconnect_def Let_def atLeast_upt)
qed

lemma distinct_concat_nth:
  "distinct (concat xss) \<Longrightarrow> i < length xss \<Longrightarrow> j < length xss \<Longrightarrow> i \<noteq> j \<Longrightarrow>
   set (xss ! i) \<inter> set (xss ! j) = {}"
proof (induction xss arbitrary: i j)
  case (Cons xs xss)
  have "set xs \<inter> set (xss ! k) = {}" if "k < length xss" for k
    using Cons.prems(1) that by (fastforce simp: set_concat)
  then show ?case
    using Cons by (cases i; cases j) (auto simp: Int_commute)
qed simp

lemma count_parked_once:
  assumes "distinct (concat (map r_parked rs))" "s < length rs" "q \<in> set (r_parked (rs ! s))"
    "S \<subseteq> {..<length rs}" "s \<in> S"
  shows "(\<Sum>t \<in> S. count_list (r_parked (rs ! t)) q) = 1"
proof -
  have d: "distinct (r_parked (rs ! s))"
    using assms(1,2) by (simp add: distinct_concat_iff)
  have "q \<notin> set (r_parked (rs ! t))" if "t \<in> S" "t \<noteq> s" for t
    using assms that distinct_concat_nth [of "map r_parked rs" t s] by auto
  then have "(\<Sum>t \<in> S - {s}. count_list (r_parked (rs ! t)) q) = 0"
    by (simp add: count_list_0_iff)
  moreover have "count_list (r_parked (rs ! s)) q = 1"
    using d assms(3) by (simp add: count_list_eq_length_filter distinct_length_filter)
  moreover have "finite S" using assms(4) finite_subset by blast
  ultimately show ?thesis
    using sum.remove [of S s "\<lambda>t. count_list (r_parked (rs ! t)) q"] assms(5) by simp
qed

section \<open>Connections\<close>

lemma disconnect_filers [simp]:
  "filers (powerfs_shard_route_on_filer_disconnect idx pl) = filers pl"
  "stopping (powerfs_shard_route_on_filer_disconnect idx pl) = stopping pl"
  "length (routes (powerfs_shard_route_on_filer_disconnect idx pl)) = length (routes pl)"
  by (simp_all add: powerfs_shard_route_on_filer_disconnect_def)

lemma cancel_pending_filers:
  "filers (cancel_pending i pl) = (filers pl)[i := (filers pl ! i)\<lparr>f_pending := []\<rparr>]"
  "stopping (cancel_pending i pl) = stopping pl" "routes (cancel_pending i pl) = routes pl"
  by (simp_all add: cancel_pending_def fold_wake Let_def)

lemma reconnect_filers:
  assumes "i < length (filers pl)" "connected (filers pl ! i)"
  shows "filers (powerfs_shard_route_on_filer_reconnect (int i) pl) = filers pl"
    "stopping (powerfs_shard_route_on_filer_reconnect (int i) pl) = stopping pl"
  using reconnect_wakes [of "int i" pl] assms by (simp_all add: wakes_def)

text \<open>What a change of state does to the connections: the other ones are untouched.\<close>

lemma set_state_filers:
  assumes "i < length (filers pl)"
  shows "f_state (filers (powerfs_conn_set_state i new pl) ! i) = new"
    "f_count (filers (powerfs_conn_set_state i new pl) ! i) = f_count (filers pl ! i)"
    "f_in_use (filers (powerfs_conn_set_state i new pl) ! i) = f_in_use (filers pl ! i)"
    "length (filers (powerfs_conn_set_state i new pl)) = length (filers pl)"
    "stopping (powerfs_conn_set_state i new pl) = stopping pl"
    "j \<noteq> i \<Longrightarrow> filers (powerfs_conn_set_state i new pl) ! j = filers pl ! j"
    "new \<noteq> Conn_Connected \<Longrightarrow> f_delay (filers (powerfs_conn_set_state i new pl) ! i) = f_delay (filers pl ! i)"
proof -
  let ?p = "upd_filer i (\<lambda>f. f\<lparr>f_state := Conn_Connected, f_ever := f_ever f \<or> Conn_Connected = Conn_Connected\<rparr>) pl"
  have r: "filers (powerfs_shard_route_on_filer_reconnect (int i) ?p) = filers ?p"
    "stopping (powerfs_shard_route_on_filer_reconnect (int i) ?p) = stopping ?p"
    using assms by (intro reconnect_filers; simp add: connected_def)+
  note d = powerfs_conn_set_state_def Let_def cancel_pending_filers assms r [simplified]
  show "f_state (filers (powerfs_conn_set_state i new pl) ! i) = new"
    "f_count (filers (powerfs_conn_set_state i new pl) ! i) = f_count (filers pl ! i)"
    "f_in_use (filers (powerfs_conn_set_state i new pl) ! i) = f_in_use (filers pl ! i)"
    "length (filers (powerfs_conn_set_state i new pl)) = length (filers pl)"
    "stopping (powerfs_conn_set_state i new pl) = stopping pl"
    "j \<noteq> i \<Longrightarrow> filers (powerfs_conn_set_state i new pl) ! j = filers pl ! j"
    "new \<noteq> Conn_Connected \<Longrightarrow> f_delay (filers (powerfs_conn_set_state i new pl) ! i) = f_delay (filers pl ! i)"
    by (cases new; simp add: d)+
qed

abbreviation reachable :: "bool \<times> int \<times> int \<Rightarrow> bool" where
  "reachable net \<equiv> fst net \<and> 0 \<le> fst (snd net) \<and> 0 \<le> snd (snd net)"

lemma connect_one_spec:
  assumes "powerfs_conn_connect_one net i pl = (ret, pl')" "i < length (filers pl)"
    "f_in_use (filers pl ! i)" "\<not> connected (filers pl ! i)"
  shows "ret = 0 \<longleftrightarrow> reachable net" "connected (filers pl' ! i) \<longleftrightarrow> reachable net"
    "length (filers pl') = length (filers pl)" "stopping pl' = stopping pl" "f_in_use (filers pl' ! i)"
    "\<not> reachable net \<Longrightarrow> f_count (filers pl' ! i) = f_count (filers pl ! i)"
  using assms by (auto simp: powerfs_conn_connect_one_def Let_def connected_def set_state_filers
      split: prod.splits if_splits)

lemma reconnect_work_spec:
  assumes "powerfs_conn_reconnect_work_fn msecs net i pl = (pl', d)" "i < length (filers pl)"
    "f_in_use (filers pl ! i)" "\<not> connected (filers pl ! i)" "\<not> stopping pl"
  shows "length (filers pl') = length (filers pl)" "stopping pl' = stopping pl" "f_in_use (filers pl' ! i)"
    "d = None \<longleftrightarrow> connected (filers pl' ! i)"
    "f_count (filers pl ! i) < MAX_RECONNECT \<Longrightarrow> connected (filers pl' ! i) \<longleftrightarrow> reachable net"
    "MAX_RECONNECT \<le> f_count (filers pl ! i) \<Longrightarrow> f_count (filers pl' ! i) = 0"
    "msecs BASE_DELAY \<le> msecs MAX_DELAY \<Longrightarrow> msecs FAULT_DELAY \<le> msecs MAX_DELAY \<Longrightarrow>
     d = Some x \<Longrightarrow> x \<le> msecs MAX_DELAY"
proof -
  obtain ret pl1 where c: "powerfs_conn_connect_one net i (upd_filer i (\<lambda>f. f\<lparr>f_count := f_count f + 1\<rparr>) pl) = (ret, pl1)"
    by (cases "powerfs_conn_connect_one net i (upd_filer i (\<lambda>f. f\<lparr>f_count := f_count f + 1\<rparr>) pl)")
  note c1 = connect_one_spec [OF c, simplified, simplified connected_def assms(2), simplified]
  note d = powerfs_conn_reconnect_work_fn_def Let_def connected_def set_state_filers
  show "length (filers pl') = length (filers pl)" "stopping pl' = stopping pl" "f_in_use (filers pl' ! i)"
    "d = None \<longleftrightarrow> connected (filers pl' ! i)"
    "f_count (filers pl ! i) < MAX_RECONNECT \<Longrightarrow> connected (filers pl' ! i) \<longleftrightarrow> reachable net"
    "MAX_RECONNECT \<le> f_count (filers pl ! i) \<Longrightarrow> f_count (filers pl' ! i) = 0"
    "msecs BASE_DELAY \<le> msecs MAX_DELAY \<Longrightarrow> msecs FAULT_DELAY \<le> msecs MAX_DELAY \<Longrightarrow>
     d = Some x \<Longrightarrow> x \<le> msecs MAX_DELAY"
    using assms c c1 by (auto simp: d split: if_splits)
qed

text \<open>The work runs itself until it is connected, and two attempts that find the server reachable suffice:
  the first may be spent on giving the connection up.\<close>

lemma reconnect_runs_delays:
  assumes "i < length (filers pl)" "f_in_use (filers pl ! i)" "\<not> connected (filers pl ! i)" "\<not> stopping pl"
    "msecs BASE_DELAY \<le> msecs MAX_DELAY" "msecs FAULT_DELAY \<le> msecs MAX_DELAY"
  shows "\<forall>d \<in> set (snd (reconnect_runs msecs nets i pl)). d \<le> msecs MAX_DELAY"
  using assms
proof (induction nets arbitrary: pl)
  case (Cons net nets)
  obtain pl' d where w: "powerfs_conn_reconnect_work_fn msecs net i pl = (pl', d)"
    by (cases "powerfs_conn_reconnect_work_fn msecs net i pl")
  note sp = reconnect_work_spec [OF w Cons.prems(1-4)]
  show ?case
  proof (cases d)
    case (Some x)
    then have "\<not> connected (filers pl' ! i)" using sp(4) by simp
    with Cons.IH [of pl'] sp Cons.prems have "\<forall>d \<in> set (snd (reconnect_runs msecs nets i pl')). d \<le> msecs MAX_DELAY"
      by simp
    moreover have "x \<le> msecs MAX_DELAY" using sp(7) Cons.prems(5,6) Some by simp
    ultimately show ?thesis using Some w by (simp split: prod.split)
  qed (simp add: w)
qed simp

lemma reconnect_runs_ends:
  assumes "i < length (filers pl)" "f_in_use (filers pl ! i)" "\<not> connected (filers pl ! i)" "\<not> stopping pl"
    "reachable g1" "reachable g2"
  shows "connected (filers (fst (reconnect_runs msecs (nets @ [g1, g2]) i pl)) ! i)"
  using assms
proof (induction nets arbitrary: pl)
  case Nil
  obtain pl1 d1 where w1: "powerfs_conn_reconnect_work_fn msecs g1 i pl = (pl1, d1)"
    by (cases "powerfs_conn_reconnect_work_fn msecs g1 i pl")
  obtain pl2 d2 where w2: "powerfs_conn_reconnect_work_fn msecs g2 i pl1 = (pl2, d2)"
    by (cases "powerfs_conn_reconnect_work_fn msecs g2 i pl1")
  note s1 = reconnect_work_spec [OF w1 Nil.prems(1-4)]
  show ?case
  proof (cases d1)
    case None
    then show ?thesis using s1(4) w1 by simp
  next
    case (Some x)
    then have n: "\<not> connected (filers pl1 ! i)" using s1(4) by simp
    then have "f_count (filers pl1 ! i) = 0" using s1(5,6) Nil.prems(5) by (meson not_le)
    then have "connected (filers pl2 ! i)"
      using reconnect_work_spec(5) [OF w2] s1(1,2,3) Nil.prems n by simp
    then show ?thesis using Some w1 w2 by (simp split: option.split)
  qed
next
  case (Cons net nets)
  obtain pl' d where w: "powerfs_conn_reconnect_work_fn msecs net i pl = (pl', d)"
    by (cases "powerfs_conn_reconnect_work_fn msecs net i pl")
  note sp = reconnect_work_spec [OF w Cons.prems(1-4)]
  show ?case
  proof (cases d)
    case None
    then show ?thesis using sp(4) w by simp
  next
    case (Some x)
    then have "connected (filers (fst (reconnect_runs msecs (nets @ [g1, g2]) i pl')) ! i)"
      using Cons.IH [of pl'] sp Cons.prems by simp
    then show ?thesis using Some w by (auto split: prod.split)
  qed
qed

section \<open>Invariant\<close>

definition route_ok :: "filer list \<Rightarrow> route_entry \<Rightarrow> bool" where
  "route_ok fs r \<longleftrightarrow> (r_state r = Route_Valid \<longrightarrow> 0 \<le> r_leader r \<and> r_leader r < int (length fs))"

definition route_inv :: "pool \<Rightarrow> bool" where
  "route_inv pl \<longleftrightarrow> length (routes pl) = MAX_SHARDS \<and> (\<forall>r \<in> set (routes pl). route_ok (filers pl) r) \<and>
    distinct (concat (map r_parked (routes pl)))"

text \<open>A valid route leads to a filer of the pool, and if that filer is not connected the last redirect of the
  shard is to blame. The queues hold the requests of waiting submitters, each on the shard it waits for; a
  submitter that waits has its request on the queue or was woken once. A request that is sent is not waited for
  here.\<close>

definition leads_ok :: "nat set \<Rightarrow> pool \<Rightarrow> bool" where
  "leads_ok D pl \<longleftrightarrow> (\<forall>s < length (routes pl). r_state (routes pl ! s) = Route_Valid \<longrightarrow>
    0 \<le> r_leader (routes pl ! s) \<and> r_leader (routes pl ! s) < int (length (filers pl)) \<and>
    (connected (filers pl ! nat (r_leader (routes pl ! s))) \<or> s \<in> D))"

definition queues_ok :: "(nat \<Rightarrow> nat option) \<Rightarrow> pool \<Rightarrow> bool" where
  "queues_ok W pl \<longleftrightarrow>
    (\<forall>s < length (routes pl). distinct (r_parked (routes pl ! s)) \<and>
      (\<forall>q \<in> set (r_parked (routes pl ! s)). W q = Some s \<and> q_done pl q = 0))"

definition waits_ok :: "(nat \<Rightarrow> nat option) \<Rightarrow> pool \<Rightarrow> bool" where
  "waits_ok W pl \<longleftrightarrow> (\<forall>q s. W q = Some s \<longrightarrow> s < MAX_SHARDS \<and>
    (q \<in> set (r_parked (routes pl ! s)) \<or> q_done pl q = 1 \<and> q_error pl q = - EAGAIN))"

definition sent_ok :: "(nat \<Rightarrow> nat option) \<Rightarrow> filer list \<Rightarrow> bool" where
  "sent_ok W fs \<longleftrightarrow> (\<forall>i < length fs. \<forall>q \<in> set (f_pending (fs ! i)). W q = None)"

definition pool_inv :: "(nat \<Rightarrow> nat option) \<Rightarrow> nat set \<Rightarrow> pool \<Rightarrow> bool" where
  "pool_inv W D pl \<longleftrightarrow> length (routes pl) = MAX_SHARDS \<and> leads_ok D pl \<and> queues_ok W pl \<and> waits_ok W pl \<and>
    sent_ok W (filers pl)"

definition mach_inv :: "route_mach \<Rightarrow> bool" where
  "mach_inv m = pool_inv (rm_wait m) (rm_down m) (rm_pool m)"

lemma queues_distinct: "queues_ok W pl \<Longrightarrow> distinct (concat (map r_parked (routes pl)))"
proof -
  assume q: "queues_ok W pl"
  have "distinct (concat xss)"
    if "\<forall>i < length xss. distinct (xss ! i) \<and> (\<forall>x \<in> set (xss ! i). W x = Some (k + i))" for xss :: "nat list list" and k
    using that
  proof (induction xss arbitrary: k)
    case (Cons xs xss)
    have xs: "distinct xs" "\<forall>x \<in> set xs. W x = Some k" using Cons.prems by force+
    have xss: "\<forall>i < length xss. distinct (xss ! i) \<and> (\<forall>x \<in> set (xss ! i). W x = Some (Suc k + i))"
      using Cons.prems by force
    have "W x \<noteq> Some k" if "x \<in> set (concat xss)" for x
    proof -
      from that obtain ys where "ys \<in> set xss" "x \<in> set ys" by auto
      then obtain i where "i < length xss" "x \<in> set (xss ! i)" by (metis in_set_conv_nth)
      then have "W x = Some (Suc k + i)" using xss by blast
      then show ?thesis by simp
    qed
    then show ?case using xs Cons.IH [OF xss] by auto
  qed simp
  from this [of "map r_parked (routes pl)" 0] q show ?thesis by (simp add: queues_ok_def)
qed

lemma pool_route_inv: "pool_inv W D pl \<Longrightarrow> route_inv pl"
  by (auto simp: pool_inv_def route_inv_def queues_distinct leads_ok_def route_ok_def in_set_conv_nth)

lemma woken_once:
  assumes "queues_ok W pl" "S \<subseteq> {..<length (routes pl)}"
  shows "(\<Sum>t \<in> S. count_list (r_parked (routes pl ! t)) q) = of_bool (\<exists>t \<in> S. q \<in> set (r_parked (routes pl ! t)))"
proof (cases "\<exists>t \<in> S. q \<in> set (r_parked (routes pl ! t))")
  case True
  then obtain t where "t \<in> S" "q \<in> set (r_parked (routes pl ! t))" by blast
  then show ?thesis
    using count_parked_once [OF queues_distinct [OF assms(1)] _ _ assms(2)] assms(2) by auto
qed (simp add: count_list_0_iff)

lemma wakes_inv:
  assumes "pool_inv W D pl" "wakes S pl pl'" "S \<subseteq> {..<length (routes pl)}"
  shows "pool_inv W D pl'"
proof -
  have q: "queues_ok W pl" and len: "length (routes pl) = MAX_SHARDS" using assms(1) by (simp_all add: pool_inv_def)
  have same: "filers pl' = filers pl" "length (routes pl') = length (routes pl)"
    using assms(2) by (simp_all add: wakes_def)
  have r: "routes pl' ! s = (routes pl ! s)\<lparr>r_parked := if s \<in> S then [] else r_parked (routes pl ! s)\<rparr>"
    if "s < length (routes pl)" for s
    using assms(2) that by (simp add: wakes_def)
  let ?woken = "\<lambda>q. \<exists>t \<in> S. q \<in> set (r_parked (routes pl ! t))"
  have d: "q_done pl' q = q_done pl q + of_bool (?woken q)" "q_error pl' q = (if ?woken q then - EAGAIN else q_error pl q)" for q
    using assms(2) by (simp_all add: wakes_def woken_once [OF q assms(3)])
  have woken: "t = s \<and> q_done pl q = 0" if "W q = Some s" "t \<in> S" "q \<in> set (r_parked (routes pl ! t))" for q s t
    using q that assms(3) unfolding queues_ok_def by fastforce
  have "leads_ok D pl'"
    unfolding leads_ok_def same
  proof (intro allI impI)
    fix s
    assume s: "s < length (routes pl)" "r_state (routes pl' ! s) = Route_Valid"
    then show "0 \<le> r_leader (routes pl' ! s) \<and> r_leader (routes pl' ! s) < int (length (filers pl)) \<and>
        (connected (filers pl ! nat (r_leader (routes pl' ! s))) \<or> s \<in> D)"
      using assms(1) by (simp add: r pool_inv_def leads_ok_def)
  qed
  moreover have "queues_ok W pl'"
    unfolding queues_ok_def same
  proof (intro allI impI)
    fix s
    assume s: "s < length (routes pl)"
    have "W x = Some s \<and> q_done pl x = 0 \<and> \<not> ?woken x" if "s \<notin> S" "x \<in> set (r_parked (routes pl ! s))" for x
      using q s that woken [of x] unfolding queues_ok_def by blast
    then show "distinct (r_parked (routes pl' ! s)) \<and> (\<forall>x \<in> set (r_parked (routes pl' ! s)). W x = Some s \<and> q_done pl' x = 0)"
      using q s by (simp add: r d queues_ok_def)
  qed
  moreover have "waits_ok W pl'"
    unfolding waits_ok_def
  proof (intro allI impI)
    fix x s
    assume W: "W x = Some s"
    have s: "s < MAX_SHARDS" "x \<in> set (r_parked (routes pl ! s)) \<or> q_done pl x = 1 \<and> q_error pl x = - EAGAIN"
      using assms(1) W by (auto simp: pool_inv_def waits_ok_def)
    have z: "x \<in> set (r_parked (routes pl ! s)) \<Longrightarrow> q_done pl x = 0" using q s(1) len by (simp add: queues_ok_def)
    have "?woken x \<longleftrightarrow> s \<in> S \<and> x \<in> set (r_parked (routes pl ! s))" using woken [OF W] by blast
    then show "s < MAX_SHARDS \<and> (x \<in> set (r_parked (routes pl' ! s)) \<or> q_done pl' x = 1 \<and> q_error pl' x = - EAGAIN)"
      using s z len by (simp add: r d) blast
  qed
  moreover have "sent_ok W (filers pl')" "length (routes pl') = MAX_SHARDS"
    using assms(1) same by (simp_all add: pool_inv_def)
  ultimately show ?thesis by (simp add: pool_inv_def)
qed

lemma connected_upd:
  "f_state f = f_state (xs ! i) \<Longrightarrow> connected (xs[i := f] ! j) \<longleftrightarrow> connected (xs ! j)"
  by (cases "i < length xs") (auto simp: connected_def nth_list_update list_update_beyond)

lemma parked_cong:
  assumes "map r_parked (routes pl') = map r_parked (routes pl)" "q_done pl' = q_done pl" "q_error pl' = q_error pl"
  shows "queues_ok W pl' \<longleftrightarrow> queues_ok W pl" "length (routes pl) = MAX_SHARDS \<Longrightarrow> waits_ok W pl' \<longleftrightarrow> waits_ok W pl"
proof -
  have len: "length (routes pl') = length (routes pl)" using assms(1) map_eq_imp_length_eq by blast
  have n: "r_parked (routes pl' ! s) = r_parked (routes pl ! s)" if "s < length (routes pl)" for s
    using arg_cong [OF assms(1), of "\<lambda>xs. xs ! s"] that len by simp
  show "queues_ok W pl' \<longleftrightarrow> queues_ok W pl" by (simp add: queues_ok_def len n assms(2))
  assume "length (routes pl) = MAX_SHARDS"
  then have "s < MAX_SHARDS \<and> (q \<in> set (r_parked (routes pl' ! s)) \<or> q_done pl' q = 1 \<and> q_error pl' q = - EAGAIN) \<longleftrightarrow>
      s < MAX_SHARDS \<and> (q \<in> set (r_parked (routes pl ! s)) \<or> q_done pl q = 1 \<and> q_error pl q = - EAGAIN)" for q s
    using n by (auto simp: assms(2,3))
  then show "waits_ok W pl' \<longleftrightarrow> waits_ok W pl" by (simp only: waits_ok_def)
qed

lemma sent_mono:
  assumes "sent_ok W fs" "length fs' = length fs"
    "\<And>j. j < length fs \<Longrightarrow> set (f_pending (fs' ! j)) \<subseteq> set (f_pending (fs ! j))"
  shows "sent_ok W fs'"
  unfolding sent_ok_def
proof (intro allI impI ballI)
  fix i q
  assume "i < length fs'" "q \<in> set (f_pending (fs' ! i))"
  then have "i < length fs" "q \<in> set (f_pending (fs ! i))" using assms(2,3) by auto
  then show "W q = None" using assms(1) by (simp add: sent_ok_def)
qed

text \<open>A change of the connections alone keeps the invariant if no connection goes down.\<close>

lemma inv_filers_mono:
  assumes "pool_inv W D pl" "routes pl' = routes pl" "q_done pl' = q_done pl" "q_error pl' = q_error pl"
    "length (filers pl') = length (filers pl)"
    "\<And>j. j < length (filers pl) \<Longrightarrow> set (f_pending (filers pl' ! j)) \<subseteq> set (f_pending (filers pl ! j))"
    "\<And>j. j < length (filers pl) \<Longrightarrow> connected (filers pl ! j) \<Longrightarrow> connected (filers pl' ! j)"
  shows "pool_inv W D pl'"
proof -
  have "leads_ok D pl'"
    unfolding leads_ok_def assms(2,5)
  proof (intro allI impI)
    fix s
    assume s: "s < length (routes pl)" "r_state (routes pl ! s) = Route_Valid"
    then have "0 \<le> r_leader (routes pl ! s) \<and> r_leader (routes pl ! s) < int (length (filers pl)) \<and>
        (connected (filers pl ! nat (r_leader (routes pl ! s))) \<or> s \<in> D)"
      using assms(1) by (simp add: pool_inv_def leads_ok_def)
    then show "0 \<le> r_leader (routes pl ! s) \<and> r_leader (routes pl ! s) < int (length (filers pl)) \<and>
        (connected (filers pl' ! nat (r_leader (routes pl ! s))) \<or> s \<in> D)"
      using assms(7) [of "nat (r_leader (routes pl ! s))"] by auto
  qed
  then show ?thesis
    using assms(1-4) sent_mono [OF _ assms(5,6)] parked_cong [of pl' pl W] by (simp add: pool_inv_def)
qed

text \<open>If one goes down, the routes through it are no longer valid afterwards.\<close>

lemma disconnect_inv:
  assumes "pool_inv W D pl" "routes pl' = routes pl" "q_done pl' = q_done pl" "q_error pl' = q_error pl"
    "length (filers pl') = length (filers pl)" "i < length (filers pl)"
    "\<And>j. j < length (filers pl) \<Longrightarrow> set (f_pending (filers pl' ! j)) \<subseteq> set (f_pending (filers pl ! j))"
    "\<And>j. j < length (filers pl) \<Longrightarrow> j \<noteq> i \<Longrightarrow> connected (filers pl ! j) \<Longrightarrow> connected (filers pl' ! j)"
  shows "pool_inv W D (powerfs_shard_route_on_filer_disconnect (int i) pl')"
proof -
  let ?f = "\<lambda>r. if r_leader r = int i \<and> r_state r = Route_Valid then r\<lparr>r_state := Route_Checking\<rparr> else r"
  let ?d = "powerfs_shard_route_on_filer_disconnect (int i) pl'"
  have d: "?d = pl'\<lparr>routes := map ?f (routes pl)\<rparr>"
    using assms(2,5,6) by (simp add: powerfs_shard_route_on_filer_disconnect_def)
  have f: "r_state (?f r) = Route_Valid \<longleftrightarrow> r_state r = Route_Valid \<and> r_leader r \<noteq> int i" "r_leader (?f r) = r_leader r"
    "r_parked (?f r) = r_parked r" for r by auto
  have "leads_ok D ?d"
    unfolding leads_ok_def
  proof (intro allI impI)
    fix s
    assume "s < length (routes ?d)" "r_state (routes ?d ! s) = Route_Valid"
    then have s: "s < length (routes pl)" "r_state (routes pl ! s) = Route_Valid" "r_leader (routes pl ! s) \<noteq> int i"
      by (simp_all add: d f del: if_split)
    then have "0 \<le> r_leader (routes pl ! s) \<and> r_leader (routes pl ! s) < int (length (filers pl)) \<and>
        (connected (filers pl ! nat (r_leader (routes pl ! s))) \<or> s \<in> D)"
      using assms(1) by (simp add: pool_inv_def leads_ok_def)
    then show "0 \<le> r_leader (routes ?d ! s) \<and> r_leader (routes ?d ! s) < int (length (filers ?d)) \<and>
        (connected (filers ?d ! nat (r_leader (routes ?d ! s))) \<or> s \<in> D)"
      using assms(8) [of "nat (r_leader (routes pl ! s))"] s(1,3) by (auto simp: d f assms(5) simp del: if_split)
  qed
  moreover have "map r_parked (routes ?d) = map r_parked (routes pl)" by (simp add: d f comp_def del: if_split)
  ultimately show ?thesis
    using assms(1,3,4) sent_mono [OF _ assms(5,7)] parked_cong [of ?d pl W] by (simp add: pool_inv_def d)
qed

lemma reconnect_inv:
  assumes "pool_inv W D pl" "i < length (filers pl)" "connected (filers pl ! i)"
  shows "pool_inv W D (powerfs_shard_route_on_filer_reconnect (int i) pl)"
proof -
  have "r_state (reconnect_entry (int i) r) = Route_Valid \<longleftrightarrow> r_state r = Route_Valid" for r
    by (simp add: reconnect_entry_def)
  then have "pool_inv W D (pl\<lparr>routes := map (reconnect_entry (int i)) (routes pl)\<rparr>)"
    using assms(1) parked_cong [of "pl\<lparr>routes := map (reconnect_entry (int i)) (routes pl)\<rparr>" pl W]
    by (simp add: pool_inv_def leads_ok_def reconnect_entry_simps comp_def)
  then show ?thesis
    using wakes_inv [OF _ reconnect_wakes [of "int i" pl]] assms by (simp add: woken_def subset_iff)
qed

text \<open>The requests that are cancelled with a connection are sent ones, so no wait for a route is disturbed.\<close>

lemma cancel_inv:
  assumes "pool_inv W D pl" "i < length (filers pl)"
  shows "pool_inv W D (cancel_pending i pl)"
proof -
  let ?qs = "f_pending (filers pl ! i)"
  have other: "q \<notin> set ?qs" if "W q \<noteq> None" for q
    using assms that by (auto simp: pool_inv_def sent_ok_def)
  have W: "q_done (cancel_pending i pl) q = q_done pl q" "q_error (cancel_pending i pl) q = q_error pl q" if "W q \<noteq> None" for q
    using other [OF that] by (simp_all add: cancel_pending_def fold_wake Let_def count_list_0_iff)
  have "leads_ok D (cancel_pending i pl)"
    using assms(1) by (simp add: pool_inv_def leads_ok_def cancel_pending_filers connected_upd)
  moreover have "queues_ok W (cancel_pending i pl)"
    unfolding queues_ok_def cancel_pending_filers
  proof (intro allI impI conjI ballI)
    fix s q
    assume "s < length (routes pl)"
    then have s: "distinct (r_parked (routes pl ! s))"
      "q \<in> set (r_parked (routes pl ! s)) \<Longrightarrow> W q = Some s \<and> q_done pl q = 0"
      using assms(1) by (simp_all add: pool_inv_def queues_ok_def)
    show "distinct (r_parked (routes pl ! s))" by (fact s(1))
    assume "q \<in> set (r_parked (routes pl ! s))"
    then show "W q = Some s" "q_done (cancel_pending i pl) q = 0" using s(2) W(1) [of q] by auto
  qed
  moreover have "waits_ok W (cancel_pending i pl)"
    unfolding waits_ok_def cancel_pending_filers
  proof (intro allI impI)
    fix q s
    assume q: "W q = Some s"
    then have "s < MAX_SHARDS \<and> (q \<in> set (r_parked (routes pl ! s)) \<or> q_done pl q = 1 \<and> q_error pl q = - EAGAIN)"
      using assms(1) by (simp add: pool_inv_def waits_ok_def)
    then show "s < MAX_SHARDS \<and> (q \<in> set (r_parked (routes pl ! s)) \<or>
        q_done (cancel_pending i pl) q = 1 \<and> q_error (cancel_pending i pl) q = - EAGAIN)"
      using W [of q] q by simp
  qed
  moreover have "sent_ok W (filers (cancel_pending i pl))"
    using assms by (auto simp: pool_inv_def sent_ok_def cancel_pending_filers nth_list_update)
  ultimately show ?thesis using assms(1) by (simp add: pool_inv_def cancel_pending_filers)
qed

lemma upd_filer_inv:
  assumes "pool_inv W D pl" "f_state (g (filers pl ! i)) = f_state (filers pl ! i)"
    "f_pending (g (filers pl ! i)) = f_pending (filers pl ! i)"
  shows "pool_inv W D (upd_filer i g pl)"
proof -
  have "set (f_pending ((filers pl)[i := g (filers pl ! i)] ! j)) \<subseteq> set (f_pending (filers pl ! j))"
    if "j < length (filers pl)" for j
    using assms(3) that by (cases "i = j") simp_all
  then show ?thesis
    using assms(2) by (intro inv_filers_mono [OF assms(1)]) (simp_all add: connected_upd)
qed

lemma set_state_inv:
  assumes "pool_inv W D pl" "i < length (filers pl)"
    "new \<in> {Conn_Reconnecting, Conn_Fault, Conn_Connected} \<or> \<not> connected (filers pl ! i)"
  shows "pool_inv W D (powerfs_conn_set_state i new pl)"
proof -
  let ?p = "upd_filer i (\<lambda>f. f\<lparr>f_state := new, f_ever := f_ever f \<or> new = Conn_Connected\<rparr>) pl"
  have p: "connected (filers ?p ! j) \<longleftrightarrow> (if j = i then new = Conn_Connected else connected (filers pl ! j))"
    "f_pending (filers ?p ! j) = f_pending (filers pl ! j)" for j
    using assms(2) by (auto simp: connected_def nth_list_update)
  have d: "pool_inv W D (powerfs_shard_route_on_filer_disconnect (int i) ?p)"
    using assms(2) p by (intro disconnect_inv [OF assms(1)]) auto
  have k: "pool_inv W D ?p" if "new = Conn_Connected \<or> \<not> connected (filers pl ! i)"
    using assms(2) p that by (intro inv_filers_mono [OF assms(1)]) auto
  have r: "pool_inv W D (powerfs_shard_route_on_filer_reconnect (int i) ?p)" if "new = Conn_Connected"
    using k p(1) [of i] that assms(2) by (intro reconnect_inv) auto
  have dr: "pool_inv W D (upd_filer i (\<lambda>f. f\<lparr>f_delay := 0\<rparr>) (powerfs_shard_route_on_filer_reconnect (int i) ?p))"
    if "new = Conn_Connected"
    using upd_filer_inv [OF r [OF that], of "\<lambda>f. f\<lparr>f_delay := 0\<rparr>" i] by simp
  have cd: "pool_inv W D (cancel_pending i (powerfs_shard_route_on_filer_disconnect (int i) ?p))"
    by (rule cancel_inv [OF d]) (simp add: assms(2))
  show ?thesis
    using assms(2,3) d cd dr k r by (cases new) (simp_all add: powerfs_conn_set_state_def Let_def)
qed

lemma connect_one_inv:
  assumes "pool_inv W D pl" "i < length (filers pl)"
  shows "pool_inv W D (snd (powerfs_conn_connect_one net i pl))"
proof -
  let ?c = "powerfs_conn_set_state i Conn_Connecting pl"
  have c: "pool_inv W D ?c" if "\<not> connected (filers pl ! i)"
    using that assms by (intro set_state_inv) auto
  have s: "pool_inv W D (powerfs_conn_set_state i new ?c)"
    if "\<not> connected (filers pl ! i)" "new \<in> {Conn_Reconnecting, Conn_Connected}" for new
    using that assms c by (intro set_state_inv) (auto simp: set_state_filers)
  have z: "pool_inv W D (upd_filer i (\<lambda>f. f\<lparr>f_count := 0, f_delay := 0\<rparr>) q)" if "pool_inv W D q" for q
    by (rule upd_filer_inv [OF that]) simp_all
  show ?thesis
    using assms s z by (auto simp: powerfs_conn_connect_one_def Let_def split: prod.splits)
qed

lemma work_inv:
  assumes "pool_inv W D pl" "i < length (filers pl)"
  shows "pool_inv W D (fst (powerfs_conn_reconnect_work_fn msecs net i pl))"
proof -
  let ?q = "upd_filer i (\<lambda>f. f\<lparr>f_count := f_count f + 1\<rparr>) pl"
  have same: "pool_inv W D (upd_filer i (\<lambda>f. f\<lparr>f_count := n, f_delay := d\<rparr>) q)"
    "pool_inv W D (upd_filer i (\<lambda>f. f\<lparr>f_delay := d\<rparr>) q)" if "pool_inv W D q" for q n d
    by (rule upd_filer_inv [OF that]; simp)+
  have q: "pool_inv W D ?q" by (rule upd_filer_inv [OF assms(1)]) simp_all
  have c: "pool_inv W D pl'" if "powerfs_conn_connect_one net i ?q = (ret, pl')" for ret pl'
    using connect_one_inv [OF q, of i net] that assms(2) by simp
  have f: "pool_inv W D (powerfs_conn_set_state i Conn_Fault pl)"
    using assms by (intro set_state_inv) simp_all
  show ?thesis
    using assms(1) c same(1) [OF f] same(2) [OF c]
    by (auto simp: powerfs_conn_reconnect_work_fn_def Let_def split: prod.splits)
qed

lemma disconnect_route_inv:
  assumes "pool_inv W D pl" "i < length (filers pl)"
  shows "pool_inv W D (fst (powerfs_conn_disconnect_route msecs now i pl))"
proof -
  let ?p = "(upd_filer i (\<lambda>f. f\<lparr>f_state := Conn_Reconnecting\<rparr>) pl)\<lparr>last_disconnect := now\<rparr>"
  have "pool_inv W D (powerfs_shard_route_on_filer_disconnect (int i) ?p)"
    using assms by (intro disconnect_inv [OF assms(1)]) (auto simp: nth_list_update)
  then show ?thesis using assms(1) by (simp add: powerfs_conn_disconnect_route_def Let_def)
qed

lemma upd_route_inv:
  assumes "pool_inv W D pl" "s < MAX_SHARDS" "r_parked (g (routes pl ! s)) = r_parked (routes pl ! s)"
    "leads_ok D' (upd_route s g pl)"
  shows "pool_inv W D' (upd_route s g pl)"
proof -
  have len: "length (routes pl) = MAX_SHARDS" using assms(1) by (simp add: pool_inv_def)
  then have "map r_parked (routes (upd_route s g pl)) = map r_parked (routes pl)"
    using assms(2,3) by (simp add: map_update) (metis list_update_id nth_map)
  then show ?thesis
    using assms(1,4) len parked_cong [of "upd_route s g pl" pl W] by (simp add: pool_inv_def)
qed

lemma downgrade_inv:
  assumes "pool_inv W D pl"
  shows "pool_inv W D (route_downgrade sid pl)"
proof -
  let ?p = "upd_route (unat sid) (\<lambda>r. r\<lparr>r_state := Route_Checking\<rparr>) pl"
  have "leads_ok D ?p" if "unat sid < MAX_SHARDS"
    using assms that by (auto simp: pool_inv_def leads_ok_def nth_list_update)
  then have "pool_inv W D ?p" if "unat sid < MAX_SHARDS"
    using that by (intro upd_route_inv [OF assms]) auto
  then show ?thesis using assms by (simp add: route_downgrade_def)
qed

text \<open>A redirect: the blame for a route to a filer that is down moves with it.\<close>

lemma update_inv:
  assumes "pool_inv W D pl" "0 \<le> idx" "idx < int (length (filers pl))"
  shows "pool_inv W (note_down (Update sid idx) pl D) (powerfs_shard_route_update sid idx pl)"
proof -
  let ?D = "note_down (Update sid idx) pl D"
  let ?p = "upd_route (unat sid) (\<lambda>r. r\<lparr>r_leader := idx, r_state := Route_Valid\<rparr>) pl"
  have len: "length (routes pl) = MAX_SHARDS" using assms(1) by (simp add: pool_inv_def)
  have "leads_ok ?D ?p" if "unat sid < MAX_SHARDS"
    using assms that by (auto simp: pool_inv_def leads_ok_def nth_list_update)
  then have p: "pool_inv W ?D ?p" if "unat sid < MAX_SHARDS"
    using that by (intro upd_route_inv [OF assms(1)]) auto
  have "pool_inv W ?D (powerfs_shard_route_dispatch_pending (unat sid) ?p)" if "unat sid < MAX_SHARDS"
    using that len by (intro wakes_inv [OF p [OF that] wakes_dispatch]) auto
  moreover have "pool_inv W ?D pl" if "\<not> unat sid < MAX_SHARDS"
    using that assms by (auto simp: pool_inv_def leads_ok_def)
  ultimately show ?thesis using p by (auto simp: powerfs_shard_route_update_def Let_def not_le)
qed

lemma park_inv:
  assumes "pool_inv W D pl" "unat sid < MAX_SHARDS" "W q = None" "\<forall>f \<in> set (filers pl). q \<notin> set (f_pending f)"
  shows "pool_inv (W(q \<mapsto> unat sid)) D (route_park sid q pl)"
proof -
  have len: "length (routes pl) = MAX_SHARDS" using assms(1) by (simp add: pool_inv_def)
  have nth: "(routes pl)[unat sid := x] ! s = (if unat sid = s then x else routes pl ! s)" for x s
    using assms(2) len by (simp add: nth_list_update)
  have out: "q \<notin> set (r_parked (routes pl ! s))" if "s < length (routes pl)" for s
    using assms(1,3) that by (auto simp: pool_inv_def queues_ok_def)
  have "queues_ok (W(q \<mapsto> unat sid)) (route_park sid q pl)"
    using assms(1) out by (auto simp: pool_inv_def queues_ok_def route_park_def nth)
  moreover have "waits_ok (W(q \<mapsto> unat sid)) (route_park sid q pl)"
    using assms(1,2) len by (auto simp: pool_inv_def waits_ok_def route_park_def nth)
  moreover have "leads_ok D (route_park sid q pl)"
    using assms(1) by (auto simp: pool_inv_def leads_ok_def route_park_def nth)
  moreover have "sent_ok (W(q \<mapsto> unat sid)) (filers pl)"
    using assms(1,4) by (auto simp: pool_inv_def sent_ok_def)
  ultimately show ?thesis using len by (simp add: pool_inv_def route_park_def)
qed

lemma unpark_inv:
  assumes "pool_inv W D pl" "W q = Some (unat sid)"
  shows "pool_inv (W(q := None)) D (route_unpark sid q pl)"
proof -
  have len: "length (routes pl) = MAX_SHARDS" "unat sid < length (routes pl)"
    using assms by (auto simp: pool_inv_def waits_ok_def)
  have nth: "(routes pl)[unat sid := x] ! s = (if unat sid = s then x else routes pl ! s)" for x s
    using len by (simp add: nth_list_update)
  have "queues_ok (W(q := None)) (route_unpark sid q pl)"
    using assms by (auto simp: pool_inv_def queues_ok_def route_unpark_def nth)
  moreover have "waits_ok (W(q := None)) (route_unpark sid q pl)"
    using assms(1) by (auto simp: pool_inv_def waits_ok_def route_unpark_def nth)
  moreover have "leads_ok D (route_unpark sid q pl)"
    using assms(1) by (auto simp: pool_inv_def leads_ok_def route_unpark_def nth)
  moreover have "sent_ok (W(q := None)) (filers pl)"
    using assms(1) by (auto simp: pool_inv_def sent_ok_def)
  ultimately show ?thesis using len by (simp add: pool_inv_def route_unpark_def)
qed

interpretation route: op_machine "mach_exec msecs" route_op_ok mach_inv for msecs
proof
  fix m a
  assume "mach_inv m" "route_op_ok a m"
  then show "mach_inv (mach_exec msecs a m)"
    by (cases a) (simp_all add: mach_inv_def mach_exec_def connect_one_inv work_inv disconnect_route_inv
        downgrade_inv update_inv [simplified] park_inv unpark_inv)
qed

section \<open>Properties\<close>

lemma connect_one_ok:
  assumes "i < length (filers pl)" "f_in_use (filers pl ! i)" "\<not> connected (filers pl ! i)" "reachable net"
  shows "\<exists>p fs. length p = length (filers pl) \<and> connected (p ! i) \<and>
    powerfs_conn_connect_one net i pl =
      (0, powerfs_shard_route_on_filer_reconnect (int i) (pl\<lparr>filers := p\<rparr>)\<lparr>filers := fs\<rparr>)"
proof -
  let ?c = "powerfs_conn_set_state i Conn_Connecting pl"
  let ?p = "(filers ?c)[i := (filers ?c ! i)\<lparr>f_state := Conn_Connected, f_ever := True\<rparr>]"
  have c: "?c = pl\<lparr>filers := (filers pl)[i := (filers pl ! i)\<lparr>f_state := Conn_Connecting, f_ever := f_ever (filers pl ! i)\<rparr>]\<rparr>"
    by (simp add: powerfs_conn_set_state_def Let_def)
  then have "powerfs_conn_connect_one net i pl =
      (0, powerfs_shard_route_on_filer_reconnect (int i) (pl\<lparr>filers := ?p\<rparr>)\<lparr>filers :=
        filers (snd (powerfs_conn_connect_one net i pl))\<rparr>)"
    using assms by (cases net) (simp add: powerfs_conn_connect_one_def Let_def, simp add: powerfs_conn_set_state_def Let_def)
  moreover have "length ?p = length (filers pl)" "connected (?p ! i)"
    using assms(1) c by (simp_all add: connected_def)
  ultimately show ?thesis by blast
qed

lemma unparked_elsewhere:
  assumes "distinct (concat (map r_parked rs))" "s < length rs" "q \<in> set (r_parked (rs ! s))"
    "S \<subseteq> {..<length rs}" "s \<notin> S"
  shows "(\<Sum>t \<in> S. count_list (r_parked (rs ! t)) q) = 0"
proof -
  have "q \<notin> set (r_parked (rs ! t))" if "t \<in> S" for t
    using assms that distinct_concat_nth [of "map r_parked rs" t s] by auto
  then show ?thesis by (simp add: count_list_0_iff)
qed


definition mach0 :: route_mach where
  "mach0 = \<lparr>rm_pool = pool0, rm_wait = [7 \<mapsto> 3], rm_down = {}\<rparr>"

lemma mach0_inv: "mach_inv mach0"
proof -
  have r: "routes pool0 ! s = (if s = 3 then \<lparr>r_leader = 0, r_state = Route_Checking, r_parked = [7]\<rparr>
      else \<lparr>r_leader = - 1, r_state = Route_Unknown, r_parked = []\<rparr>)" if "s < 64" for s
    using that by (simp add: pool0_def nth_list_update)
  have n: "length (routes pool0) = 64" "q_done pool0 = (\<lambda>_. 0)"
    "filers pool0 = [filer_of 9001 Conn_Reconnecting, filer_of 9002 Conn_Connected]"
    by (simp_all add: pool0_def)
  show ?thesis
    by (auto simp: mach_inv_def mach0_def pool_inv_def leads_ok_def queues_ok_def waits_ok_def sent_ok_def r n
        filer_of_def less_Suc_eq split: if_splits)
qed

lemma pool0_inv: "route_inv pool0"
  using mach0_inv pool_route_inv by (simp add: mach_inv_def mach0_def)




text \<open>A request can be left on the queue although its shard has a valid route to a connected filer: a redirect
  to a filer that is down makes the route valid without waking anybody, and the redirect to the true leader that
  follows finds the route valid and does not look at the queue either. Only the end of its wait releases it.\<close>

lemma redirects_strand_parked:
  assumes "length (routes pl) = MAX_SHARDS" "unat sid < MAX_SHARDS" "i < length (filers pl)" "j < length (filers pl)"
    "\<not> connected (filers pl ! i)" "connected (filers pl ! j)"
    "pl' = powerfs_shard_route_update sid (int j) (powerfs_shard_route_update sid (int i) pl)"
  shows "powerfs_shard_route_get_state sid pl' = Route_Valid" "powerfs_conn_get_filer_for_shard sid pl' = Some j"
    "r_state (routes pl ! unat sid) \<noteq> Route_Valid \<Longrightarrow>
     r_parked (routes pl' ! unat sid) = r_parked (routes pl ! unat sid) \<and> q_done pl' = q_done pl"
  using assms by (simp_all add: powerfs_shard_route_update_def powerfs_shard_route_dispatch_pending_def Let_def
      powerfs_shard_route_get_state_def powerfs_conn_get_filer_for_shard_def)

text \<open>The reconnect work never gives up: whatever the attempts so far gave, two further attempts that find
  the server reachable make the connection (one may be spent on declaring it failed), and the pauses between the
  attempts never exceed the maximal delay.\<close>

theorem reconnect_work_connects:
  assumes "i < length (filers pl)" "f_in_use (filers pl ! i)" "\<not> connected (filers pl ! i)" "\<not> stopping pl"
    "reachable g1" "reachable g2" "msecs BASE_DELAY \<le> msecs MAX_DELAY" "msecs FAULT_DELAY \<le> msecs MAX_DELAY"
    "reconnect_runs msecs (nets @ [g1, g2]) i pl = (pl', ds)"
  shows "connected (filers pl' ! i) \<and> (\<forall>d \<in> set ds. d \<le> msecs MAX_DELAY)"
  using reconnect_runs_ends [OF assms(1-6), of msecs nets] reconnect_runs_delays [OF assms(1-4,7,8), of "nets @ [g1, g2]"]
    assms(9) by simp

theorem reconnect_work_connects_witness:
  "connected (filers (fst (reconnect_runs (\<lambda>ms. ucast ms) ([(False, 0, 0), (True, - 111, 0)] @ [(True, 0, 0), (True, 0, 0)]) 0 pool0)) ! 0)"
proof -
  obtain pl' ds where r: "reconnect_runs (\<lambda>ms. ucast ms)
      ([(False, 0, 0), (True, - 111, 0)] @ [(True, 0, 0), (True, 0, 0)]) 0 pool0 = (pl', ds)" by fastforce
  have "connected (filers pl' ! 0) \<and> (\<forall>d \<in> set ds. d \<le> ucast MAX_DELAY)"
    by (rule reconnect_work_connects [OF _ _ _ _ _ _ _ _ r]) (simp_all add: pool0_def filer_of_def connected_def)
  then show ?thesis using r by simp
qed

end
