(* ===== verification/Submit.thy ===== *)
theory Submit
  imports Route Flow Tlv ShardMap
begin

text \<open>
  Submitting a request to the leader of its shard (\<open>powerfs_request_submit\<close> and its callers in
  \<open>powerfs_net_req.c\<close>): the choice of a filer, the redirect protocol with the blacklist of filers that redirect
  to themselves, the parking of requests no filer can take, and the deadline. One round of the loop is a
  function; the loop is a partial function. The clock, the replies of the filers and what other threads do to
  the pool between two steps are arguments.
\<close>

section \<open>Redirects\<close>

abbreviation EPERM :: int where "EPERM \<equiv> 1"
abbreviation EINTR :: int where "EINTR \<equiv> 4"
abbreviation EBADF :: int where "EBADF \<equiv> 9"
abbreviation ENOTDIR :: int where "ENOTDIR \<equiv> 20"
abbreviation EISDIR :: int where "EISDIR \<equiv> 21"
abbreviation ESTALE :: int where "ESTALE \<equiv> 116"
abbreviation EREMOTEIO :: int where "EREMOTEIO \<equiv> 121"
abbreviation FLD_OWNER :: u8 where "FLD_OWNER \<equiv> 0x17"
abbreviation STATUS_ERR_REDIRECT :: u16 where "STATUS_ERR_REDIRECT \<equiv> 11"
abbreviation MAX_BLACKLISTED_SELF :: nat where "MAX_BLACKLISTED_SELF \<equiv> 8"
abbreviation BAD_SELF_MAX_STALE_ROUNDS :: nat where "BAD_SELF_MAX_STALE_ROUNDS \<equiv> 2"
abbreviation MAX_EAGAIN_RETRIES :: nat where "MAX_EAGAIN_RETRIES \<equiv> 8"
abbreviation RECONNECT_WAIT_MS :: u32 where "RECONNECT_WAIT_MS \<equiv> 30000"

text \<open>The C library functions the parser calls: a string up to its terminator, the last occurrence of a
  character, and \<open>kstrtoul\<close> in base 10 (an optional sign, digits, an optional newline).\<close>

definition cstr :: "bytes \<Rightarrow> bytes" where
  "cstr = takeWhile (\<lambda>b. b \<noteq> 0)"

definition strrchr_split :: "u8 \<Rightarrow> bytes \<Rightarrow> (bytes \<times> bytes) option" where
  "strrchr_split c s =
    (if c \<in> set s
     then let suf = takeWhile (\<lambda>b. b \<noteq> c) (rev s) in Some (take (length s - length suf - 1) s, rev suf)
     else None)"

definition digit :: "u8 \<Rightarrow> bool" where
  "digit b \<longleftrightarrow> 48 \<le> b \<and> b \<le> 57"

definition kstrtoul10 :: "bytes \<Rightarrow> nat option" where
  "kstrtoul10 s =
    (let s = (case s of b # r \<Rightarrow> if b = 43 then r else s | [] \<Rightarrow> s);
         ds = takeWhile digit s; rest = dropWhile digit s;
         v = foldl (\<lambda>a b. a * 10 + (unat b - 48)) 0 ds
     in if ds = [] \<or> v \<ge> 2 ^ 64 then None
        else if rest = [] \<or> rest = [10] then Some v else None)"

text \<open>The buffer for the owner has 80 bytes; its contents before the call are never read.\<close>

definition powerfs_net_parse_redirect :: "bytes \<Rightarrow> (bytes \<times> u16) option" where
  "powerfs_net_parse_redirect body =
    (case powerfs_tlv_dec_string (powerfs_tlv_dec_init body (length body)) FLD_OWNER (replicate 80 0) 79 of
       (ret, owner, _) \<Rightarrow>
         if ret < 0 then None
         else case strrchr_split 58 (cstr owner) of
             None \<Rightarrow> None
           | Some (addr, p) \<Rightarrow>
               (case kstrtoul10 p of
                  None \<Rightarrow> None
                | Some v \<Rightarrow> if v = 0 \<or> v > 0xFFFF then None else Some (take 63 addr, of_nat v)))"

definition net_status_to_errno :: "u16 \<Rightarrow> int" where
  "net_status_to_errno status =
    (if status = 0 then 0 else if status = 1 then - ENOENT else if status = 2 then - EEXIST
     else if status = 3 then - EPERM else if status = 4 then - EIO else if status = 5 then - EINVAL
     else if status = 6 then - ENOTDIR else if status = 7 then - EISDIR else if status = 8 then - ENOSPC
     else if status = 9 then - EBADF else if status = 10 then - EREMOTEIO else if status = 11 then - EAGAIN
     else if status = 13 then - ESTALE else - EIO)"

section \<open>One round of the submit loop\<close>

record submit_state =
  s_last :: "nat option"
  s_bl :: "(bytes \<times> u16) list"
  s_stale :: nat
  s_eagain :: nat
  s_attempt :: nat
  s_slept :: nat
  s_status :: u16
  s_flow :: "flow_act list"

record submit_env =
  ev_now :: u64
  ev_others :: "pool \<Rightarrow> pool"
  ev_wait :: "pool \<Rightarrow> int \<times> pool"
  ev_reply :: "nat \<Rightarrow> pool \<Rightarrow> int \<times> pool \<times> u16 \<times> bytes"
  ev_after :: u64

datatype submit_step = Ret int submit_state pool | Cont submit_state pool

definition past :: "u64 \<Rightarrow> u64 \<Rightarrow> bool" where
  "past now deadline \<longleftrightarrow> sint (deadline - now) < 0"

definition blacklisted :: "(bytes \<times> u16) list \<Rightarrow> filer \<Rightarrow> bool" where
  "blacklisted bl f \<longleftrightarrow> list_ex (\<lambda>(a, p). f_addr f = a \<and> f_port f = p) bl"

definition usable :: "filer \<Rightarrow> bool" where
  "usable f \<longleftrightarrow> f_in_use f \<and> connected f"

definition set_error :: "nat \<Rightarrow> int \<Rightarrow> pool \<Rightarrow> pool" where
  "set_error q e pl = pl\<lparr>q_error := (q_error pl)(q := e)\<rparr>"

text \<open>\<open>reinit_completion\<close> and clearing the error, before another round.\<close>

definition again :: "nat \<Rightarrow> pool \<Rightarrow> pool" where
  "again q pl = pl\<lparr>q_error := (q_error pl)(q := 0), q_done := (q_done pl)(q := 0)\<rparr>"

definition submit_pick :: "submit_state \<Rightarrow> pool \<Rightarrow> nat option" where
  "submit_pick st pl =
    (let fs = filers pl; ids = [0..<length fs]
     in case List.find (\<lambda>i. usable (fs ! i) \<and> s_last st \<noteq> Some i \<and> \<not> blacklisted (s_bl st) (fs ! i)) ids of
          Some i \<Rightarrow> Some i
        | None \<Rightarrow> List.find (\<lambda>i. usable (fs ! i)) ids)"

definition submit_select :: "u64 \<Rightarrow> submit_state \<Rightarrow> pool \<Rightarrow> nat option \<times> pool" where
  "submit_select sid st pl =
    (case powerfs_shard_route_get_state sid pl of
       Route_Valid \<Rightarrow>
         (case powerfs_conn_get_filer_for_shard sid pl of
            None \<Rightarrow> (None, pl)
          | Some i \<Rightarrow>
              if \<not> connected (filers pl ! i) then (None, powerfs_shard_route_on_filer_disconnect (int i) pl)
              else if blacklisted (s_bl st) (filers pl ! i) then (None, route_downgrade sid pl)
              else (Some i, pl))
     | Route_Checking \<Rightarrow> (submit_pick st pl, pl)
     | Route_Unknown \<Rightarrow> (submit_pick st pl, pl))"

definition next_round :: "nat \<Rightarrow> submit_state \<Rightarrow> submit_state" where
  "next_round ms st = st\<lparr>s_attempt := s_attempt st + 1, s_slept := s_slept st + ms\<rparr>"

definition submit_park :: "u64 \<Rightarrow> nat \<Rightarrow> submit_env \<Rightarrow> submit_state \<Rightarrow> pool \<Rightarrow> submit_step" where
  "submit_park sid q ev st pl =
    (if unat sid \<ge> MAX_SHARDS then Ret (- ENOTCONN) st (wake_one (- ENOTCONN) q pl)
     else
       let (w, pl) = ev_wait ev (route_park sid q pl);
           pl = route_unpark sid q pl
       in if w < 0 then Ret (- EINTR) st (set_error q (- EINTR) pl)
          else if w = 0 \<and> q_error pl q = 0 then Ret (- ETIMEDOUT) st (set_error q (- ETIMEDOUT) pl)
          else if q_error pl q = - EAGAIN then
            let st = st\<lparr>s_eagain := s_eagain st + 1\<rparr>
            in if s_eagain st > MAX_EAGAIN_RETRIES then Ret (- EAGAIN) st pl
               else Cont (next_round 0 st) (set_error q 0 pl)
          else Ret (q_error pl q) st pl)"

definition backoff_ms :: "nat \<Rightarrow> nat" where
  "backoff_ms attempt = min (20 * 2 ^ min attempt 1) 50"

definition self_redirect :: "u64 \<Rightarrow> nat \<Rightarrow> filer \<Rightarrow> submit_state \<Rightarrow> pool \<Rightarrow> submit_step" where
  "self_redirect sid q f st pl =
    (let dup = blacklisted (s_bl st) f;
         bl = (if \<not> dup \<and> length (s_bl st) < MAX_BLACKLISTED_SELF
               then s_bl st @ [(take 63 (f_addr f), f_port f)] else s_bl st);
         stale = (if dup then s_stale st + 1 else s_stale st);
         cleared = (dup \<and> stale \<ge> BAD_SELF_MAX_STALE_ROUNDS);
         st = (if cleared then st\<lparr>s_bl := [], s_stale := 0\<rparr> else st\<lparr>s_bl := bl, s_stale := stale\<rparr>)
     in Cont (next_round (if cleared then 0 else backoff_ms (s_attempt st)) st) (again q (route_downgrade sid pl)))"

definition stale_redirect :: "u64 \<Rightarrow> nat \<Rightarrow> bytes \<Rightarrow> u16 \<Rightarrow> submit_state \<Rightarrow> pool \<Rightarrow> submit_step" where
  "stale_redirect sid q addr port st pl =
    (if s_stale st + 1 \<ge> BAD_SELF_MAX_STALE_ROUNDS
     then
       let pl = (case powerfs_conn_find_filer addr port pl of
                   Some c \<Rightarrow> if unat sid < MAX_SHARDS then powerfs_shard_route_update sid (int c) pl else pl
                 | None \<Rightarrow> pl)
       in Cont (next_round 0 (st\<lparr>s_bl := [], s_stale := 0\<rparr>)) (again q pl)
     else Cont (next_round (backoff_ms (s_attempt st)) (st\<lparr>s_stale := s_stale st + 1\<rparr>))
            (again q (route_downgrade sid pl)))"

text \<open>A redirect to another filer that is not blacklisted.\<close>

definition follow_redirect :: "u64 \<Rightarrow> nat \<Rightarrow> nat \<Rightarrow> bytes \<Rightarrow> u16 \<Rightarrow> submit_state \<Rightarrow> pool \<Rightarrow> submit_step" where
  "follow_redirect sid q i addr port st pl =
    (if (case s_last st of None \<Rightarrow> False
         | Some l \<Rightarrow> addr = f_addr (filers pl ! l) \<and> port = f_port (filers pl ! l)) then
       Ret (- EAGAIN) st (wake_one (- EAGAIN) q (powerfs_shard_route_on_filer_disconnect (int i) pl))
     else
       (case powerfs_conn_find_filer addr port pl of
          None \<Rightarrow> Ret (- EAGAIN) st (wake_one (- EAGAIN) q pl)
        | Some l \<Rightarrow>
            if blacklisted (s_bl st) (filers pl ! l) then
              Cont (next_round (backoff_ms (s_attempt st)) (st\<lparr>s_last := Some i\<rparr>)) (again q (route_downgrade sid pl))
            else
              Cont (next_round 0 (st\<lparr>s_last := Some i\<rparr>)) (again q (powerfs_shard_route_update sid (int l) pl))))"

definition submit_redirect :: "u64 \<Rightarrow> nat \<Rightarrow> nat \<Rightarrow> bytes \<Rightarrow> submit_state \<Rightarrow> pool \<Rightarrow> submit_step" where
  "submit_redirect sid q i body st pl =
    (let f = filers pl ! i
     in case powerfs_net_parse_redirect body of
          None \<Rightarrow> Ret (- EAGAIN) st (wake_one (- EAGAIN) q pl)
        | Some (addr, port) \<Rightarrow>
            if addr = f_addr f \<and> port = f_port f then self_redirect sid q f st pl
            else if (addr, port) \<in> set (s_bl st) then stale_redirect sid q addr port st pl
            else follow_redirect sid q i addr port st pl)"

definition submit_round ::
  "u64 \<Rightarrow> nat \<Rightarrow> u32 \<Rightarrow> u64 \<Rightarrow> submit_env \<Rightarrow> submit_state \<Rightarrow> pool \<Rightarrow> submit_step" where
  "submit_round sid q len deadline ev st pl =
    (if past (ev_now ev) deadline then Ret (- ETIMEDOUT) st (wake_one (- ETIMEDOUT) q pl)
     else
       case submit_select sid st (ev_others ev pl) of
         (None, pl) \<Rightarrow> submit_park sid q ev st pl
       | (Some i, pl) \<Rightarrow>
           let st = st\<lparr>s_last := Some i, s_flow := s_flow st @ [Start (int i) len]\<rparr>;
               pl = pl\<lparr>q_filer := (q_filer pl)(q \<mapsto> i)\<rparr>;
               (ret, pl, status, body) = ev_reply ev i pl;
               st = st\<lparr>s_status := status\<rparr>;
               st = (if ret \<noteq> 0 then st\<lparr>s_flow := s_flow st @ [Complete (int i) 0 0 True]\<rparr> else st)
           in if ret = - ENOTCONN then
                (if stopping pl then Ret (- ENOTCONN) st (set_error q (- ENOTCONN) pl)
                 else if past (ev_after ev) deadline then Ret (- ETIMEDOUT) st (set_error q (- ETIMEDOUT) pl)
                 else Cont (next_round 100 st) (again q pl))
              else if ret < 0 then Ret (q_error pl q) st pl
              else if status = STATUS_ERR_REDIRECT then submit_redirect sid q i body st pl
              else Ret (q_error pl q) st pl)"

section \<open>The loop and its callers\<close>

text \<open>The loop is left by a return only; the environment of a round is the one of its attempt.\<close>

partial_function (option) submit_loop ::
  "(nat \<Rightarrow> submit_env) \<Rightarrow> u64 \<Rightarrow> nat \<Rightarrow> u32 \<Rightarrow> u64 \<Rightarrow> submit_state \<Rightarrow> pool \<Rightarrow>
   (int \<times> submit_state \<times> pool) option" where
  "submit_loop evs sid q len deadline st pl =
    (case submit_round sid q len deadline (evs (s_attempt st)) st pl of
       Ret r st pl \<Rightarrow> Some (r, st, pl)
     | Cont st pl \<Rightarrow> submit_loop evs sid q len deadline st pl)"

definition submit_init :: submit_state where
  "submit_init = \<lparr>s_last = None, s_bl = [], s_stale = 0, s_eagain = 0, s_attempt = 0, s_slept = 0, s_status = 0, s_flow = []\<rparr>"

definition powerfs_request_submit ::
  "(u32 \<Rightarrow> u64) \<Rightarrow> (nat \<Rightarrow> submit_env) \<Rightarrow> u64 \<Rightarrow> nat \<Rightarrow> u32 \<Rightarrow> u64 \<Rightarrow> u64 \<Rightarrow> pool \<Rightarrow>
   (int \<times> submit_state \<times> pool) option" where
  "powerfs_request_submit msecs evs sid q len req_deadline now pl =
    submit_loop evs sid q len (if req_deadline \<noteq> 0 then req_deadline else now + msecs RECONNECT_WAIT_MS) submit_init pl"

text \<open>Sending to a given shard and to the shard of an inode; the request is allocated first.\<close>

definition powerfs_net_send_request_shard ::
  "(u32 \<Rightarrow> u64) \<Rightarrow> (nat \<Rightarrow> submit_env) \<Rightarrow> bool \<Rightarrow> u64 \<Rightarrow> nat \<Rightarrow> u32 \<Rightarrow> int \<Rightarrow> u64 \<Rightarrow> pool \<Rightarrow> (int \<times> pool) option" where
  "powerfs_net_send_request_shard msecs evs alloc sid q len timeout_ms now pl =
    (if filers pl = [] \<or> stopping pl then Some (- ENOTCONN, pl)
     else if \<not> alloc then Some (- ENOMEM, pl)
     else
       case powerfs_request_submit msecs evs sid q len
              (if timeout_ms > 0 then now + msecs (word_of_int timeout_ms) else 0) now pl of
         None \<Rightarrow> None
       | Some (ret, st, pl) \<Rightarrow> Some (if ret < 0 then ret else int (unat (s_status st)), pl))"

definition powerfs_net_send_request ::
  "(u32 \<Rightarrow> u64) \<Rightarrow> (nat \<Rightarrow> submit_env) \<Rightarrow> bool \<Rightarrow> u64 \<Rightarrow> nat \<Rightarrow> u32 \<Rightarrow> int \<Rightarrow> u64 \<Rightarrow> pool \<Rightarrow> (int \<times> pool) option" where
  "powerfs_net_send_request msecs evs alloc route_inode q len timeout_ms now pl =
    powerfs_net_send_request_shard msecs evs alloc
      (if route_inode \<noteq> 0 then powerfs_calc_shard_id (shard_count pl) route_inode else 0) q len timeout_ms now pl"

text \<open>A cluster of connected filers with the routes unknown, and redirects to them.\<close>

definition cluster0 :: "nat \<Rightarrow> route_entry \<Rightarrow> pool" where
  "cluster0 n r = pool0\<lparr>filers := map (\<lambda>i. filer_of (9001 + of_nat i) Conn_Connected) [0..<n],
    routes := (replicate 64 \<lparr>r_leader = - 1, r_state = Route_Unknown, r_parked = []\<rparr>)[3 := r]\<rparr>"

definition owner_body :: "nat \<Rightarrow> bytes" where
  "owner_body i = [FLD_OWNER, 0, 0, 0, 9, 49, 48, 46, 49, 58, 57, 48, 48, 49 + of_nat i]"

definition ev0 :: "u64 \<Rightarrow> (nat \<Rightarrow> pool \<Rightarrow> int \<times> pool \<times> u16 \<times> bytes) \<Rightarrow> submit_env" where
  "ev0 now reply = \<lparr>ev_now = now, ev_others = (\<lambda>p. p), ev_wait = (\<lambda>p. (0, p)), ev_reply = reply, ev_after = now\<rparr>"

section \<open>Reaching the leader\<close>

abbreviation filer_key :: "filer \<Rightarrow> bytes \<times> u16" where
  "filer_key f \<equiv> (f_addr f, f_port f)"

lemma submit_init_simps:
  "s_last submit_init = None" "s_bl submit_init = []" "s_stale submit_init = 0" "s_eagain submit_init = 0"
  "s_attempt submit_init = 0" "s_slept submit_init = 0" "s_flow submit_init = []"
  by (simp_all add: submit_init_def)

lemma blacklisted_iff: "blacklisted bl f \<longleftrightarrow> filer_key f \<in> set bl"
  by (auto simp: blacklisted_def list_ex_iff)

lemma pick_untried:
  assumes "l < length (filers pl)" "usable (filers pl ! l)" "s_last st \<noteq> Some l"
    "\<not> blacklisted (s_bl st) (filers pl ! l)"
  obtains i where "submit_pick st pl = Some i" "i < length (filers pl)" "usable (filers pl ! i)"
    "s_last st \<noteq> Some i" "\<not> blacklisted (s_bl st) (filers pl ! i)"
proof -
  let ?P = "\<lambda>i. usable (filers pl ! i) \<and> s_last st \<noteq> Some i \<and> \<not> blacklisted (s_bl st) (filers pl ! i)"
  have "List.find ?P [0..<length (filers pl)] \<noteq> None"
    using assms by (auto simp: find_None_iff)
  then obtain i where i: "List.find ?P [0..<length (filers pl)] = Some i" by blast
  then have "?P i" "i < length (filers pl)" by (auto simp: find_Some_iff)
  with i that show ?thesis by (simp add: submit_pick_def Let_def)
qed

text \<open>A cluster in which every filer is connected, the followers redirect to themselves and the leader \<open>l\<close>
  answers; the pool is left alone by others.\<close>

definition answers :: "filer list \<Rightarrow> nat \<Rightarrow> (nat \<Rightarrow> bytes) \<Rightarrow> submit_env \<Rightarrow> bool" where
  "answers fs l body ev \<longleftrightarrow> ev_others ev = (\<lambda>p. p) \<and>
    ev_reply ev = (\<lambda>i p. if i = l then (0, p, 0, []) else (0, p, STATUS_ERR_REDIRECT, body i)) \<and>
    (\<forall>i < length fs. powerfs_net_parse_redirect (body i) = Some (filer_key (fs ! i)))"

definition healthy :: "filer list \<Rightarrow> bool" where
  "healthy fs \<longleftrightarrow> (\<forall>f \<in> set fs. usable f \<and> length (f_addr f) \<le> 63) \<and> distinct (map filer_key fs)"

text \<open>The state of the loop after the filers of \<open>T\<close> were tried.\<close>

definition tried :: "filer list \<Rightarrow> u64 \<Rightarrow> nat \<Rightarrow> nat \<Rightarrow> nat set \<Rightarrow> submit_state \<Rightarrow> pool \<Rightarrow> bool" where
  "tried fs sid q l T st pl \<longleftrightarrow>
    filers pl = fs \<and> length (routes pl) = MAX_SHARDS \<and> q_error pl q = 0 \<and> T \<subseteq> {..<length fs} \<and> l \<notin> T \<and>
    set (s_bl st) = (\<lambda>i. filer_key (fs ! i)) ` T \<and> length (s_bl st) = card T \<and> s_attempt st = card T \<and>
    (\<forall>i. s_last st = Some i \<longrightarrow> i \<in> T) \<and>
    (powerfs_shard_route_get_state sid pl = Route_Valid \<longrightarrow>
      T = {} \<and> 0 \<le> r_leader (routes pl ! unat sid) \<and> r_leader (routes pl ! unat sid) < int (length fs))"

lemma key_inj: "healthy fs \<Longrightarrow> i < length fs \<Longrightarrow> j < length fs \<Longrightarrow> filer_key (fs ! i) = filer_key (fs ! j) \<longleftrightarrow> i = j"
  by (auto simp: healthy_def distinct_conv_nth)

lemma tried_not_blacklisted:
  assumes "tried fs sid q l T st pl" "healthy fs" "i < length fs"
  shows "blacklisted (s_bl st) (fs ! i) \<longleftrightarrow> i \<in> T"
  using assms key_inj [OF assms(2)] by (auto simp: tried_def blacklisted_iff)

lemma downgrade_not_valid:
  "length (routes pl) = MAX_SHARDS \<Longrightarrow> powerfs_shard_route_get_state sid (route_downgrade sid pl) \<noteq> Route_Valid"
  by (auto simp: powerfs_shard_route_get_state_def route_downgrade_def)

lemma downgrade_fields [simp]:
  "filers (route_downgrade sid pl) = filers pl" "length (routes (route_downgrade sid pl)) = length (routes pl)"
  by (simp_all add: route_downgrade_def)

lemma again_fields [simp]:
  "filers (again q pl) = filers pl" "routes (again q pl) = routes pl" "q_error (again q pl) q = 0"
  "powerfs_shard_route_get_state sid (again q pl) = powerfs_shard_route_get_state sid pl"
  by (simp_all add: again_def powerfs_shard_route_get_state_def)

lemma tried_select:
  assumes t: "tried fs sid q l T st pl" and h: "healthy fs" and l: "l < length fs"
  obtains i where "submit_select sid st pl = (Some i, pl)" "i < length fs" "i \<notin> T"
proof -
  have use: "usable (fs ! i)" if "i < length fs" for i using h that by (simp add: healthy_def)
  note nb = tried_not_blacklisted [OF t h]
  have f: "filers pl = fs" "s_last st \<noteq> Some l" using t by (auto simp: tried_def)
  show ?thesis
  proof (cases "powerfs_shard_route_get_state sid pl = Route_Valid")
    case True
    define i where "i = nat (r_leader (routes pl ! unat sid))"
    have r: "T = {}" "0 \<le> r_leader (routes pl ! unat sid)" "i < length fs" "unat sid < MAX_SHARDS"
      using True t by (auto simp: tried_def i_def powerfs_shard_route_get_state_def split: if_splits)
    then have "powerfs_conn_get_filer_for_shard sid pl = Some i"
      using f by (auto simp: powerfs_conn_get_filer_for_shard_def Let_def i_def)
    then have "submit_select sid st pl = (Some i, pl)"
      using True use [OF r(3)] nb [OF r(3)] r(1) f by (simp add: submit_select_def usable_def)
    then show ?thesis using that r by blast
  next
    case False
    have p: "l < length (filers pl)" "usable (filers pl ! l)" "s_last st \<noteq> Some l"
      "\<not> blacklisted (s_bl st) (filers pl ! l)"
      using use [OF l] nb [OF l] l t f by (simp_all add: tried_def)
    obtain i where "submit_pick st pl = Some i" "i < length (filers pl)" "usable (filers pl ! i)"
      "s_last st \<noteq> Some i" "\<not> blacklisted (s_bl st) (filers pl ! i)"
      using pick_untried [OF p] .
    with f have i: "submit_pick st pl = Some i" "i < length fs" "\<not> blacklisted (s_bl st) (fs ! i)" by simp_all
    then have "submit_select sid st pl = (Some i, pl)"
      using False by (cases "powerfs_shard_route_get_state sid pl") (simp_all add: submit_select_def)
    then show ?thesis using that i nb by blast
  qed
qed

lemma tried_round:
  assumes t: "tried fs sid q l T st pl" and h: "healthy fs" and l: "l < length fs" and n: "length fs \<le> 9"
    and ev: "answers fs l body ev" "\<not> past (ev_now ev) D"
  shows "(\<exists>st' pl'. submit_round sid q len D ev st pl = Ret 0 st' pl' \<and> s_last st' = Some l \<and>
            s_attempt st' = card T \<and> s_status st' = 0) \<or>
    (\<exists>i st' pl'. submit_round sid q len D ev st pl = Cont st' pl' \<and> i \<notin> T \<and> tried fs sid q l (insert i T) st' pl')"
proof -
  obtain i where i: "submit_select sid st pl = (Some i, pl)" "i < length fs" "i \<notin> T"
    using tried_select [OF t h l] .
  note sel = submit_round_def ev(2) i(1) Let_def
  have ev': "ev_others ev = (\<lambda>p. p)"
    "ev_reply ev = (\<lambda>i p. if i = l then (0, p, 0, []) else (0, p, STATUS_ERR_REDIRECT, body i))"
    "powerfs_net_parse_redirect (body i) = Some (filer_key (fs ! i))"
    using ev(1) i(2) by (auto simp: answers_def)
  have f: "filers pl = fs" "q_error pl q = 0" "s_attempt st = card T" using t by (simp_all add: tried_def)
  show ?thesis
  proof (cases "i = l")
    case True
    then show ?thesis by (simp add: sel ev' f)
  next
    case False
    have T: "finite T" "T \<subseteq> {..<length fs}" using t finite_subset by (auto simp: tried_def)
    have "insert i T \<subseteq> {..<length fs} - {l}" using t False i(2) by (auto simp: tried_def)
    then have "card (insert i T) \<le> length fs - 1"
      using card_mono [of "{..<length fs} - {l}" "insert i T"] l by simp
    then have c: "card T < 8" using T(1) i(3) n by simp
    have a: "take 63 (f_addr (fs ! i)) = f_addr (fs ! i)" using h i(2) by (simp add: healthy_def)
    let ?st = "st\<lparr>s_last := Some i, s_flow := s_flow st @ [Start (int i) len], s_status := STATUS_ERR_REDIRECT,
      s_bl := s_bl st @ [filer_key (fs ! i)], s_stale := s_stale st\<rparr>"
    let ?pl = "again q (route_downgrade sid (pl\<lparr>q_filer := (q_filer pl)(q \<mapsto> i)\<rparr>))"
    have "\<not> blacklisted (s_bl st) (fs ! i)" using tried_not_blacklisted [OF t h i(2)] i(3) by simp
    moreover have "length (s_bl st) = card T" using t by (simp add: tried_def)
    ultimately have "submit_round sid q len D ev st pl = Cont (next_round (backoff_ms (s_attempt st)) ?st) ?pl"
      using c by (simp add: sel ev' f False submit_redirect_def follow_redirect_def self_redirect_def a)
    moreover have "tried fs sid q l (insert i T) (next_round (backoff_ms (s_attempt st)) ?st) ?pl"
      using t T(1) i False by (simp add: tried_def next_round_def downgrade_not_valid)
    ultimately show ?thesis using i(3) by blast
  qed
qed

lemma tried_loop:
  assumes t: "tried fs sid q l T st pl" and h: "healthy fs" and l: "l < length fs" and n: "length fs \<le> 9"
    and ev: "\<And>k. k < length fs \<Longrightarrow> answers fs l body (evs k) \<and> \<not> past (ev_now (evs k)) D"
  shows "\<exists>st' pl'. submit_loop evs sid q len D st pl = Some (0, st', pl') \<and> s_last st' = Some l \<and>
    s_attempt st' < length fs \<and> s_status st' = 0"
  using t
proof (induction "length fs - card T" arbitrary: T st pl rule: less_induct)
  case less
  have T: "T \<subseteq> {..<length fs} - {l}" "finite T" using less.prems finite_subset by (auto simp: tried_def)
  then have c: "card T < length fs"
    using card_mono [of "{..<length fs} - {l}" T] l by simp
  then have k: "s_attempt st < length fs" using less.prems by (simp add: tried_def)
  note round = tried_round [OF less.prems h l n conjunct1 [OF ev [OF k]] conjunct2 [OF ev [OF k]]]
  from round [of len] show ?case
  proof (elim disjE exE conjE)
    fix st' pl'
    assume "submit_round sid q len D (evs (s_attempt st)) st pl = Ret 0 st' pl'" "s_last st' = Some l"
      "s_attempt st' = card T" "s_status st' = 0"
    then show ?thesis using c by (simp add: submit_loop.simps [of evs])
  next
    fix i st' pl'
    assume r: "submit_round sid q len D (evs (s_attempt st)) st pl = Cont st' pl'" "i \<notin> T"
      "tried fs sid q l (insert i T) st' pl'"
    have "length fs - card (insert i T) < length fs - card T" using c r(2) T(2) by simp
    from less.hyps [OF this r(3)] show ?thesis
      using r(1) by (simp add: submit_loop.simps [of evs _ _ _ _ st])
  qed
qed

text \<open>C5: With at most nine filers, all connected, of which one is the leader of the shard and every other answers
  with a redirect to itself, a request submitted before its deadline reaches the leader and succeeds: the blacklist
  makes the loop try every filer at most once, whatever the route said at the start.\<close>

theorem submit_reaches_leader:
  assumes "healthy (filers pl)" "l < length (filers pl)" "length (filers pl) \<le> 9" "route_inv pl" "q_error pl q = 0"
    "req_deadline \<noteq> 0"
    "\<And>k. k < length (filers pl) \<Longrightarrow> answers (filers pl) l body (evs k) \<and> \<not> past (ev_now (evs k)) req_deadline"
  shows "\<exists>st' pl'. powerfs_request_submit msecs evs sid q len req_deadline now pl = Some (0, st', pl') \<and>
    s_last st' = Some l \<and> s_attempt st' < length (filers pl) \<and> s_status st' = 0"
proof -
  have "route_ok (filers pl) (routes pl ! unat sid)" if "unat sid < MAX_SHARDS"
    using assms(4) that by (simp add: route_inv_def)
  then have "tried (filers pl) sid q l {} submit_init pl"
    using assms(4,5) by (auto simp: tried_def submit_init_def route_inv_def route_ok_def
        powerfs_shard_route_get_state_def split: if_splits)
  from tried_loop [OF this assms(1-3,7)] show ?thesis
    using assms(6) by (simp add: powerfs_request_submit_def)
qed

lemma kstrtoul10_port: "i < 3 \<Longrightarrow> kstrtoul10 [57, 48, 48, 49 + of_nat i] = Some (9001 + i)"
  by (auto simp: kstrtoul10_def digit_def less_Suc_eq numeral_3_eq_3)

lemma owner_body_string:
  "i < 3 \<Longrightarrow> (case powerfs_tlv_dec_string (powerfs_tlv_dec_init (owner_body i) (length (owner_body i))) FLD_OWNER (replicate 80 0) 79
     of (ret, owner, _) \<Rightarrow> (ret, cstr owner)) = (0, [49, 48, 46, 49, 58, 57, 48, 48, 49 + of_nat i])"
proof -
  let ?P = "\<lambda>i. (case powerfs_tlv_dec_string (powerfs_tlv_dec_init (owner_body i) (length (owner_body i))) FLD_OWNER
      (replicate 80 0) 79 of (ret, owner, _) \<Rightarrow> (ret, cstr owner)) = (0, [49, 48, 46, 49, 58, 57, 48, 48, 49 + of_nat i])"
  have "?P 0" "?P 1" "?P 2" by code_simp+
  moreover assume "i < 3"
  then have "i = 0 \<or> i = 1 \<or> i = 2" by auto
  ultimately show ?thesis by metis
qed

lemma owner_body_parse:
  "i < 3 \<Longrightarrow> powerfs_net_parse_redirect (owner_body i) = Some ([49, 48, 46, 49], 9001 + of_nat i)"
proof -
  assume i: "i < 3"
  then have "strrchr_split 58 [49, 48, 46, 49, 58, 57, 48, 48, 49 + of_nat i] = Some ([49, 48, 46, 49], [57, 48, 48, 49 + of_nat i])"
    by (auto simp: strrchr_split_def less_Suc_eq numeral_3_eq_3)
  then show ?thesis
    using owner_body_string [OF i] kstrtoul10_port [OF i] i
    by (simp add: powerfs_net_parse_redirect_def split: prod.splits)
qed

lemma cluster0_inv:
  assumes "r_parked r = []" "route_ok (filers (cluster0 n r)) r"
  shows "route_inv (cluster0 n r)"
proof -
  have "concat (map r_parked (routes (cluster0 n r))) = []"
    using assms(1) by (simp add: cluster0_def eval_nat_numeral)
  moreover have "route_ok (filers (cluster0 n r)) x" if "x \<in> set (routes (cluster0 n r))" for x
    using that assms(2) set_update_subset_insert [of "replicate 64 \<lparr>r_leader = - 1, r_state = Route_Unknown, r_parked = []\<rparr>" 3 r]
    by (auto simp: cluster0_def route_ok_def)
  moreover have "length (routes (cluster0 n r)) = MAX_SHARDS" by (simp add: cluster0_def)
  ultimately show ?thesis by (simp only: route_inv_def) simp
qed

theorem submit_reaches_leader_witness:
  "\<exists>st' pl'. powerfs_request_submit ucast
      (\<lambda>k. ev0 10 (\<lambda>i p. if i = 2 then (0, p, 0, []) else (0, p, STATUS_ERR_REDIRECT, owner_body i))) 3 7 100 50 10
      (cluster0 3 \<lparr>r_leader = 1, r_state = Route_Valid, r_parked = []\<rparr>) = Some (0, st', pl') \<and>
    s_last st' = Some 2 \<and> s_attempt st' < 3 \<and> s_status st' = 0"
proof -
  let ?c = "cluster0 3 \<lparr>r_leader = 1, r_state = Route_Valid, r_parked = []\<rparr>"
  let ?evs = "\<lambda>k::nat. ev0 10 (\<lambda>i p. if i = 2 then (0, p, 0, []) else (0, p, STATUS_ERR_REDIRECT, owner_body i))"
  have fs: "filers ?c = [filer_of 9001 Conn_Connected, filer_of 9002 Conn_Connected, filer_of 9003 Conn_Connected]"
    by (simp add: cluster0_def upt_rec)
  have n: "length (filers ?c) = 3" by (simp add: fs)
  have h: "healthy (filers ?c)" "2 < length (filers ?c)" "length (filers ?c) \<le> 9" "q_error ?c 7 = 0"
    by (simp_all add: fs healthy_def filer_of_def usable_def connected_def) (simp add: cluster0_def pool0_def)
  have inv: "route_inv ?c"
    by (rule cluster0_inv) (simp_all add: fs route_ok_def connected_def filer_of_def)
  have "filer_key (filers ?c ! i) = ([49, 48, 46, 49], 9001 + of_nat i)" if "i < 3" for i
    using that by (simp add: cluster0_def filer_of_def)
  then have "answers (filers ?c) 2 owner_body (?evs k) \<and> \<not> past (ev_now (?evs k)) 50" for k
    using owner_body_parse by (auto simp: answers_def ev0_def past_def fs)
  from submit_reaches_leader [OF h(1-3) inv h(4) _ this, where msecs = ucast and sid = 3 and len = 100 and now = 10] show ?thesis
    by (simp add: n)
qed

section \<open>Redirect loops\<close>

text \<open>Two connected filers that redirect to each other, and the state after \<open>k\<close> rounds.\<close>

definition ping_pong :: "filer \<Rightarrow> filer \<Rightarrow> u64 \<Rightarrow> nat \<Rightarrow> submit_state \<Rightarrow> pool \<Rightarrow> bool" where
  "ping_pong a b sid k st pl \<longleftrightarrow> filers pl = [a, b] \<and> length (routes pl) = MAX_SHARDS \<and>
    r_state (routes pl ! unat sid) = Route_Valid \<and> r_leader (routes pl ! unat sid) = int (k mod 2) \<and>
    s_bl st = [] \<and> s_attempt st = k \<and> s_slept st = 0"

definition redirects :: "filer \<Rightarrow> filer \<Rightarrow> submit_env \<Rightarrow> bool" where
  "redirects a b ev \<longleftrightarrow> ev_others ev = (\<lambda>p. p) \<and>
    (\<exists>to_a to_b. powerfs_net_parse_redirect to_a = Some (filer_key a) \<and>
      powerfs_net_parse_redirect to_b = Some (filer_key b) \<and>
      ev_reply ev = (\<lambda>i p. (0, p, STATUS_ERR_REDIRECT, if i = 0 then to_b else to_a)))"

lemma ping_pong_round:
  assumes "ping_pong a b sid k st pl" "redirects a b ev" "\<not> past (ev_now ev) D" "unat sid < MAX_SHARDS"
    "usable a" "usable b" "filer_key a \<noteq> filer_key b"
  shows "\<exists>st' pl'. submit_round sid q len D ev st pl = Cont st' pl' \<and> ping_pong a b sid (Suc k) st' pl'"
proof -
  define i where "i = k mod 2"
  have i: "i = 0 \<or> i = 1" "Suc k mod 2 = 1 - i" by (auto simp: i_def mod_Suc)
  have pl: "filers pl = [a, b]" "r_state (routes pl ! unat sid) = Route_Valid" "unat sid < length (routes pl)"
    "r_leader (routes pl ! unat sid) = int i" "s_bl st = []" "s_attempt st = k" "s_slept st = 0"
    using assms(1,4) by (simp_all add: ping_pong_def i_def)
  have use: "connected ([a, b] ! i)" "f_in_use a" "f_in_use b" using assms(5,6) i(1) by (auto simp: usable_def)
  have sel: "submit_select sid st pl = (Some i, pl)"
    using pl use i(1) assms(4)
    by (auto simp: submit_select_def powerfs_shard_route_get_state_def powerfs_conn_get_filer_for_shard_def blacklisted_def)
  obtain to_a to_b where ev: "ev_others ev = (\<lambda>p. p)"
    "powerfs_net_parse_redirect to_a = Some (filer_key a)" "powerfs_net_parse_redirect to_b = Some (filer_key b)"
    "ev_reply ev = (\<lambda>i p. (0, p, STATUS_ERR_REDIRECT, if i = 0 then to_b else to_a))"
    using assms(2) by (auto simp: redirects_def)
  note d = submit_round_def sel ev assms(3) Let_def submit_redirect_def follow_redirect_def pl powerfs_conn_find_filer_def use
    blacklisted_def powerfs_shard_route_update_def not_le [THEN iffD2, OF assms(4)]
  show ?thesis
    using i(1) assms(4,7) pl(3) i(2) assms(1)
    by (elim disjE; auto simp: d ping_pong_def next_round_def)
qed

lemma ping_pong_loop:
  assumes "ping_pong a b sid k st pl" "k \<le> n"
    "\<And>j. j < n \<Longrightarrow> redirects a b (evs j) \<and> \<not> past (ev_now (evs j)) D" "past (ev_now (evs n)) D"
    "unat sid < MAX_SHARDS" "usable a" "usable b" "filer_key a \<noteq> filer_key b"
  shows "\<exists>st' pl'. submit_loop evs sid q len D st pl = Some (- ETIMEDOUT, st', pl') \<and>
    s_attempt st' = n \<and> s_slept st' = 0"
  using assms(1,2)
proof (induction "n - k" arbitrary: k st pl)
  case 0
  then have "s_attempt st = n" "s_slept st = 0" by (simp_all add: ping_pong_def)
  then show ?case using assms(4) by (simp add: submit_loop.simps [of evs _ _ _ _ st] submit_round_def)
next
  case (Suc m)
  then have k: "k < n" "s_attempt st = k" by (simp_all add: ping_pong_def)
  obtain st' pl' where r: "submit_round sid q len D (evs k) st pl = Cont st' pl'" "ping_pong a b sid (Suc k) st' pl'"
    using ping_pong_round [OF Suc.prems(1) conjunct1 [OF assms(3) [OF k(1)]] conjunct2 [OF assms(3) [OF k(1)]] assms(5-8)]
    by blast
  have "m = n - Suc k" "Suc k \<le> n" using Suc.hyps(2) k(1) by simp_all
  from Suc.hyps(1) [OF this(1) r(2) this(2)] show ?case
    using r(1) k(2) by (simp add: submit_loop.simps [of evs _ _ _ _ st])
qed

text \<open>When two connected filers redirect the requests of a shard to each other, a request bounces between
  them without pause until its deadline and then times out, with one round trip for every attempt. The check for
  such a loop compares the target with the filer that was just asked, so it never fires.\<close>

theorem redirect_loop_undetected:
  assumes "filers pl = [a, b]" "usable a" "usable b" "filer_key a \<noteq> filer_key b" "length (routes pl) = MAX_SHARDS"
    "unat sid < MAX_SHARDS" "r_state (routes pl ! unat sid) = Route_Valid" "r_leader (routes pl ! unat sid) = 0"
    "\<And>j. j < n \<Longrightarrow> redirects a b (evs j) \<and> \<not> past (ev_now (evs j)) req_deadline"
    "past (ev_now (evs n)) req_deadline" "req_deadline \<noteq> 0"
  shows "\<exists>st' pl'. powerfs_request_submit msecs evs sid q len req_deadline now pl = Some (- ETIMEDOUT, st', pl') \<and>
    s_attempt st' = n \<and> s_slept st' = 0"
proof -
  have "ping_pong a b sid 0 submit_init pl"
    using assms(1,5,7,8) by (simp add: ping_pong_def submit_init_def)
  from ping_pong_loop [where evs = evs and D = req_deadline and n = n, OF this le0 [of n] assms(9,10,6,2-4)] show ?thesis
    using assms(11) by (simp add: powerfs_request_submit_def)
qed

theorem redirect_loop_undetected_witness:
  "\<exists>st' pl'. powerfs_request_submit ucast
      (\<lambda>k. ev0 (if k < 1000 then 10 else 60) (\<lambda>i p. (0, p, STATUS_ERR_REDIRECT, if i = 0 then owner_body 1 else owner_body 0)))
      3 7 100 50 10 (cluster0 2 \<lparr>r_leader = 0, r_state = Route_Valid, r_parked = []\<rparr>) = Some (- ETIMEDOUT, st', pl') \<and>
    s_attempt st' = 1000 \<and> s_slept st' = 0"
proof -
  let ?c = "cluster0 2 \<lparr>r_leader = 0, r_state = Route_Valid, r_parked = []\<rparr>"
  let ?evs = "\<lambda>k::nat. ev0 (if k < 1000 then 10 else 60)
    (\<lambda>i p. (0, p, STATUS_ERR_REDIRECT, if i = 0 then owner_body 1 else owner_body 0))"
  let ?a = "filer_of 9001 Conn_Connected" and ?b = "filer_of 9002 Conn_Connected"
  have fs: "filers ?c = [?a, ?b]" "usable ?a" "usable ?b" "filer_key ?a \<noteq> filer_key ?b" "length (routes ?c) = MAX_SHARDS"
    "unat (3 :: u64) < MAX_SHARDS" "r_state (routes ?c ! unat (3 :: u64)) = Route_Valid"
    "r_leader (routes ?c ! unat (3 :: u64)) = 0"
    by (simp_all add: cluster0_def upt_rec usable_def connected_def filer_of_def)
  have "redirects ?a ?b (?evs j) \<and> \<not> past (ev_now (?evs j)) 50" if "j < 1000" for j
    unfolding redirects_def
    using that owner_body_parse [of 0] owner_body_parse [of 1]
    by (intro conjI exI [of _ "owner_body 0"] exI [of _ "owner_body 1"]) (simp_all add: ev0_def past_def filer_of_def)
  moreover have "past (ev_now (?evs 1000)) 50" by (simp add: ev0_def past_def)
  ultimately show ?thesis
    using redirect_loop_undetected [OF fs, of 1000 ?evs 50 ucast 7 100 10] by simp
qed

text \<open>A redirect to a filer of the pool that is down makes the route valid all the same, and the next round
  parks the request instead of trying the filers that are connected: if nothing wakes it, it times out although a
  connected filer was there all the time.\<close>

theorem redirect_to_down_filer_times_out:
  assumes "unat sid < MAX_SHARDS" "length (routes pl) = MAX_SHARDS" "r_state (routes pl ! unat sid) \<noteq> Route_Valid"
    "submit_pick submit_init pl = Some i" "powerfs_net_parse_redirect body = Some (addr, port)"
    "(addr, port) \<noteq> filer_key (filers pl ! i)" "powerfs_conn_find_filer addr port pl = Some l"
    "l < length (filers pl)" "\<not> connected (filers pl ! l)" "req_deadline \<noteq> 0"
    "ev_others (evs 0) = (\<lambda>p. p)" "ev_others (evs 1) = (\<lambda>p. p)" "ev_wait (evs 1) = (\<lambda>p. (0, p))"
    "ev_reply (evs 0) = (\<lambda>i p. (0, p, STATUS_ERR_REDIRECT, body))"
    "\<not> past (ev_now (evs 0)) req_deadline" "\<not> past (ev_now (evs 1)) req_deadline"
  shows "\<exists>st' pl'. powerfs_request_submit msecs evs sid q len req_deadline now pl = Some (- ETIMEDOUT, st', pl') \<and>
    filers pl' = filers pl \<and> s_flow st' = [Start (int i) len]"
proof -
  have sel: "submit_select sid submit_init pl = (Some i, pl)"
    using assms(1,3,4) by (cases "r_state (routes pl ! unat sid)")
      (simp_all add: submit_select_def powerfs_shard_route_get_state_def)
  let ?st = "next_round 0 (submit_init\<lparr>s_flow := [Start (int i) len], s_status := STATUS_ERR_REDIRECT, s_last := Some i\<rparr>)"
  let ?pl = "again q (powerfs_shard_route_update sid (int l) (pl\<lparr>q_filer := (q_filer pl)(q \<mapsto> i)\<rparr>))"
  have find: "powerfs_conn_find_filer addr port (pl\<lparr>q_filer := x\<rparr>) = Some l" for x
    using assms(7) by (simp add: powerfs_conn_find_filer_def)
  have r0: "submit_round sid q len req_deadline (evs 0) submit_init pl = Cont ?st ?pl"
    using assms(5,6,11,14,15) find
    by (auto simp: submit_round_def sel Let_def submit_redirect_def follow_redirect_def submit_init_simps blacklisted_def)
  have upd: "routes ?pl ! unat sid = (routes pl ! unat sid)\<lparr>r_leader := int l, r_state := Route_Valid\<rparr>"
    "filers ?pl = filers pl" "length (routes ?pl) = MAX_SHARDS"
    using assms(1-3,8,9) by (auto simp: powerfs_shard_route_update_def powerfs_shard_route_dispatch_pending_def Let_def)
  have sel1: "submit_select sid ?st ?pl = (None, powerfs_shard_route_on_filer_disconnect (int l) ?pl)"
    using upd assms(1,8,9)
    by (simp add: submit_select_def powerfs_shard_route_get_state_def powerfs_conn_get_filer_for_shard_def Let_def)
  have "\<exists>pl'. submit_round sid q len req_deadline (evs 1) ?st ?pl = Ret (- ETIMEDOUT) ?st pl' \<and> filers pl' = filers pl"
    using assms(1,12,13,16) upd
    by (simp add: submit_round_def sel1 submit_park_def Let_def set_error_def route_park_def route_unpark_def)
      (simp add: powerfs_shard_route_on_filer_disconnect_def again_def)
  then obtain pl' where r1: "submit_round sid q len req_deadline (evs 1) ?st ?pl = Ret (- ETIMEDOUT) ?st pl'"
    "filers pl' = filers pl" by blast
  have "submit_loop evs sid q len req_deadline submit_init pl = Some (- ETIMEDOUT, ?st, pl')"
    using r0 r1 by (simp add: submit_loop.simps [of evs] submit_init_simps next_round_def)
  then show ?thesis using assms(10) r1(2) by (simp add: powerfs_request_submit_def next_round_def)
qed

theorem redirect_to_down_filer_times_out_witness:
  "\<exists>st' pl'. powerfs_request_submit ucast (\<lambda>k. ev0 10 (\<lambda>i p. (0, p, STATUS_ERR_REDIRECT, owner_body 1))) 3 7 100 50 10
      ((cluster0 2 \<lparr>r_leader = - 1, r_state = Route_Unknown, r_parked = []\<rparr>)
        \<lparr>filers := [filer_of 9001 Conn_Connected, filer_of 9002 Conn_Reconnecting]\<rparr>) = Some (- ETIMEDOUT, st', pl') \<and>
    usable (filers pl' ! 0) \<and> s_flow st' = [Start 0 100]"
proof -
  let ?c = "(cluster0 2 \<lparr>r_leader = - 1, r_state = Route_Unknown, r_parked = []\<rparr>)
    \<lparr>filers := [filer_of 9001 Conn_Connected, filer_of 9002 Conn_Reconnecting]\<rparr>"
  let ?evs = "\<lambda>k::nat. ev0 10 (\<lambda>i p. (0, p, STATUS_ERR_REDIRECT, owner_body 1))"
  have r: "unat (3 :: u64) < MAX_SHARDS" "length (routes ?c) = MAX_SHARDS" "r_state (routes ?c ! unat (3 :: u64)) \<noteq> Route_Valid"
    by (simp_all add: cluster0_def)
  have p: "submit_pick submit_init ?c = Some 0"
    by (simp add: submit_pick_def submit_init_simps usable_def connected_def filer_of_def blacklisted_def upt_rec)
  have b: "powerfs_net_parse_redirect (owner_body 1) = Some ([49, 48, 46, 49], 9002)"
    using owner_body_parse [of 1] by simp
  have "\<exists>st' pl'. powerfs_request_submit ucast ?evs 3 7 100 50 10 ?c = Some (- ETIMEDOUT, st', pl') \<and>
    filers pl' = filers ?c \<and> s_flow st' = [Start (int 0) 100]"
    by (rule redirect_to_down_filer_times_out [OF r p b, of 1])
      (simp_all add: filer_of_def powerfs_conn_find_filer_def connected_def ev0_def past_def)
  then show ?thesis by (auto simp: usable_def connected_def filer_of_def)
qed

end
