(* ===== verification/NetLease.thy ===== *)
theory NetLease
  imports Submit
begin

text \<open>
  The remote calls for range leases, capabilities and file locks (\<open>powerfs_net_lease.c\<close>): the request each one
  encodes and what it takes from the response. The transport is the parameter \<open>rpc\<close>, from the request body to the
  result of the send and the response body. An optional output parameter is an option whose value is the old
  contents; a store outside of a caller's array gives \<^const>\<open>None\<close> for the whole call.
\<close>

abbreviation FLD_MODE :: u8 where "FLD_MODE \<equiv> 0x03"
abbreviation FLD_INO :: u8 where "FLD_INO \<equiv> 0x07"
abbreviation FLD_OFFSET :: u8 where "FLD_OFFSET \<equiv> 0x0E"
abbreviation FLD_CONTENT_SIZE :: u8 where "FLD_CONTENT_SIZE \<equiv> 0x13"
abbreviation FLD_LIMIT :: u8 where "FLD_LIMIT \<equiv> 0x20"
abbreviation FLD_CLIENT_ID :: u8 where "FLD_CLIENT_ID \<equiv> 0x30"
abbreviation FLD_LEASE_ID :: u8 where "FLD_LEASE_ID \<equiv> 0x40"
abbreviation FLD_LEASE_DURATION :: u8 where "FLD_LEASE_DURATION \<equiv> 0x41"
abbreviation FLD_LEASE_EPOCH :: u8 where "FLD_LEASE_EPOCH \<equiv> 0x42"
abbreviation FLD_LEASE_TOKEN :: u8 where "FLD_LEASE_TOKEN \<equiv> 0x80"
abbreviation FLD_CAP_SET :: u8 where "FLD_CAP_SET \<equiv> 0xC4"
abbreviation FLD_CAP_EPOCH :: u8 where "FLD_CAP_EPOCH \<equiv> 0xC5"
abbreviation FLD_IS_WRITE_OPEN :: u8 where "FLD_IS_WRITE_OPEN \<equiv> 0xC6"
abbreviation FLD_CAP_SN :: u8 where "FLD_CAP_SN \<equiv> 0xC7"
abbreviation FLD_HAS_UPGRADE :: u8 where "FLD_HAS_UPGRADE \<equiv> 0xC8"

type_synonym rpc = "bytes \<Rightarrow> int \<times> bytes"

section \<open>Requests and outputs\<close>

text \<open>A sequence of encoder calls whose results are ignored, and the bytes that are sent.\<close>

definition emit :: "nat \<Rightarrow> tlv_item list \<Rightarrow> bytes" where
  "emit cap its = enc_out (fold (\<lambda>it e. snd (enc_item it e)) its (powerfs_tlv_enc_init (replicate cap 0) cap))"

definition set_out :: "'a option \<Rightarrow> 'a option \<Rightarrow> 'a option" where
  "set_out found out = map_option (\<lambda>old. case found of Some v \<Rightarrow> v | None \<Rightarrow> old) out"

definition store_token :: "bytes \<Rightarrow> nat \<Rightarrow> bytes \<Rightarrow> bytes option" where
  "store_token raw cp buf =
    (if cp + 1 \<le> length buf then Some ((wr_bytes 0 (take cp raw) buf)[cp := 0]) else None)"

definition kernel_client :: bytes where
  "kernel_client = [107, 101, 114, 110, 101, 108, 45, 99, 108, 105, 101, 110, 116]"

definition client_item :: "bytes option \<Rightarrow> tlv_item" where
  "client_item client_id =
    (case client_id of Some c \<Rightarrow> Str FLD_CLIENT_ID (if c \<noteq> [] then c else kernel_client)
     | None \<Rightarrow> Str FLD_CLIENT_ID kernel_client)"

text \<open>The outcome of the send.\<close>

definition rpc_errno :: "int \<Rightarrow> int" where
  "rpc_errno ret = (if ret < 0 then ret else if ret > 0 then net_status_to_errno (word_of_int ret) else 0)"

section \<open>Range leases\<close>

text \<open>The clock, the conversion to jiffies and the lease duration in milliseconds.\<close>

record lease_env =
  le_now :: u64
  le_msecs :: "u32 \<Rightarrow> u64"
  le_duration_ms :: u32

definition lease_expire :: "lease_env \<Rightarrow> u64 option \<Rightarrow> u64" where
  "lease_expire ev found =
    (let duration_ms = (case found of Some v \<Rightarrow> v | None \<Rightarrow> 0);
         sec = (if duration_ms > 0 then ucast (duration_ms div 1000) else le_duration_ms ev div 1000) :: u32
     in le_now ev + le_msecs ev (sec * 1000))"

definition powerfs_net_renew_lease :: "rpc \<Rightarrow> lease_env \<Rightarrow> bytes option \<Rightarrow> u64 option \<Rightarrow> int \<times> u64 option" where
  "powerfs_net_renew_lease rpc ev token new_expire =
    (case token of
       None \<Rightarrow> (- EINVAL, new_expire)
     | Some t \<Rightarrow>
         if length t = 0 \<or> length t \<ge> 64 then (- EINVAL, new_expire)
         else
           let (ret, resp) = rpc (emit 512 [Str FLD_LEASE_TOKEN t, Str FLD_CLIENT_ID kernel_client,
                 U64 FLD_LEASE_DURATION (ucast (le_duration_ms ev))])
           in if rpc_errno ret \<noteq> 0 then (rpc_errno ret, new_expire)
              else
                let (_, d, _) = powerfs_tlv_dec_u64 (powerfs_tlv_dec_init resp (length resp)) FLD_LEASE_DURATION
                in (0, set_out (Some (lease_expire ev d)) new_expire))"

record lease_reply =
  lr_token :: bytes
  lr_token_len :: nat
  lr_epoch :: "u64 option"
  lr_content_size :: "u64 option"
  lr_expire :: "u64 option"

definition powerfs_net_acquire_lease ::
  "rpc \<Rightarrow> lease_env \<Rightarrow> u64 \<Rightarrow> u64 \<Rightarrow> u64 \<Rightarrow> bytes option \<Rightarrow> lease_reply \<Rightarrow> int \<times> lease_reply" where
  "powerfs_net_acquire_lease rpc ev ino stripe_start stripe_count client_id out =
    (if lr_token_len out < 64 then (- EINVAL, out)
     else
       let (ret, resp) = rpc (emit 512 [U64 FLD_INO ino, U64 FLD_OFFSET stripe_start, U64 FLD_LIMIT stripe_count,
             client_item client_id, U64 FLD_MODE 1, U64 FLD_LEASE_DURATION (ucast (le_duration_ms ev))])
       in if rpc_errno ret \<noteq> 0 then (rpc_errno ret, out)
          else
            let dec = powerfs_tlv_dec_init resp (length resp);
                (ret, token, _) = powerfs_tlv_dec_string dec FLD_LEASE_ID (lr_token out) (lr_token_len out);
                out = out\<lparr>lr_token := token\<rparr>
            in if ret < 0 then (- EIO, out)
               else
                 let (_, d, _) = powerfs_tlv_dec_u64 dec FLD_LEASE_DURATION;
                     (_, e, _) = powerfs_tlv_dec_u64 dec FLD_LEASE_EPOCH;
                     (_, s, _) = powerfs_tlv_dec_u64 dec FLD_CONTENT_SIZE
                 in (0, out\<lparr>lr_token_len := length (cstr token), lr_epoch := set_out e (lr_epoch out),
                       lr_content_size := set_out s (lr_content_size out),
                       lr_expire := set_out (Some (lease_expire ev d)) (lr_expire out)\<rparr>))"

definition powerfs_net_release_lease :: "rpc \<Rightarrow> bytes option \<Rightarrow> bytes option \<Rightarrow> int" where
  "powerfs_net_release_lease rpc token client_id =
    (case token of
       None \<Rightarrow> - EINVAL
     | Some t \<Rightarrow>
         if length t = 0 \<or> length t \<ge> 64 then - EINVAL
         else rpc_errno (fst (rpc (emit 512 [Str FLD_LEASE_TOKEN t, client_item client_id]))))"

section \<open>Capabilities\<close>

record cap_reply =
  cr_token :: "bytes option"
  cr_token_len :: "nat option"
  cr_set :: "u8 option"
  cr_epoch :: "u64 option"
  cr_sn :: "u64 option"
  cr_duration :: "u64 option"

definition decode_cap_token :: "tlv_dec \<Rightarrow> cap_reply \<Rightarrow> cap_reply option" where
  "decode_cap_token dec out =
    (case cr_token out of
       None \<Rightarrow> Some out
     | Some buf \<Rightarrow>
         (case powerfs_tlv_dec_find_raw dec FLD_LEASE_TOKEN of
            (_, Some (p, tlen), _) \<Rightarrow>
              let cp = (case cr_token_len out of Some n \<Rightarrow> if n > 0 then min tlen (n - 1) else tlen | None \<Rightarrow> tlen)
              in map_option (\<lambda>buf. out\<lparr>cr_token := Some buf, cr_token_len := set_out (Some tlen) (cr_token_len out)\<rparr>)
                   (store_token (subarr p tlen (td_buf dec)) cp buf)
          | (_, None, _) \<Rightarrow>
              (case cr_token_len out of
                 Some _ \<Rightarrow> Some (out\<lparr>cr_token := Some (buf[0 := 0]), cr_token_len := Some 0\<rparr>)
               | None \<Rightarrow> Some out)))"

definition decode_cap_grant_fields :: "tlv_dec \<Rightarrow> cap_reply \<Rightarrow> cap_reply option" where
  "decode_cap_grant_fields dec out =
    map_option (\<lambda>out. out
        \<lparr>cr_set := set_out (fst (snd (powerfs_tlv_dec_find_u8 dec FLD_CAP_SET))) (cr_set out),
         cr_epoch := set_out (fst (snd (powerfs_tlv_dec_find_u64 dec FLD_CAP_EPOCH))) (cr_epoch out),
         cr_sn := set_out (fst (snd (powerfs_tlv_dec_find_u64 dec FLD_CAP_SN))) (cr_sn out),
         cr_duration := set_out (fst (snd (powerfs_tlv_dec_find_u64 dec FLD_LEASE_DURATION))) (cr_duration out)\<rparr>)
      (decode_cap_token dec out)"

definition cap_reply_clear :: "cap_reply \<Rightarrow> cap_reply" where
  "cap_reply_clear out = \<lparr>cr_token = map_option (\<lambda>b. b[0 := 0]) (cr_token out),
    cr_token_len = map_option (\<lambda>_. 0) (cr_token_len out), cr_set = map_option (\<lambda>_. 0) (cr_set out),
    cr_epoch = map_option (\<lambda>_. 0) (cr_epoch out), cr_sn = map_option (\<lambda>_. 0) (cr_sn out),
    cr_duration = map_option (\<lambda>_. 0) (cr_duration out)\<rparr>"

definition bad_client :: "bytes option \<Rightarrow> bool" where
  "bad_client client_id = (case client_id of None \<Rightarrow> True | Some c \<Rightarrow> length c = 0 \<or> length c > 255)"

text \<open>The part shared by the calls whose response is a grant.\<close>

definition grant_call :: "rpc \<Rightarrow> bool \<Rightarrow> tlv_item list \<Rightarrow> cap_reply \<Rightarrow> (int \<times> cap_reply) option" where
  "grant_call rpc alloc its out =
    (let out = cap_reply_clear out
     in if \<not> alloc then Some (- ENOMEM, out)
        else
          let (ret, resp) = rpc (emit 512 its)
          in if rpc_errno ret \<noteq> 0 then Some (rpc_errno ret, out)
             else if length resp > 0
             then map_option (\<lambda>out. (0, out)) (decode_cap_grant_fields (powerfs_tlv_dec_init resp (length resp)) out)
             else Some (0, out))"

definition powerfs_net_cap_open_grant ::
  "rpc \<Rightarrow> bool \<Rightarrow> u64 \<Rightarrow> bytes option \<Rightarrow> bool \<Rightarrow> cap_reply \<Rightarrow> (int \<times> cap_reply) option" where
  "powerfs_net_cap_open_grant rpc alloc ino client_id is_write_open out =
    (if bad_client client_id \<or> ino = 0 then Some (- EINVAL, out)
     else grant_call rpc alloc [U64 FLD_INO ino, Str FLD_CLIENT_ID (the client_id),
            U8 FLD_IS_WRITE_OPEN (if is_write_open then 1 else 0)] out)"

definition bad_token :: "bytes option \<Rightarrow> bool" where
  "bad_token token = (case token of None \<Rightarrow> True | Some t \<Rightarrow> length t = 0 \<or> length t > 255)"

definition powerfs_net_cap_acquire ::
  "rpc \<Rightarrow> bool \<Rightarrow> u64 \<Rightarrow> bytes option \<Rightarrow> bytes option \<Rightarrow> u8 \<Rightarrow> cap_reply \<Rightarrow> (int \<times> cap_reply) option" where
  "powerfs_net_cap_acquire rpc alloc ino client_id token wanted out =
    (if bad_client client_id \<or> bad_token token \<or> ino = 0 then Some (- EINVAL, out)
     else grant_call rpc alloc [U64 FLD_INO ino, Str FLD_CLIENT_ID (the client_id), Str FLD_LEASE_TOKEN (the token),
            U8 FLD_CAP_SET wanted] out)"

definition powerfs_net_cap_recall_ack ::
  "rpc \<Rightarrow> u64 \<Rightarrow> bytes option \<Rightarrow> bytes option \<Rightarrow> u8 option \<Rightarrow> int \<times> u8 option" where
  "powerfs_net_cap_recall_ack rpc ino client_id token piggyback =
    (let piggyback = map_option (\<lambda>_. 0) piggyback
     in if bad_client client_id \<or> bad_token token \<or> ino = 0 then (- EINVAL, piggyback)
        else
          let (ret, resp) = rpc (emit 512 [U64 FLD_INO ino, Str FLD_CLIENT_ID (the client_id),
                Str FLD_LEASE_TOKEN (the token)])
          in if rpc_errno ret \<noteq> 0 then (rpc_errno ret, piggyback)
             else if length resp > 0
             then (0, set_out (fst (snd (powerfs_tlv_dec_u8 (powerfs_tlv_dec_init resp (length resp)) FLD_CAP_SET))) piggyback)
             else (0, piggyback))"

text \<open>The release; the duration is no output of it.\<close>

definition powerfs_net_cap_release ::
  "rpc \<Rightarrow> bool \<Rightarrow> u64 \<Rightarrow> bytes option \<Rightarrow> bytes option \<Rightarrow> u8 option \<Rightarrow> cap_reply \<Rightarrow> (int \<times> u8 option \<times> cap_reply) option" where
  "powerfs_net_cap_release rpc alloc ino client_id token has_upgrade out =
    (if bad_client client_id \<or> bad_token token \<or> ino = 0 then Some (- EINVAL, has_upgrade, out)
     else
       let has_upgrade = map_option (\<lambda>_. 0) has_upgrade; out = cap_reply_clear (out\<lparr>cr_duration := None\<rparr>)
       in if \<not> alloc then Some (- ENOMEM, has_upgrade, out)
          else
            let (ret, resp) = rpc (emit 512 [U64 FLD_INO ino, Str FLD_CLIENT_ID (the client_id),
                  Str FLD_LEASE_TOKEN (the token)])
            in if rpc_errno ret \<noteq> 0 then Some (rpc_errno ret, has_upgrade, out)
               else if length resp > 0 then
                 let dec = powerfs_tlv_dec_init resp (length resp);
                     upg = (case fst (snd (powerfs_tlv_dec_find_u8 dec FLD_HAS_UPGRADE)) of Some v \<Rightarrow> v | None \<Rightarrow> 0);
                     has_upgrade = set_out (Some upg) has_upgrade
                 in if upg \<noteq> 0 then map_option (\<lambda>out. (0, has_upgrade, out)) (decode_cap_grant_fields dec out)
                    else Some (0, has_upgrade, out)
               else Some (0, has_upgrade, out))"

section \<open>Batched release and file locks\<close>

record batch_entry =
  be_ino :: u64
  be_token :: "bytes option"
  be_capset :: u8

definition batch_entry_bad :: "batch_entry \<Rightarrow> bool" where
  "batch_entry_bad b = (be_ino b = 0 \<or> bad_token (be_token b))"

definition batch_body_cap :: "nat \<Rightarrow> batch_entry list \<Rightarrow> nat" where
  "batch_body_cap cid_len entries =
    fold (\<lambda>b c. c + (4 + 8 + 4 + length (the (be_token b)) + 4 + 1)) entries (cid_len + 4 + 8 + 4) + 32"

definition batch_items :: "bytes \<Rightarrow> batch_entry list \<Rightarrow> tlv_item list" where
  "batch_items client_id entries =
    [Str FLD_CLIENT_ID client_id, U64 FLD_LIMIT (of_nat (length entries))] @
    concat (map (\<lambda>b. [U64 FLD_INO (be_ino b), Str FLD_LEASE_TOKEN (the (be_token b)), U8 FLD_CAP_SET (be_capset b)]) entries)"

text \<open>The statuses of the response, entry by entry until one is missing.\<close>

fun batch_statuses :: "nat \<Rightarrow> tlv_dec \<Rightarrow> u16 list" where
  "batch_statuses 0 dec = []"
| "batch_statuses (Suc n) dec =
    (case powerfs_tlv_dec_u64 dec FLD_INO of
       (ret, _, dec) \<Rightarrow>
         if ret \<noteq> 0 then []
         else case powerfs_tlv_dec_u8 dec FLD_CAP_SET of
             (_, st, dec) \<Rightarrow> ucast (case st of Some v \<Rightarrow> v | None \<Rightarrow> 0) # batch_statuses n dec)"

definition powerfs_net_batch_cap_release ::
  "rpc \<Rightarrow> bool \<Rightarrow> bool \<Rightarrow> bytes option \<Rightarrow> batch_entry list \<Rightarrow> u16 list \<Rightarrow> int \<times> u16 list" where
  "powerfs_net_batch_cap_release rpc alloc_body alloc_resp client_id entries status_out =
    (if client_id = None \<or> entries = [] then (- EINVAL, status_out)
     else if bad_client client_id then (- EINVAL, status_out)
     else if list_ex batch_entry_bad entries then (- EINVAL, status_out)
     else if \<not> alloc_body \<or> \<not> alloc_resp then (- ENOMEM, status_out)
     else
       let c = the client_id; (ret, resp) = rpc (emit (batch_body_cap (length c) entries) (batch_items c entries))
       in if rpc_errno ret \<noteq> 0 then (rpc_errno ret, status_out)
          else if length resp > 0 then
            let (_, _, dec) = powerfs_tlv_dec_u64 (powerfs_tlv_dec_init resp (length resp)) FLD_LIMIT;
                sts = batch_statuses (length entries) dec
            in (0, sts @ drop (length sts) status_out)
          else (0, status_out))"

definition powerfs_net_file_lock_request ::
  "rpc \<Rightarrow> bool \<Rightarrow> bool \<Rightarrow> u64 \<Rightarrow> bytes \<Rightarrow> u8 \<Rightarrow> u8 \<Rightarrow> u8 option \<Rightarrow> int \<times> u8 option" where
  "powerfs_net_file_lock_request rpc alloc_body alloc_resp ino client_id lock_mode wait granted =
    (let granted = map_option (\<lambda>_. 0) granted
     in if \<not> alloc_body \<or> \<not> alloc_resp then (- ENOMEM, granted)
        else
          let (ret, resp) = rpc (emit (64 + length client_id + 32) [U64 FLD_INO ino, Str FLD_CLIENT_ID client_id,
                U8 FLD_IS_WRITE_OPEN lock_mode, U8 FLD_HAS_UPGRADE wait])
          in if rpc_errno ret \<noteq> 0 then (rpc_errno ret, granted)
             else
               let (_, m, dec) = powerfs_tlv_dec_u8 (powerfs_tlv_dec_init resp (length resp)) FLD_IS_WRITE_OPEN;
                   (_, g, _) = powerfs_tlv_dec_u8 dec FLD_HAS_UPGRADE;
                   v = (case g of Some v \<Rightarrow> v | None \<Rightarrow> (case m of Some v \<Rightarrow> v | None \<Rightarrow> 0))
               in (0, set_out (Some v) granted))"

section \<open>Notifications\<close>

record cap_notice =
  cn_ino :: u64
  cn_token :: bytes
  cn_token_len :: nat
  cn_set :: u8
  cn_retain :: u8
  cn_epoch :: u64
  cn_sn :: u64

text \<open>The token of a notification goes into an array of \<open>token_cap\<close> bytes; its full length is reported.\<close>

definition notice_token :: "tlv_dec \<Rightarrow> cap_notice \<Rightarrow> cap_notice" where
  "notice_token dec n =
    (let n = n\<lparr>cn_token := (cn_token n)[0 := 0], cn_token_len := 0\<rparr>
     in case powerfs_tlv_dec_find_raw dec FLD_LEASE_TOKEN of
          (_, Some (p, tlen), _) \<Rightarrow>
            if length (cn_token n) > 0 then
              let cp = min tlen (length (cn_token n) - 1)
              in n\<lparr>cn_token := (wr_bytes 0 (subarr p cp (td_buf dec)) (cn_token n))[cp := 0], cn_token_len := tlen\<rparr>
            else n
        | (_, None, _) \<Rightarrow> n)"

definition found_or :: "'a \<Rightarrow> int \<times> 'a option \<times> tlv_dec \<Rightarrow> 'a" where
  "found_or old r = (case fst (snd r) of Some v \<Rightarrow> v | None \<Rightarrow> old)"

definition decode_cap_recall_body :: "bytes \<Rightarrow> cap_notice \<Rightarrow> int \<times> cap_notice" where
  "decode_cap_recall_body body n =
    (if length body = 0 then (- EINVAL, n)
     else
       let dec = powerfs_tlv_dec_init body (length body);
           n = notice_token dec (n\<lparr>cn_ino := found_or (cn_ino n) (powerfs_tlv_dec_find_u64 dec FLD_INO)\<rparr>);
           packed = found_or 0 (powerfs_tlv_dec_find_u8 dec FLD_IS_WRITE_OPEN)
       in (0, n\<lparr>cn_set := found_or (cn_set n) (powerfs_tlv_dec_find_u8 dec FLD_CAP_SET),
               cn_retain := drop_bit 4 packed AND 0x0F,
               cn_epoch := found_or (cn_epoch n) (powerfs_tlv_dec_find_u64 dec FLD_CAP_EPOCH)\<rparr>))"

definition decode_cap_upgrade_body :: "bytes \<Rightarrow> cap_notice \<Rightarrow> int \<times> cap_notice" where
  "decode_cap_upgrade_body body n =
    (if length body = 0 then (- EINVAL, n)
     else
       let dec = powerfs_tlv_dec_init body (length body);
           n = notice_token dec (n\<lparr>cn_ino := found_or (cn_ino n) (powerfs_tlv_dec_find_u64 dec FLD_INO)\<rparr>)
       in (0, n\<lparr>cn_set := found_or (cn_set n) (powerfs_tlv_dec_find_u8 dec FLD_CAP_SET),
               cn_epoch := found_or (cn_epoch n) (powerfs_tlv_dec_find_u64 dec FLD_CAP_EPOCH),
               cn_sn := found_or (cn_sn n) (powerfs_tlv_dec_find_u64 dec FLD_CAP_SN)\<rparr>))"

section \<open>What is sent\<close>

lemma emit_fold_fits:
  "tlv_enc_wf e \<Longrightarrow> te_len e + length (tlv_ser (map item_field its)) \<le> te_cap e \<Longrightarrow>
    \<forall>it \<in> set its. length (snd (item_field it)) \<le> POWERFS_NET_MAX_TLV \<Longrightarrow>
    fold (\<lambda>it e. snd (enc_item it e)) its e = put_bytes (tlv_ser (map item_field its)) e"
proof (induction its arbitrary: e)
  case (Cons it its)
  obtain f v where "item_field it = (f, v)" by (cases "item_field it")
  then show ?case using Cons.prems Cons.IH [of "put_bytes (tlv_field f v) e"]
    by (simp add: enc_item_effect enc_effect_ok put_bytes_wf put_bytes_append add.assoc)
qed simp

lemma emit_fold_wf:
  "tlv_enc_wf e \<Longrightarrow> tlv_enc_wf (fold (\<lambda>it e. snd (enc_item it e)) its e) \<and>
    te_cap (fold (\<lambda>it e. snd (enc_item it e)) its e) = te_cap e"
proof (induction its arbitrary: e)
  case (Cons it its)
  then show ?case using enc_item_bounds [OF Cons.prems, of it] by (cases "enc_item it e") simp
qed simp

lemma emit_ok:
  assumes "length (tlv_ser (map item_field its)) \<le> cap"
    "\<forall>it \<in> set its. length (snd (item_field it)) \<le> POWERFS_NET_MAX_TLV"
  shows "emit cap its = tlv_ser (map item_field its)"
proof -
  let ?e = "powerfs_tlv_enc_init (replicate cap 0) cap"
  have w: "tlv_enc_wf ?e" "te_len ?e = 0" "te_cap ?e = cap" "enc_out ?e = []"
    by (simp_all add: tlv_enc_wf_def powerfs_tlv_enc_init_def enc_out_def)
  then show ?thesis using assms emit_fold_fits [of ?e its] by (simp add: emit_def)
qed

lemma emit_bounded: "length (emit cap its) \<le> cap"
  using emit_fold_wf [OF enc_init_wf [of cap "replicate cap 0"], of its]
  by (simp add: emit_def enc_out_def tlv_enc_wf_def powerfs_tlv_enc_init_def)

lemma emit_complete_iff:
  assumes "\<forall>it \<in> set its. length (snd (item_field it)) \<le> POWERFS_NET_MAX_TLV"
  shows "emit cap its = tlv_ser (map item_field its) \<longleftrightarrow> length (tlv_ser (map item_field its)) \<le> cap"
  using emit_ok [OF _ assms] emit_bounded [of cap its] by metis

lemma batch_sizes:
  "length (tlv_ser (map item_field (batch_items c es))) = length c + 18 + (\<Sum>b \<leftarrow> es. 24 + length (the (be_token b)))"
  "batch_body_cap n es = n + 48 + (\<Sum>b \<leftarrow> es. 21 + length (the (be_token b)))"
proof -
  have "length (tlv_ser (map item_field (concat (map (\<lambda>b. [U64 FLD_INO (be_ino b), Str FLD_LEASE_TOKEN (the (be_token b)),
      U8 FLD_CAP_SET (be_capset b)]) es)))) = (\<Sum>b \<leftarrow> es. 24 + length (the (be_token b)))"
    by (induction es) simp_all
  then show "length (tlv_ser (map item_field (batch_items c es))) = length c + 18 + (\<Sum>b \<leftarrow> es. 24 + length (the (be_token b)))"
    by (simp add: batch_items_def)
  have "fold (\<lambda>b c. c + (4 + 8 + 4 + length (the (be_token b)) + 4 + 1)) es k = k + (\<Sum>b \<leftarrow> es. 21 + length (the (be_token b)))" for k
    by (induction es arbitrary: k) simp_all
  then show "batch_body_cap n es = n + 48 + (\<Sum>b \<leftarrow> es. 21 + length (the (be_token b)))"
    by (simp add: batch_body_cap_def)
qed

text \<open>The request of a batched release is complete exactly for batches of at most ten entries: the buffer is
  computed with four bytes for the header of a field, the encoder needs five, and the reserve of 32 bytes makes up
  for ten entries only. Seen from a server that answers complete requests alone, larger batches always fail.\<close>

theorem batch_release_complete_iff:
  assumes "\<not> bad_client (Some c)" "\<not> list_ex batch_entry_bad es" "es \<noteq> []"
  shows "fst (powerfs_net_batch_cap_release
      (\<lambda>body. if body = tlv_ser (map item_field (batch_items c es)) then (0, []) else (- EIO, []))
      True True (Some c) es st) = 0 \<longleftrightarrow> length es \<le> 10"
proof -
  have b: "length (the (be_token b)) \<le> 255" if "b \<in> set es" for b
    using assms(2) that by (auto simp: list_ex_iff batch_entry_bad_def bad_token_def split: option.splits)
  have c: "length c \<le> 255" using assms(1) by (simp add: bad_client_def)
  have "\<forall>it \<in> set (batch_items c es). length (snd (item_field it)) \<le> POWERFS_NET_MAX_TLV"
    using b c by (fastforce simp: batch_items_def)
  note emit_complete_iff [OF this, of "batch_body_cap (length c) es"]
  moreover have "(\<Sum>b \<leftarrow> es. 24 + length (the (be_token b))) = 3 * length es + (\<Sum>b \<leftarrow> es. 21 + length (the (be_token b)))"
    by (induction es) simp_all
  ultimately have "emit (batch_body_cap (length c) es) (batch_items c es) = tlv_ser (map item_field (batch_items c es)) \<longleftrightarrow>
      length es \<le> 10"
    by (simp add: batch_sizes)
  then show ?thesis
    using assms by (simp add: powerfs_net_batch_cap_release_def Let_def rpc_errno_def)
qed

theorem batch_release_complete_iff_witness:
  "fst (powerfs_net_batch_cap_release
      (\<lambda>body. if body = tlv_ser (map item_field (batch_items [99] (replicate 11 \<lparr>be_ino = 5, be_token = Some [1, 2], be_capset = 3\<rparr>)))
         then (0, []) else (- EIO, [])) True True (Some [99]) (replicate 11 \<lparr>be_ino = 5, be_token = Some [1, 2], be_capset = 3\<rparr>) []) \<noteq> 0"
proof -
  let ?es = "replicate 11 \<lparr>be_ino = 5, be_token = Some [1, 2], be_capset = 3\<rparr>"
  have "\<not> bad_client (Some [99])" "\<not> list_ex batch_entry_bad ?es" "?es \<noteq> []"
    by (simp_all add: bad_client_def list_ex_iff batch_entry_bad_def bad_token_def)
  from batch_release_complete_iff [OF this, of "[]"] show ?thesis by simp
qed

section \<open>What is taken from a response\<close>

lemma dec_string_blocks_u64:
  assumes "powerfs_tlv_dec_string dec f buf n = (ret, tok, dec')" "\<not> ret < 0" "g \<noteq> f"
  shows "fst (snd (powerfs_tlv_dec_u64 dec g)) = None"
  using assms by (auto simp: powerfs_tlv_dec_string_def powerfs_tlv_dec_u64_def powerfs_tlv_dec_read_def Let_def
      split: if_splits)

text \<open>A lease that was acquired never carries terms of the server: whatever the response holds, the epoch and
  the content size keep their old values and the expiry is computed from the client's own duration. The fields are
  read with the sequential decoder from the start of a response that has to begin with the lease id.\<close>

theorem acquire_lease_ignores_terms:
  assumes "powerfs_net_acquire_lease rpc ev ino start n client out = (0, out')"
  shows "lr_epoch out' = lr_epoch out \<and> lr_content_size out' = lr_content_size out \<and>
    lr_expire out' = map_option (\<lambda>_. le_now ev + le_msecs ev (le_duration_ms ev div 1000 * 1000)) (lr_expire out)"
proof -
  obtain ret resp where r: "rpc (emit 512 [U64 FLD_INO ino, U64 FLD_OFFSET start, U64 FLD_LIMIT n, client_item client,
      U64 FLD_MODE 1, U64 FLD_LEASE_DURATION (ucast (le_duration_ms ev))]) = (ret, resp)" by fastforce
  let ?d = "powerfs_tlv_dec_init resp (length resp)"
  obtain sret tok d' where s: "powerfs_tlv_dec_string ?d FLD_LEASE_ID (lr_token out) (lr_token_len out) = (sret, tok, d')"
    by (cases "powerfs_tlv_dec_string ?d FLD_LEASE_ID (lr_token out) (lr_token_len out)")
  have "\<not> sret < 0"
    using assms r s by (auto simp: powerfs_net_acquire_lease_def Let_def split: if_splits prod.splits)
  then have "\<exists>x y. powerfs_tlv_dec_u64 ?d g = (x, None, y)" if "g \<noteq> FLD_LEASE_ID" for g
    using dec_string_blocks_u64 [OF s _ that] by (cases "powerfs_tlv_dec_u64 ?d g") simp
  from this [of FLD_LEASE_DURATION] this [of FLD_LEASE_EPOCH] this [of FLD_CONTENT_SIZE]
  obtain x1 x2 y1 y2 z1 z2 where "powerfs_tlv_dec_u64 ?d FLD_LEASE_DURATION = (x1, None, x2)"
    "powerfs_tlv_dec_u64 ?d FLD_LEASE_EPOCH = (y1, None, y2)" "powerfs_tlv_dec_u64 ?d FLD_CONTENT_SIZE = (z1, None, z2)"
    by auto
  then show ?thesis
    using assms r s by (auto simp: powerfs_net_acquire_lease_def Let_def set_out_def lease_expire_def option.map_ident
        split: if_splits)
qed

definition sample_lease_env :: lease_env where
  "sample_lease_env = \<lparr>le_now = 1000, le_msecs = (\<lambda>m. ucast m div 10), le_duration_ms = 30000\<rparr>"

definition sample_lease_out :: lease_reply where
  "sample_lease_out = \<lparr>lr_token = replicate 64 0, lr_token_len = 64, lr_epoch = Some 0, lr_content_size = Some 0,
    lr_expire = Some 0\<rparr>"

theorem acquire_lease_ignores_terms_witness:
  "lr_expire (snd (powerfs_net_acquire_lease
      (\<lambda>_. (0, [0x40, 0, 0, 0, 1, 55, 0x41, 0, 0, 0, 8, 0x88, 0x13, 0, 0, 0, 0, 0, 0]))
      sample_lease_env 7 0 1 None sample_lease_out)) = Some 4000"
proof -
  let ?r = "powerfs_net_acquire_lease
      (\<lambda>_. (0, [0x40, 0, 0, 0, 1, 55, 0x41, 0, 0, 0, 8, 0x88, 0x13, 0, 0, 0, 0, 0, 0]))
      sample_lease_env 7 0 1 None sample_lease_out"
  have "fst ?r = 0" by code_simp
  then have r: "?r = (0, snd ?r)" by (simp add: prod_eq_iff)
  show ?thesis
    using acquire_lease_ignores_terms [OF r] by (simp add: sample_lease_env_def sample_lease_out_def)
qed

lemma resp_dec:
  assumes "\<forall>(f, v) \<in> set fs. length v < 2 ^ 32"
  shows "map_option (\<lambda>(p, l). subarr p l (tlv_ser fs))
      (fst (snd (powerfs_tlv_dec_find_raw (powerfs_tlv_dec_init (tlv_ser fs) (length (tlv_ser fs))) f))) =
    map_option snd (List.find (\<lambda>(g, v). g = f) fs)"
  using find_raw_ser [of "powerfs_tlv_dec_init (tlv_ser fs) (length (tlv_ser fs))" fs f] assms
  by (simp add: powerfs_tlv_dec_init_def)

lemma find_raw_len:
  assumes "powerfs_tlv_dec_find_raw (powerfs_tlv_dec_init resp (length resp)) f = (r, Some (p, l), d)"
  shows "length (subarr p l resp) = l"
proof -
  let ?d = "(powerfs_tlv_dec_init resp (length resp))\<lparr>td_pos := 0\<rparr>"
  obtain d' where "tlv_find_scan (\<lambda>g l. g = f) ?d = Some (l, d')" "p = td_pos d'"
    using assms by (auto simp: powerfs_tlv_dec_find_raw_def split: option.splits)
  moreover have "tlv_dec_wf ?d" by (simp add: tlv_dec_wf_def powerfs_tlv_dec_init_def)
  ultimately have "p + l \<le> length resp"
    using find_scan_wf by (fastforce simp: powerfs_tlv_dec_init_def)
  then show ?thesis by simp
qed

text \<open>C7: The token of a grant is copied without a bound: the length that would limit the copy has been cleared
  before. A token of a response that is shorter than the caller's array arrives whole, with its terminator; a longer
  one is written past the end of the array.\<close>

theorem cap_open_grant_token:
  assumes "\<not> bad_client client" "ino \<noteq> 0" "cr_token out = Some buf" "cr_token_len out = Some n" "fs \<noteq> []"
    "\<forall>(f, v) \<in> set fs. length v < 2 ^ 32" "List.find (\<lambda>(g, v). g = FLD_LEASE_TOKEN) fs = Some (g, v)"
  shows "(length v < length buf \<longrightarrow>
      (\<exists>out' buf'. powerfs_net_cap_open_grant (\<lambda>_. (0, tlv_ser fs)) True ino client w out = Some (0, out') \<and>
         cr_token out' = Some buf' \<and> take (length v + 1) buf' = v @ [0] \<and> cr_token_len out' = Some (length v))) \<and>
    (length buf \<le> length v \<longrightarrow> powerfs_net_cap_open_grant (\<lambda>_. (0, tlv_ser fs)) True ino client w out = None)"
proof -
  let ?d = "powerfs_tlv_dec_init (tlv_ser fs) (length (tlv_ser fs))"
  obtain f0 v0 fs0 where "fs = (f0, v0) # fs0" using assms(5) by (cases fs) auto
  then have ne: "tlv_ser fs \<noteq> []" by (simp add: tlv_field_def)
  obtain r x d where raw: "powerfs_tlv_dec_find_raw ?d FLD_LEASE_TOKEN = (r, x, d)"
    by (cases "powerfs_tlv_dec_find_raw ?d FLD_LEASE_TOKEN")
  then obtain p l where x: "x = Some (p, l)" "subarr p l (tlv_ser fs) = v"
    using resp_dec [OF assms(6), of FLD_LEASE_TOKEN] assms(7) by auto
  then have l: "l = length v" using find_raw_len [OF raw [unfolded x(1)]] by simp
  have buf: "td_buf ?d = tlv_ser fs" by (simp add: powerfs_tlv_dec_init_def)
  let ?o = "cap_reply_clear out"
  have o: "cr_token ?o = Some (buf[0 := 0])" "cr_token_len ?o = Some 0"
    using assms(3,4) by (simp_all add: cap_reply_clear_def)
  have tok: "decode_cap_token ?d ?o = map_option (\<lambda>b. ?o\<lparr>cr_token := Some b, cr_token_len := Some (length v)\<rparr>)
      (store_token v (length v) (buf[0 := 0]))"
    using raw x l buf by (simp add: decode_cap_token_def o set_out_def Let_def)
  have call: "powerfs_net_cap_open_grant (\<lambda>_. (0, tlv_ser fs)) True ino client w out =
      map_option (\<lambda>out. (0, out)) (decode_cap_grant_fields ?d ?o)"
    using assms(1,2) ne by (simp add: powerfs_net_cap_open_grant_def grant_call_def Let_def rpc_errno_def)
  have "take (length v + 1) ((wr_bytes 0 v (buf[0 := 0]))[length v := 0]) = v @ [0]" if "length v < length buf"
    using that take_wr_bytes [of 0 v "buf[0 := 0]"] by (simp add: take_Suc_conv_app_nth)
  then show ?thesis
    by (auto simp: call decode_cap_grant_fields_def tok store_token_def)
qed

theorem cap_open_grant_token_witness:
  "powerfs_net_cap_open_grant (\<lambda>_. (0, tlv_ser [(FLD_LEASE_TOKEN, replicate 64 1)])) True 7 (Some [99]) False
    \<lparr>cr_token = Some (replicate 64 0), cr_token_len = Some 64, cr_set = Some 0, cr_epoch = Some 0, cr_sn = Some 0,
     cr_duration = Some 0\<rparr> = None"
proof -
  let ?out = "\<lparr>cr_token = Some (replicate 64 0), cr_token_len = Some 64, cr_set = Some 0, cr_epoch = Some 0, cr_sn = Some 0,
     cr_duration = Some 0\<rparr>"
  have "\<not> bad_client (Some [99])" "(7 :: u64) \<noteq> 0" "cr_token ?out = Some (replicate 64 0)" "cr_token_len ?out = Some 64"
    "[(FLD_LEASE_TOKEN, replicate 64 1)] \<noteq> []"
    "\<forall>(f, v) \<in> set [(FLD_LEASE_TOKEN, replicate 64 1 :: bytes)]. length v < 2 ^ 32"
    "List.find (\<lambda>(g, v). g = FLD_LEASE_TOKEN) [(FLD_LEASE_TOKEN, replicate 64 1 :: bytes)] = Some (FLD_LEASE_TOKEN, replicate 64 1)"
    by (simp_all add: bad_client_def)
  from cap_open_grant_token [OF this, of False] show ?thesis by simp
qed

end
