(* ===== verification/NetInode.thy ===== *)
theory NetInode
  imports NetLease LayoutParse
begin

text \<open>
  The metadata calls of \<open>powerfs_net_inode.c\<close>: the request each one encodes, the message and the routing key it is
  sent with, and what it takes from the response. The transport is the parameter \<open>rpc\<close>, from message type, routing
  key (an inode, or a shard for the calls that name one), timeout and body to the result of the send and the response
  body. The success of an allocation is a parameter \<open>mem\<close>. An output parameter that may be \<open>NULL\<close> is an option.
\<close>

abbreviation FLD_PARENT_INO :: u8 where "FLD_PARENT_INO \<equiv> 0x01"
abbreviation FLD_NAME :: u8 where "FLD_NAME \<equiv> 0x02"
abbreviation FLD_UID :: u8 where "FLD_UID \<equiv> 0x04"
abbreviation FLD_GID :: u8 where "FLD_GID \<equiv> 0x05"
abbreviation FLD_SIZE :: u8 where "FLD_SIZE \<equiv> 0x06"
abbreviation FLD_NLINK :: u8 where "FLD_NLINK \<equiv> 0x08"
abbreviation FLD_MTIME :: u8 where "FLD_MTIME \<equiv> 0x09"
abbreviation FLD_ATIME :: u8 where "FLD_ATIME \<equiv> 0x0A"
abbreviation FLD_CTIME :: u8 where "FLD_CTIME \<equiv> 0x0B"
abbreviation FLD_SYMLINK_TARGET :: u8 where "FLD_SYMLINK_TARGET \<equiv> 0x0C"
abbreviation FLD_IS_DIR :: u8 where "FLD_IS_DIR \<equiv> 0x0D"
abbreviation FLD_BLKSIZE :: u8 where "FLD_BLKSIZE \<equiv> 0x11"
abbreviation FLD_FREE :: u8 where "FLD_FREE \<equiv> 0x1A"
abbreviation FLD_FREE_INODES :: u8 where "FLD_FREE_INODES \<equiv> 0x1B"
abbreviation FLD_LAST_NAME :: u8 where "FLD_LAST_NAME \<equiv> 0x21"
abbreviation FLD_HAS_MORE :: u8 where "FLD_HAS_MORE \<equiv> 0x22"
abbreviation FLD_COUNT :: u8 where "FLD_COUNT \<equiv> 0x24"
abbreviation FLD_ENTRY :: u8 where "FLD_ENTRY \<equiv> 0x25"
abbreviation FLD_NEW_PARENT_INO :: u8 where "FLD_NEW_PARENT_INO \<equiv> 0x50"
abbreviation FLD_NEW_NAME :: u8 where "FLD_NEW_NAME \<equiv> 0x51"
abbreviation FLD_SHARD_ID :: u8 where "FLD_SHARD_ID \<equiv> 0x70"
abbreviation FLD_VOLUME_ID :: u8 where "FLD_VOLUME_ID \<equiv> 0x92"
abbreviation FLD_FILE_KEY :: u8 where "FLD_FILE_KEY \<equiv> 0x94"
abbreviation FLD_PLACEMENT :: u8 where "FLD_PLACEMENT \<equiv> 0xA0"
abbreviation FLD_RELIABILITY :: u8 where "FLD_RELIABILITY \<equiv> 0xA1"
abbreviation FLD_RELIABILITY_STATE :: u8 where "FLD_RELIABILITY_STATE \<equiv> 0xA2"
abbreviation FLD_CHUNK_LAYOUT :: u8 where "FLD_CHUNK_LAYOUT \<equiv> 0xA4"
abbreviation FLD_STRIPE_SIZE :: u8 where "FLD_STRIPE_SIZE \<equiv> 0xA8"
abbreviation FLD_STRIPE_COUNT :: u8 where "FLD_STRIPE_COUNT \<equiv> 0xA9"
abbreviation FLD_INLINE_DATA :: u8 where "FLD_INLINE_DATA \<equiv> 0xAE"
abbreviation FLD_INLINE_MAX_SIZE :: u8 where "FLD_INLINE_MAX_SIZE \<equiv> 0xAF"
abbreviation FLD_START_INODE :: u8 where "FLD_START_INODE \<equiv> 0xB0"
abbreviation FLD_END_INODE :: u8 where "FLD_END_INODE \<equiv> 0xB1"
abbreviation FLD_DESIRED_MODE :: u8 where "FLD_DESIRED_MODE \<equiv> 0xD6"

abbreviation MSG_LOOKUP :: u16 where "MSG_LOOKUP \<equiv> 0x0010"
abbreviation MSG_GETATTR :: u16 where "MSG_GETATTR \<equiv> 0x0011"
abbreviation MSG_SETATTR :: u16 where "MSG_SETATTR \<equiv> 0x0012"
abbreviation MSG_CREATE :: u16 where "MSG_CREATE \<equiv> 0x0013"
abbreviation MSG_MKDIR :: u16 where "MSG_MKDIR \<equiv> 0x0014"
abbreviation MSG_UNLINK :: u16 where "MSG_UNLINK \<equiv> 0x0015"
abbreviation MSG_RMDIR :: u16 where "MSG_RMDIR \<equiv> 0x0016"
abbreviation MSG_RENAME :: u16 where "MSG_RENAME \<equiv> 0x0017"
abbreviation MSG_READDIR :: u16 where "MSG_READDIR \<equiv> 0x0018"
abbreviation MSG_SYMLINK :: u16 where "MSG_SYMLINK \<equiv> 0x0019"
abbreviation MSG_READLINK :: u16 where "MSG_READLINK \<equiv> 0x001A"
abbreviation MSG_LINK :: u16 where "MSG_LINK \<equiv> 0x001B"
abbreviation MSG_ALLOC_INODE_BATCH :: u16 where "MSG_ALLOC_INODE_BATCH \<equiv> 0x0033"
abbreviation MSG_UPDATE_INODE_SIZE_CHUNKS :: u16 where "MSG_UPDATE_INODE_SIZE_CHUNKS \<equiv> 0x0034"
abbreviation MSG_MIGRATE_INLINE_ALLOC :: u16 where "MSG_MIGRATE_INLINE_ALLOC \<equiv> 0x0037"
abbreviation MSG_MKDIR_PHASE_A :: u16 where "MSG_MKDIR_PHASE_A \<equiv> 0x003c"
abbreviation MSG_MKDIR_PHASE_B :: u16 where "MSG_MKDIR_PHASE_B \<equiv> 0x003d"
abbreviation MSG_BATCH_CREATE :: u16 where "MSG_BATCH_CREATE \<equiv> 0x003f"

abbreviation POWERFS_META_TIMEOUT_MS :: int where "POWERFS_META_TIMEOUT_MS \<equiv> 15000"
abbreviation POWERFS_NET_RECV_TIMEOUT :: int where "POWERFS_NET_RECV_TIMEOUT \<equiv> 10000"
abbreviation POWERFS_READDIR_TIMEOUT_MS :: int where "POWERFS_READDIR_TIMEOUT_MS \<equiv> 5000"
abbreviation ENOTEMPTY :: int where "ENOTEMPTY \<equiv> 39"
abbreviation NAME_MAX :: nat where "NAME_MAX \<equiv> 255"

type_synonym mrpc = "u16 \<Rightarrow> u64 \<Rightarrow> int \<Rightarrow> bytes \<Rightarrow> int \<times> bytes"

section \<open>Attributes\<close>

record net_attrs =
  na_ino :: u64
  na_mode :: u32
  na_uid :: u32
  na_gid :: u32
  na_size :: u64
  na_nlink :: u32
  na_mtime :: u64
  na_atime :: u64
  na_ctime :: u64
  na_volume_id :: "u64 option"
  na_file_key :: "u64 option"
  na_layout :: "file_layout option"

abbreviation resp_decoder :: "bytes \<Rightarrow> tlv_dec" where
  "resp_decoder resp \<equiv> powerfs_tlv_dec_init resp (length resp)"

text \<open>One call of a sequential decoder: the new value of the output and the decoder after it.\<close>

definition dec_or :: "'a \<Rightarrow> int \<times> 'a option \<times> tlv_dec \<Rightarrow> 'a \<times> tlv_dec" where
  "dec_or old r = (found_or old r, snd (snd r))"

definition dec_attrs :: "tlv_dec \<Rightarrow> net_attrs \<Rightarrow> net_attrs \<times> tlv_dec" where
  "dec_attrs dec out =
    (let (ino, dec) = dec_or (na_ino out) (powerfs_tlv_dec_u64 dec FLD_INO);
         (mode, dec) = dec_or (na_mode out) (powerfs_tlv_dec_u32 dec FLD_MODE);
         (uid, dec) = dec_or (na_uid out) (powerfs_tlv_dec_u32 dec FLD_UID);
         (gid, dec) = dec_or (na_gid out) (powerfs_tlv_dec_u32 dec FLD_GID);
         (sz, dec) = dec_or (na_size out) (powerfs_tlv_dec_u64 dec FLD_SIZE);
         (nlink, dec) = dec_or (na_nlink out) (powerfs_tlv_dec_u32 dec FLD_NLINK);
         (mtime, dec) = dec_or (na_mtime out) (powerfs_tlv_dec_u64 dec FLD_MTIME);
         (atime, dec) = dec_or (na_atime out) (powerfs_tlv_dec_u64 dec FLD_ATIME);
         (ctime, dec) = dec_or (na_ctime out) (powerfs_tlv_dec_u64 dec FLD_CTIME)
     in (out\<lparr>na_ino := ino, na_mode := mode, na_uid := uid, na_gid := gid, na_size := sz, na_nlink := nlink,
             na_mtime := mtime, na_atime := atime, na_ctime := ctime\<rparr>, dec))"

definition dec_location :: "(layout_alloc \<Rightarrow> bool) \<Rightarrow> tlv_dec \<Rightarrow> net_attrs \<Rightarrow> net_attrs" where
  "dec_location alloc dec out =
    out\<lparr>na_volume_id := set_out (find_u64 dec FLD_VOLUME_ID) (na_volume_id out),
        na_file_key := set_out (find_u64 dec FLD_FILE_KEY) (na_file_key out),
        na_layout := map_option (\<lambda>_. parse_file_layout alloc dec) (na_layout out)\<rparr>"

definition powerfs_net_lookup_timeout ::
  "mrpc \<Rightarrow> bool \<Rightarrow> (layout_alloc \<Rightarrow> bool) \<Rightarrow> u64 \<Rightarrow> bytes \<Rightarrow> int \<Rightarrow> net_attrs \<Rightarrow> int \<times> net_attrs" where
  "powerfs_net_lookup_timeout rpc mem alloc dir_ino name timeout_ms out =
    (if \<not> mem then (- ENOMEM, out)
     else
       let (ret, resp) = rpc MSG_LOOKUP dir_ino timeout_ms (emit 512 [U64 FLD_PARENT_INO dir_ino, Str FLD_NAME name])
       in if ret \<noteq> 0 then (rpc_errno ret, out)
          else if length resp = 0 then (0, out)
          else let (out, dec) = dec_attrs (resp_decoder resp) out in (0, dec_location alloc dec out))"

definition powerfs_net_lookup ::
  "mrpc \<Rightarrow> bool \<Rightarrow> (layout_alloc \<Rightarrow> bool) \<Rightarrow> u64 \<Rightarrow> bytes \<Rightarrow> net_attrs \<Rightarrow> int \<times> net_attrs" where
  "powerfs_net_lookup rpc mem alloc dir_ino name out =
    powerfs_net_lookup_timeout rpc mem alloc dir_ino name POWERFS_NET_RECV_TIMEOUT out"

text \<open>The recursive statistics of a directory, each an output that may be absent.\<close>

record net_rstat =
  rs_rbytes :: "u64 option"
  rs_rfiles :: "u64 option"
  rs_rsubdirs :: "u64 option"
  rs_rctime_sec :: "u64 option"
  rs_rctime_nsec :: "u32 option"

definition dec_rstat :: "tlv_dec \<Rightarrow> net_rstat \<Rightarrow> net_rstat" where
  "dec_rstat dec rs =
    \<lparr>rs_rbytes = set_out (find_u64 dec 0xCD) (rs_rbytes rs), rs_rfiles = set_out (find_u64 dec 0xCE) (rs_rfiles rs),
     rs_rsubdirs = set_out (find_u64 dec 0xCF) (rs_rsubdirs rs),
     rs_rctime_sec = set_out (find_u64 dec 0xD0) (rs_rctime_sec rs),
     rs_rctime_nsec = set_out (find_u32 dec 0xD1) (rs_rctime_nsec rs)\<rparr>"

text \<open>\<open>getattr\<close> reads the inode number into a local variable.\<close>

definition powerfs_net_getattr ::
  "mrpc \<Rightarrow> bool \<Rightarrow> (layout_alloc \<Rightarrow> bool) \<Rightarrow> u64 \<Rightarrow> net_attrs \<times> net_rstat \<Rightarrow> int \<times> net_attrs \<times> net_rstat" where
  "powerfs_net_getattr rpc mem alloc ino outs =
    (if \<not> mem then (- ENOMEM, outs)
     else
       let (ret, resp) = rpc MSG_GETATTR ino 10000 (emit 64 [U64 FLD_INO ino])
       in if ret \<noteq> 0 then (rpc_errno ret, outs)
          else if length resp = 0 then (0, outs)
          else
            let (out, rs) = outs;
                (out', dec) = dec_attrs (resp_decoder resp) out
            in (0, dec_location alloc dec (out'\<lparr>na_ino := na_ino out\<rparr>), dec_rstat dec rs))"

section \<open>Creating files and directories\<close>

text \<open>The client name is sent with the length 15, so with the terminating NUL of the literal.\<close>

definition powerfs_kernel :: bytes where
  "powerfs_kernel = [112, 111, 119, 101, 114, 102, 115, 45, 107, 101, 114, 110, 101, 108, 0]"

definition alloc_batch_items :: "u64 \<Rightarrow> u32 \<Rightarrow> tlv_item list" where
  "alloc_batch_items shard cnt = [U64 FLD_SHARD_ID shard, U32 FLD_COUNT cnt, Str FLD_CLIENT_ID powerfs_kernel]"

definition powerfs_net_alloc_inode_batch :: "mrpc \<Rightarrow> u64 \<Rightarrow> u32 \<Rightarrow> u64 \<Rightarrow> u64 option \<Rightarrow> int \<times> u64 \<times> u64 option" where
  "powerfs_net_alloc_inode_batch rpc shard cnt start_ino end_ino =
    (let (ret, resp) = rpc MSG_ALLOC_INODE_BATCH shard POWERFS_META_TIMEOUT_MS (emit 256 (alloc_batch_items shard cnt))
     in if ret \<noteq> 0 then (rpc_errno ret, start_ino, end_ino)
        else if length resp = 0 then (- EREMOTEIO, start_ino, end_ino)
        else
          (case find_u64 (resp_decoder resp) FLD_START_INODE of
             None \<Rightarrow> (- EREMOTEIO, start_ino, end_ino)
           | Some s \<Rightarrow>
               if s = 0 then (- EREMOTEIO, s, end_ino)
               else (0, s, set_out (find_u64 (resp_decoder resp) FLD_END_INODE) end_ino)))"

record dirty_create =
  dc_ino :: u64
  dc_parent_ino :: u64
  dc_mode :: u32
  dc_uid :: u32
  dc_gid :: u32
  dc_name :: bytes
  dc_mtime :: u64
  dc_atime :: u64
  dc_placement_out :: u8

definition batch_create_entry :: "dirty_create \<Rightarrow> tlv_item list" where
  "batch_create_entry e =
    [U64 FLD_INO (dc_ino e), U64 FLD_PARENT_INO (dc_parent_ino e), Str FLD_NAME (dc_name e), U32 FLD_MODE (dc_mode e),
     U32 FLD_UID (dc_uid e), U32 FLD_GID (dc_gid e)]
    @ (if dc_mtime e \<noteq> 0 then [U64 FLD_MTIME (dc_mtime e)] else [])
    @ (if dc_atime e \<noteq> 0 then [U64 FLD_ATIME (dc_atime e)] else [])"

definition batch_create_request :: "u64 \<Rightarrow> dirty_create list \<Rightarrow> bytes" where
  "batch_create_request shard es =
    emit (64 + length es * (80 + NAME_MAX + 1))
      ([U64 FLD_SHARD_ID shard, U32 FLD_COUNT (of_nat (length es))]
       @ map (\<lambda>e. Raw FLD_ENTRY (emit (80 + NAME_MAX + 1) (batch_create_entry e))) es)"

fun set_placement :: "u64 \<Rightarrow> u8 \<Rightarrow> dirty_create list \<Rightarrow> dirty_create list" where
  "set_placement pino ptag [] = []" |
  "set_placement pino ptag (e # es) =
    (if dc_ino e = pino then e\<lparr>dc_placement_out := ptag\<rparr> # es else e # set_placement pino ptag es)"

text \<open>The skip over a value whose header \<open>dec_next\<close> has accepted: the value lies inside of the buffer, so that
  \<open>powerfs_tlv_dec_skip\<close> always moves past it.\<close>

definition skip_value :: "tlv_dec \<Rightarrow> nat \<Rightarrow> tlv_dec" where
  "skip_value dec flen = dec\<lparr>td_pos := td_pos dec + flen\<rparr>"

lemma skip_value_eq:
  "td_pos dec + flen \<le> td_len dec \<Longrightarrow> td_len dec < 2 ^ 64 \<Longrightarrow> powerfs_tlv_dec_skip dec flen = (0, skip_value dec flen)"
  by (simp add: powerfs_tlv_dec_skip_def skip_value_def)

function batch_create_backfill :: "tlv_dec \<Rightarrow> dirty_create list \<Rightarrow> dirty_create list" where
  "batch_create_backfill dec es =
    (if powerfs_tlv_dec_is_empty dec then es
     else case powerfs_tlv_dec_next dec of
       (ret, Some (field, flen), dec') \<Rightarrow>
         if ret < 0 then es
         else if field \<noteq> FLD_ENTRY then batch_create_backfill (skip_value dec' flen) es
         else
           let edec = powerfs_tlv_dec_init (drop (td_pos dec') (td_buf dec')) flen;
               (pino, edec) = dec_or 0 (powerfs_tlv_dec_u64 edec FLD_INO);
               (ptag, edec) = dec_or 0 (powerfs_tlv_dec_u8 edec FLD_PLACEMENT)
           in batch_create_backfill (skip_value dec' flen) (set_placement pino ptag es)
     | (ret, None, dec') \<Rightarrow> es)"
  by pat_completeness auto
termination
  by (relation "measure (\<lambda>(dec, es). td_len dec - td_pos dec)")
     (auto simp: powerfs_tlv_dec_next_def skip_value_def powerfs_tlv_dec_is_empty_def Let_def split: if_splits)

declare batch_create_backfill.simps [simp del]

definition powerfs_net_batch_create ::
  "mrpc \<Rightarrow> bool \<Rightarrow> bool \<Rightarrow> u64 \<Rightarrow> dirty_create list \<Rightarrow> u32 option \<Rightarrow> int \<times> dirty_create list \<times> u32 option" where
  "powerfs_net_batch_create rpc mem_body mem_resp shard es flushed =
    (if es = [] then (0, es, set_out (Some 0) flushed)
     else if \<not> mem_body \<or> \<not> mem_resp then (- ENOMEM, es, flushed)
     else
       let (ret, resp) = rpc MSG_BATCH_CREATE shard POWERFS_META_TIMEOUT_MS (batch_create_request shard es)
       in if ret \<noteq> 0 then (rpc_errno ret, es, flushed)
          else
            let flushed = set_out (Some (of_nat (length es))) flushed
            in if length resp = 0 then (0, es, flushed)
               else
                 let dec = resp_decoder resp
                 in (case flushed of
                       None \<Rightarrow> (0, batch_create_backfill dec es, None)
                     | Some n \<Rightarrow>
                         let (n, dec) = dec_or n (powerfs_tlv_dec_find_u32 dec FLD_COUNT)
                         in (0, batch_create_backfill dec es, Some n)))"

text \<open>Creating sends up to three requests, so its transport carries the state \<open>w\<close> of the servers.\<close>

type_synonym 'w wrpc = "u16 \<Rightarrow> u64 \<Rightarrow> int \<Rightarrow> bytes \<Rightarrow> 'w \<Rightarrow> (int \<times> bytes) \<times> 'w"

record create_out =
  co_ino :: "u64 option"
  co_volume_id :: "u64 option"
  co_file_key :: "u64 option"
  co_layout :: "file_layout option"

definition phase_a_items :: "u64 \<Rightarrow> u64 \<Rightarrow> u64 \<Rightarrow> bytes \<Rightarrow> u32 \<Rightarrow> u32 \<Rightarrow> u32 \<Rightarrow> tlv_item list" where
  "phase_a_items target_shard ino dir_ino name mode uid gid =
    [U64 FLD_SHARD_ID target_shard, U64 FLD_INO ino, U64 FLD_PARENT_INO dir_ino, Str FLD_NAME name,
     U64 FLD_MODE (ucast mode), U64 FLD_UID (ucast uid), U64 FLD_GID (ucast gid)]"

definition phase_b_items :: "u64 \<Rightarrow> u64 \<Rightarrow> u64 \<Rightarrow> bytes \<Rightarrow> u32 \<Rightarrow> u32 \<Rightarrow> u32 \<Rightarrow> tlv_item list" where
  "phase_b_items parent_shard ino dir_ino name mode uid gid =
    [U64 FLD_SHARD_ID parent_shard, U64 FLD_PARENT_INO dir_ino, Str FLD_NAME name, U64 FLD_INO ino,
     U64 FLD_MODE (ucast mode), U64 FLD_UID (ucast uid), U64 FLD_GID (ucast gid)]"

definition mkdir_two_phase ::
  "'w wrpc \<Rightarrow> u64 \<Rightarrow> u64 \<Rightarrow> u64 \<Rightarrow> bytes \<Rightarrow> u32 \<Rightarrow> u32 \<Rightarrow> u32 \<Rightarrow> create_out \<Rightarrow> 'w \<Rightarrow> (int \<times> create_out) \<times> 'w" where
  "mkdir_two_phase rpc parent_shard target_shard dir_ino name mode uid gid out w =
    (let ((ret, resp), w) = rpc MSG_ALLOC_INODE_BATCH target_shard POWERFS_META_TIMEOUT_MS
           (emit 128 (alloc_batch_items target_shard 1)) w
     in if ret \<noteq> 0 then ((rpc_errno ret, out), w)
        else if length resp = 0 then ((- EREMOTEIO, out), w)
        else
          (case find_u64 (resp_decoder resp) FLD_START_INODE of
             None \<Rightarrow> ((- EREMOTEIO, out), w)
           | Some ino \<Rightarrow>
               if ino = 0 then ((- EREMOTEIO, out), w)
               else
                 let ((ret, resp), w) = rpc MSG_MKDIR_PHASE_A target_shard POWERFS_META_TIMEOUT_MS
                       (emit 512 (phase_a_items target_shard ino dir_ino name mode uid gid)) w
                 in if ret \<noteq> 0 then ((rpc_errno ret, out), w)
                    else
                      let out = (if length resp > 0
                                 then out\<lparr>co_ino := set_out (find_u64 (resp_decoder resp) FLD_INO) (co_ino out)\<rparr> else out);
                          ((ret, resp), w) = rpc MSG_MKDIR_PHASE_B parent_shard POWERFS_META_TIMEOUT_MS
                            (emit 512 (phase_b_items parent_shard ino dir_ino name mode uid gid)) w
                      in ((rpc_errno ret, out), w)))"

definition create_items :: "u64 \<Rightarrow> bytes \<Rightarrow> u32 \<Rightarrow> u32 \<Rightarrow> u32 \<Rightarrow> bool \<Rightarrow> tlv_item list" where
  "create_items dir_ino name mode uid gid is_dir =
    [U64 FLD_PARENT_INO dir_ino, Str FLD_NAME name]
    @ (if is_dir then [U64 FLD_MODE (ucast mode), U64 FLD_UID (ucast uid), U64 FLD_GID (ucast gid)]
       else [U32 FLD_MODE mode, U32 FLD_UID uid, U32 FLD_GID gid])
    @ [U8 FLD_IS_DIR (if is_dir then 1 else 0)]"

definition create_single ::
  "'w wrpc \<Rightarrow> (layout_alloc \<Rightarrow> bool) \<Rightarrow> u64 \<Rightarrow> bytes \<Rightarrow> u32 \<Rightarrow> u32 \<Rightarrow> u32 \<Rightarrow> bool \<Rightarrow> create_out \<Rightarrow> 'w \<Rightarrow>
    (int \<times> create_out) \<times> 'w" where
  "create_single rpc alloc dir_ino name mode uid gid is_dir out w =
    (let ((ret, resp), w) = rpc (if is_dir then MSG_MKDIR else MSG_CREATE) dir_ino POWERFS_META_TIMEOUT_MS
           (emit 512 (create_items dir_ino name mode uid gid is_dir)) w
     in if ret \<noteq> 0 then ((rpc_errno ret, out), w)
        else if length resp = 0 then ((0, out), w)
        else
          let dec = resp_decoder resp
          in ((0, \<lparr>co_ino = set_out (find_u64 dec FLD_INO) (co_ino out),
                   co_volume_id = set_out (find_u64 dec FLD_VOLUME_ID) (co_volume_id out),
                   co_file_key = set_out (find_u64 dec FLD_FILE_KEY) (co_file_key out),
                   co_layout = map_option (\<lambda>_. parse_file_layout alloc dec) (co_layout out)\<rparr>), w))"

definition mkdir_target :: "u64 \<Rightarrow> u64 \<Rightarrow> u64" where
  "mkdir_target count0 parent_shard =
    (let cnt = (if count0 < 1 then 1 else count0)
     in if cnt \<le> 1 then parent_shard else (parent_shard + 1) mod cnt)"

definition powerfs_net_create ::
  "'w wrpc \<Rightarrow> bool \<Rightarrow> (layout_alloc \<Rightarrow> bool) \<Rightarrow> u64 \<Rightarrow> u64 \<Rightarrow> bytes \<Rightarrow> u32 \<Rightarrow> u32 \<Rightarrow> u32 \<Rightarrow> bool \<Rightarrow> create_out \<Rightarrow> 'w \<Rightarrow>
    (int \<times> create_out) \<times> 'w" where
  "powerfs_net_create rpc mem alloc nshards dir_ino name mode uid gid is_dir out w =
    (if \<not> mem then ((- ENOMEM, out), w)
     else
       let parent_shard = powerfs_calc_shard_id nshards dir_ino;
           target_shard = mkdir_target nshards parent_shard
       in if is_dir \<and> target_shard \<noteq> parent_shard
          then mkdir_two_phase rpc parent_shard target_shard dir_ino name mode uid gid out w
          else create_single rpc alloc dir_ino name mode uid gid is_dir out w)"

section \<open>Names\<close>

definition strstr :: "bytes \<Rightarrow> bytes \<Rightarrow> bool" where
  "strstr hay pat = list_ex (\<lambda>i. take (length pat) (drop i hay) = pat) [0..<length hay + 1]"

definition not_empty_str :: bytes where
  "not_empty_str = [110, 111, 116, 32, 101, 109, 112, 116, 121]"

definition powerfs_net_unlink :: "mrpc \<Rightarrow> u64 \<Rightarrow> bytes \<Rightarrow> bool \<Rightarrow> int" where
  "powerfs_net_unlink rpc dir_ino name is_dir =
    (let (ret, resp) = rpc (if is_dir then MSG_RMDIR else MSG_UNLINK) dir_ino POWERFS_META_TIMEOUT_MS
           (emit 512 [U64 FLD_PARENT_INO dir_ino, Str FLD_NAME name])
     in if ret = 10 \<and> length resp > 0 then
          let (r, err_str, _) = powerfs_tlv_dec_string (resp_decoder resp) FLD_NAME (replicate 128 0) 128
          in if r = 0 \<and> strstr (cstr err_str) not_empty_str then - ENOTEMPTY else rpc_errno ret
        else rpc_errno ret)"

definition rename_items :: "u64 \<Rightarrow> bytes \<Rightarrow> u64 \<Rightarrow> bytes \<Rightarrow> tlv_item list" where
  "rename_items old_dir_ino old_name new_dir_ino new_name =
    [U64 FLD_PARENT_INO old_dir_ino, Str FLD_NAME old_name, U64 FLD_NEW_PARENT_INO new_dir_ino, Str FLD_NEW_NAME new_name]"

definition powerfs_net_rename :: "mrpc \<Rightarrow> u64 \<Rightarrow> bytes \<Rightarrow> u64 \<Rightarrow> bytes \<Rightarrow> int" where
  "powerfs_net_rename rpc old_dir_ino old_name new_dir_ino new_name =
    rpc_errno (fst (rpc MSG_RENAME old_dir_ino POWERFS_META_TIMEOUT_MS
      (emit 512 (rename_items old_dir_ino old_name new_dir_ino new_name))))"

definition symlink_items :: "u64 \<Rightarrow> bytes \<Rightarrow> bytes \<Rightarrow> tlv_item list" where
  "symlink_items dir_ino name target = [U64 FLD_PARENT_INO dir_ino, Str FLD_NAME name, Str FLD_SYMLINK_TARGET target]"

definition powerfs_net_symlink :: "mrpc \<Rightarrow> u64 \<Rightarrow> bytes \<Rightarrow> bytes \<Rightarrow> u64 \<Rightarrow> int \<times> u64" where
  "powerfs_net_symlink rpc dir_ino name target ino_ret =
    (let (ret, resp) = rpc MSG_SYMLINK dir_ino POWERFS_META_TIMEOUT_MS (emit 512 (symlink_items dir_ino name target))
     in if ret \<noteq> 0 then (rpc_errno ret, ino_ret)
        else if length resp = 0 then (0, ino_ret)
        else (0, found_or ino_ret (powerfs_tlv_dec_u64 (resp_decoder resp) FLD_INO)))"

definition powerfs_net_readlink :: "mrpc \<Rightarrow> u64 \<Rightarrow> bytes \<Rightarrow> int \<times> bytes" where
  "powerfs_net_readlink rpc ino target =
    (let (ret, resp) = rpc MSG_READLINK ino 2000 (emit 64 [U64 FLD_INO ino])
     in if ret \<noteq> 0 then (rpc_errno ret, target)
        else if length resp = 0 then (0, target)
        else (0, fst (snd (powerfs_tlv_dec_string (resp_decoder resp) FLD_SYMLINK_TARGET target (length target)))))"

definition powerfs_net_link :: "mrpc \<Rightarrow> u64 \<Rightarrow> u64 \<Rightarrow> bytes \<Rightarrow> int" where
  "powerfs_net_link rpc ino dir_ino name =
    rpc_errno (fst (rpc MSG_LINK dir_ino POWERFS_META_TIMEOUT_MS
      (emit 512 [U64 FLD_INO ino, U64 FLD_PARENT_INO dir_ino, Str FLD_NAME name])))"

definition powerfs_net_setattr :: "mrpc \<Rightarrow> u64 \<Rightarrow> u32 \<Rightarrow> u32 \<Rightarrow> u32 \<Rightarrow> u32 \<Rightarrow> u64 \<Rightarrow> u64 \<Rightarrow> u64 \<Rightarrow> int" where
  "powerfs_net_setattr rpc ino valid mode uid gid sz mtime atime =
    rpc_errno (fst (rpc MSG_SETATTR ino 2000 (emit 128
      ([U64 FLD_INO ino]
       @ (if bit valid 0 then [U32 FLD_MODE mode] else []) @ (if bit valid 1 then [U32 FLD_UID uid] else [])
       @ (if bit valid 2 then [U32 FLD_GID gid] else []) @ (if bit valid 3 then [U64 FLD_SIZE sz] else [])
       @ (if bit valid 5 then [U64 FLD_MTIME mtime] else []) @ (if bit valid 4 then [U64 FLD_ATIME atime] else [])))))"

section \<open>Size and layout\<close>

definition size_chunk_ref :: "nat \<Rightarrow> chunk_map \<Rightarrow> bytes" where
  "size_chunk_ref i cm =
    le64 (of_nat i * POWERFS_CHUNK_SIZE) @ le64 (cm_size cm) @ le64 (cm_needle_id cm) @ le64 (cm_volume_id cm)
    @ le32 (cm_crc32 cm) @ le64 0"

text \<open>The contents of the layout buffer; \<open>junk\<close> is what the allocation holds where nothing is stored.\<close>

definition size_chunk_layout :: "bytes \<Rightarrow> chunk_map list option \<Rightarrow> u32 \<Rightarrow> bytes" where
  "size_chunk_layout junk chunks chunk_count =
    1 # le32 chunk_count
    @ (case chunks of
         Some cs \<Rightarrow> concat (map (\<lambda>i. size_chunk_ref i (cs ! i)) [0..<unat chunk_count])
       | None \<Rightarrow> take (unat chunk_count * 44) junk)"

definition size_chunks_items ::
  "bytes \<Rightarrow> u64 \<Rightarrow> u64 \<Rightarrow> u64 \<Rightarrow> bytes option \<Rightarrow> chunk_map list option \<Rightarrow> u32 \<Rightarrow> bytes option \<Rightarrow> tlv_item list" where
  "size_chunks_items junk shard ino sz client_id chunks chunk_count inline_data =
    [U64 FLD_SHARD_ID shard, U64 FLD_INO ino, U64 FLD_SIZE sz,
     Str FLD_CLIENT_ID (case client_id of Some c \<Rightarrow> c | None \<Rightarrow> [107, 101, 114, 110, 101, 108])]
    @ (case inline_data of
         Some d \<Rightarrow>
           if d \<noteq> [] then
             [U8 FLD_PLACEMENT PLACEMENT_INLINE, Raw FLD_RELIABILITY [0], U8 FLD_RELIABILITY_STATE 0,
              Raw FLD_INLINE_DATA d, U32 FLD_INLINE_MAX_SIZE (of_nat POWERFS_INLINE_MAX_SIZE)]
           else
             [U8 FLD_PLACEMENT PLACEMENT_FLAT, Raw FLD_RELIABILITY [0], U8 FLD_RELIABILITY_STATE 0,
              Raw FLD_CHUNK_LAYOUT (size_chunk_layout junk chunks chunk_count)]
       | None \<Rightarrow>
           [U8 FLD_PLACEMENT PLACEMENT_FLAT, Raw FLD_RELIABILITY [0], U8 FLD_RELIABILITY_STATE 0,
            Raw FLD_CHUNK_LAYOUT (size_chunk_layout junk chunks chunk_count)])"

definition powerfs_net_update_inode_size_chunks ::
  "mrpc \<Rightarrow> bool \<Rightarrow> bytes option \<Rightarrow> u64 \<Rightarrow> u64 \<Rightarrow> u64 \<Rightarrow> bytes option \<Rightarrow> chunk_map list option \<Rightarrow> u32 \<Rightarrow> bytes option \<Rightarrow> int" where
  "powerfs_net_update_inode_size_chunks rpc mem layout_buf shard ino sz client_id chunks chunk_count inline_data =
    (if \<not> mem then - ENOMEM
     else case layout_buf of
       None \<Rightarrow> - ENOMEM
     | Some junk \<Rightarrow>
         rpc_errno (fst (rpc MSG_UPDATE_INODE_SIZE_CHUNKS ino POWERFS_META_TIMEOUT_MS
           (emit (256 + unat chunk_count * 44 + 64 + (case inline_data of Some d \<Rightarrow> length d | None \<Rightarrow> 0))
             (size_chunks_items junk shard ino sz client_id chunks chunk_count inline_data)))))"

section \<open>Migration of inline data\<close>

record migrate_alloc =
  ma_is_stripe :: bool
  ma_volume_id :: u64
  ma_file_key :: u64
  ma_stripe_size :: u64
  ma_stripe_count :: u32
  ma_allocs :: "(u64 \<times> u64) list"

definition migrate_zero :: migrate_alloc where
  "migrate_zero = \<lparr>ma_is_stripe = False, ma_volume_id = 0, ma_file_key = 0, ma_stripe_size = 0, ma_stripe_count = 0,
    ma_allocs = []\<rparr>"

function migrate_pairs :: "nat \<Rightarrow> tlv_dec \<Rightarrow> u64 \<Rightarrow> (u64 \<times> u64) list \<Rightarrow> (u64 \<times> u64) list" where
  "migrate_pairs stripe_count dec vid got =
    (if powerfs_tlv_dec_is_empty dec \<or> length got \<ge> stripe_count then got
     else case powerfs_tlv_dec_next dec of
       (ret, Some (cur_field, cur_len), dec') \<Rightarrow>
         if ret < 0 then got
         else
           let u64val = get_le64 (subarr (td_pos dec') 8 (td_buf dec')); dec'' = skip_value dec' cur_len
           in if cur_len = 8 \<and> cur_field = FLD_VOLUME_ID then migrate_pairs stripe_count dec'' u64val got
              else if cur_len = 8 \<and> cur_field = FLD_FILE_KEY
              then migrate_pairs stripe_count dec'' 0 (got @ [(vid, u64val)])
              else migrate_pairs stripe_count dec'' vid got
     | (ret, None, dec') \<Rightarrow> got)"
  by pat_completeness auto
termination
  by (relation "measure (\<lambda>(n, dec, vid, got). td_len dec - td_pos dec)")
     (auto simp: powerfs_tlv_dec_next_def skip_value_def powerfs_tlv_dec_is_empty_def Let_def split: if_splits)

declare migrate_pairs.simps [simp del]

definition migrate_flat :: "tlv_dec \<Rightarrow> int \<times> migrate_alloc" where
  "migrate_flat dec =
    (case find_u64 dec FLD_VOLUME_ID of
       None \<Rightarrow> (- EPROTO, migrate_zero)
     | Some v \<Rightarrow>
         (case find_u64 dec FLD_FILE_KEY of
            None \<Rightarrow> (- EPROTO, migrate_zero)
          | Some k \<Rightarrow> (0, migrate_zero\<lparr>ma_volume_id := v, ma_file_key := k\<rparr>)))"

definition migrate_stripe :: "bool \<Rightarrow> tlv_dec \<Rightarrow> u32 \<Rightarrow> int \<times> migrate_alloc" where
  "migrate_stripe mem_allocs dec cnt =
    (if cnt > 16 then (- EPROTO, migrate_zero)
     else if \<not> mem_allocs then (- ENOMEM, migrate_zero)
     else
       let got = migrate_pairs (unat cnt) dec 0 []
       in if length got \<noteq> unat cnt then (- EPROTO, migrate_zero)
          else (0, migrate_zero\<lparr>ma_is_stripe := True,
                 ma_stripe_size := (case find_u64 dec FLD_STRIPE_SIZE of Some v \<Rightarrow> v | None \<Rightarrow> 0),
                 ma_stripe_count := cnt, ma_allocs := got\<rparr>))"

text \<open>Without an output structure the call is refused; otherwise the structure is cleared first.\<close>

definition powerfs_net_migrate_inline_alloc ::
  "mrpc \<Rightarrow> bool \<Rightarrow> bool \<Rightarrow> u64 \<Rightarrow> u64 \<Rightarrow> bool \<Rightarrow> migrate_alloc option \<Rightarrow> int \<times> migrate_alloc option" where
  "powerfs_net_migrate_inline_alloc rpc mem mem_allocs shard ino desired_stripe out =
    (if out = None then (- EINVAL, None)
     else if \<not> mem then (- ENOMEM, Some migrate_zero)
     else
       let (ret, resp) = rpc MSG_MIGRATE_INLINE_ALLOC ino POWERFS_META_TIMEOUT_MS
             (emit 64 [U64 FLD_SHARD_ID shard, U64 FLD_INO ino, U8 FLD_DESIRED_MODE (if desired_stripe then 1 else 0)])
       in if ret \<noteq> 0 then (rpc_errno ret, Some migrate_zero)
          else
            let dec = resp_decoder resp;
                (r, o') = (case find_u32 dec FLD_STRIPE_COUNT of
                  Some cnt \<Rightarrow> if cnt > 0 then migrate_stripe mem_allocs dec cnt else migrate_flat dec
                | None \<Rightarrow> migrate_flat dec)
            in (r, Some o'))"

section \<open>Directories\<close>

record dir_entry =
  de_ino :: u64
  de_name :: bytes
  de_mode :: u32
  de_uid :: u32
  de_gid :: u32
  de_size :: u64
  de_atime :: u64
  de_mtime :: u64
  de_ctime :: u64
  de_nlink :: u32

definition decode_dir_entry :: "tlv_dec \<Rightarrow> dir_entry" where
  "decode_dir_entry edec =
    (let (ino, edec) = dec_or 0 (powerfs_tlv_dec_u64 edec FLD_INO);
         (_, name, edec) = powerfs_tlv_dec_string edec FLD_NAME (replicate 256 0) 256;
         (mode, edec) = dec_or 0 (powerfs_tlv_dec_u32 edec FLD_MODE);
         (uid, edec) = dec_or 0 (powerfs_tlv_dec_u32 edec FLD_UID);
         (gid, edec) = dec_or 0 (powerfs_tlv_dec_u32 edec FLD_GID);
         (sz, edec) = dec_or 0 (powerfs_tlv_dec_u64 edec FLD_SIZE);
         (atime, edec) = dec_or 0 (powerfs_tlv_dec_u64 edec FLD_ATIME);
         (mtime, edec) = dec_or 0 (powerfs_tlv_dec_u64 edec FLD_MTIME);
         (ctime, edec) = dec_or 0 (powerfs_tlv_dec_u64 edec FLD_CTIME);
         (nlink, edec) = dec_or 0 (powerfs_tlv_dec_u32 edec FLD_NLINK)
     in \<lparr>de_ino = ino, de_name = name, de_mode = mode, de_uid = uid, de_gid = gid, de_size = sz, de_atime = atime,
         de_mtime = mtime, de_ctime = ctime, de_nlink = nlink\<rparr>)"

text \<open>The entries stored so far are the first ones of the caller's array; their number is \<open>*actual_count\<close>.\<close>

function readdir_entries :: "nat \<Rightarrow> tlv_dec \<Rightarrow> dir_entry list \<Rightarrow> dir_entry list" where
  "readdir_entries cnt dec acc =
    (if cnt = 0 \<or> powerfs_tlv_dec_is_empty dec then acc
     else case powerfs_tlv_dec_next dec of
       (ret, Some (field, flen), dec') \<Rightarrow>
         if ret < 0 then acc
         else if field \<noteq> FLD_ENTRY then readdir_entries cnt (skip_value dec' flen) acc
         else readdir_entries (cnt - 1) (skip_value dec' flen)
                (acc @ [decode_dir_entry (powerfs_tlv_dec_init (drop (td_pos dec') (td_buf dec')) flen)])
     | (ret, None, dec') \<Rightarrow> acc)"
  by pat_completeness auto
termination
  by (relation "measure (\<lambda>(n, dec, acc). td_len dec - td_pos dec)")
     (auto simp: powerfs_tlv_dec_next_def skip_value_def powerfs_tlv_dec_is_empty_def Let_def split: if_splits)

declare readdir_entries.simps [simp del]

definition powerfs_net_readdir_timeout ::
  "mrpc \<Rightarrow> bool \<Rightarrow> u64 \<Rightarrow> bytes option \<Rightarrow> u64 \<Rightarrow> u32 \<Rightarrow> int \<Rightarrow> int \<times> dir_entry list \<times> bool" where
  "powerfs_net_readdir_timeout rpc mem dir_ino last_name limit max_entries timeout_ms =
    (if \<not> mem then (- ENOMEM, [], False)
     else
       let (ret, resp) = rpc MSG_READDIR dir_ino timeout_ms
             (emit 512 ([U64 FLD_PARENT_INO dir_ino, U64 FLD_LIMIT limit]
               @ (case last_name of Some n \<Rightarrow> if n \<noteq> [] then [Str FLD_LAST_NAME n] else [] | None \<Rightarrow> [])))
       in if ret \<noteq> 0 then (rpc_errno ret, [], False)
          else if length resp = 0 then (0, [], False)
          else
            let (cnt, dec) = dec_or 0 (powerfs_tlv_dec_u32 (resp_decoder resp) FLD_COUNT);
                (has, dec) = dec_or 0 (powerfs_tlv_dec_u64 dec FLD_HAS_MORE)
            in (0, readdir_entries (unat (min cnt max_entries)) dec [], has \<noteq> 0))"

definition powerfs_net_readdir ::
  "mrpc \<Rightarrow> bool \<Rightarrow> u64 \<Rightarrow> bytes option \<Rightarrow> u64 \<Rightarrow> u32 \<Rightarrow> int \<times> dir_entry list \<times> bool" where
  "powerfs_net_readdir rpc mem dir_ino last_name limit max_entries =
    powerfs_net_readdir_timeout rpc mem dir_ino last_name limit max_entries POWERFS_READDIR_TIMEOUT_MS"

section \<open>Reading serialised responses\<close>

lemma resp_decoder_ser:
  "tlv_dec_wf (powerfs_tlv_dec_init b (length b))" "dec_rest (powerfs_tlv_dec_init b (length b)) = b"
  by (simp_all add: tlv_dec_wf_def dec_rest_def powerfs_tlv_dec_init_def)

lemma after_field:
  assumes "tlv_dec_wf d" "dec_rest d = tlv_field f v @ r" "length v < 2 ^ 32"
  shows "tlv_dec_wf (d\<lparr>td_pos := td_pos d + 5 + length v\<rparr>)" "dec_rest (d\<lparr>td_pos := td_pos d + 5 + length v\<rparr>) = r"
  using assms hdr_fits [OF assms] hdr_tail [OF assms] by (simp_all add: tlv_dec_wf_def)

lemma dec_or_u64:
  assumes "tlv_dec_wf d" "dec_rest d = tlv_field f (le64 v) @ r"
  obtains d' where "dec_or old (powerfs_tlv_dec_u64 d f) = (v, d')" "tlv_dec_wf d'" "dec_rest d' = r"
  using dec_u64_laws(2) [OF assms] after_field [OF assms] that by (simp add: dec_or_def found_or_def)

lemma dec_or_u32:
  assumes "tlv_dec_wf d" "dec_rest d = tlv_field f (le32 v) @ r"
  obtains d' where "dec_or old (powerfs_tlv_dec_u32 d f) = (v, d')" "tlv_dec_wf d'" "dec_rest d' = r"
  using dec_u32_laws(2) [OF assms] after_field [OF assms] that by (simp add: dec_or_def found_or_def)

lemma wr_bytes_zeros:
  "length v < n \<Longrightarrow> wr_bytes 0 v (replicate n 0) = v @ replicate (n - length v) 0"
  using append_take_drop_id [of "length v" "wr_bytes 0 v (replicate n 0)"]
    take_wr_bytes [of 0 v "replicate n 0"] drop_wr_bytes [of 0 v "length v" "replicate n 0"] by simp

lemma dec_string_field:
  assumes "tlv_dec_wf d" "dec_rest d = tlv_field f v @ r" "length v < n" "n < 2 ^ 32"
  obtains d' where "powerfs_tlv_dec_string d f (replicate n 0) n = (0, v @ replicate (n - length v) 0, d')"
    "tlv_dec_wf d'" "dec_rest d' = r"
proof -
  have l: "length v < 2 ^ 32" using assms(3,4) by simp
  have "(v @ replicate (n - length v) (0 :: u8))[length v := 0] = v @ replicate (n - length v) 0"
    using assms(3) by (cases "n - length v") (simp_all add: list_update_append)
  moreover have "(replicate n (0 :: u8))[0 := 0] = replicate n 0" by (cases n) simp_all
  ultimately have "powerfs_tlv_dec_string d f (replicate n 0) n =
      (0, v @ replicate (n - length v) 0, d\<lparr>td_pos := td_pos d + 5 + length v\<rparr>)"
    using assms(3) dec_read_field [OF assms(1,2) l, of 0] hdr_value [OF assms(1,2) l]
    by (simp add: powerfs_tlv_dec_string_def wr_bytes_zeros)
  then show thesis using that after_field [OF assms(1,2) l] by blast
qed

definition dir_entry_ser :: "dir_entry \<Rightarrow> bytes" where
  "dir_entry_ser e = tlv_ser
    [(FLD_INO, le64 (de_ino e)), (FLD_NAME, de_name e), (FLD_MODE, le32 (de_mode e)), (FLD_UID, le32 (de_uid e)),
     (FLD_GID, le32 (de_gid e)), (FLD_SIZE, le64 (de_size e)), (FLD_ATIME, le64 (de_atime e)),
     (FLD_MTIME, le64 (de_mtime e)), (FLD_CTIME, le64 (de_ctime e)), (FLD_NLINK, le32 (de_nlink e))]"

definition pad_name :: "dir_entry \<Rightarrow> dir_entry" where
  "pad_name e = e\<lparr>de_name := de_name e @ replicate (256 - length (de_name e)) 0\<rparr>"

lemma decode_dir_entry_ser:
  assumes "tlv_dec_wf d" "dec_rest d = dir_entry_ser e" "length (de_name e) < 256"
  shows "decode_dir_entry d = pad_name e"
proof -
  let ?r10 = "tlv_field FLD_NLINK (le32 (de_nlink e)) @ []"
  let ?r9 = "tlv_field FLD_CTIME (le64 (de_ctime e)) @ ?r10"
  let ?r8 = "tlv_field FLD_MTIME (le64 (de_mtime e)) @ ?r9"
  let ?r7 = "tlv_field FLD_ATIME (le64 (de_atime e)) @ ?r8"
  let ?r6 = "tlv_field FLD_SIZE (le64 (de_size e)) @ ?r7"
  let ?r5 = "tlv_field FLD_GID (le32 (de_gid e)) @ ?r6"
  let ?r4 = "tlv_field FLD_UID (le32 (de_uid e)) @ ?r5"
  let ?r3 = "tlv_field FLD_MODE (le32 (de_mode e)) @ ?r4"
  let ?r2 = "tlv_field FLD_NAME (de_name e) @ ?r3"
  have r: "dec_rest d = tlv_field FLD_INO (le64 (de_ino e)) @ ?r2" using assms(2) by (simp add: dir_entry_ser_def)
  obtain d1 where 1: "dec_or 0 (powerfs_tlv_dec_u64 d FLD_INO) = (de_ino e, d1)" "tlv_dec_wf d1" "dec_rest d1 = ?r2"
    by (rule dec_or_u64 [OF assms(1) r])
  obtain d2 where 2: "powerfs_tlv_dec_string d1 FLD_NAME (replicate 256 0) 256 =
      (0, de_name e @ replicate (256 - length (de_name e)) 0, d2)" "tlv_dec_wf d2" "dec_rest d2 = ?r3"
    by (rule dec_string_field [OF 1(2,3) assms(3)]) simp
  obtain d3 where 3: "dec_or 0 (powerfs_tlv_dec_u32 d2 FLD_MODE) = (de_mode e, d3)" "tlv_dec_wf d3" "dec_rest d3 = ?r4"
    by (rule dec_or_u32 [OF 2(2,3)])
  obtain d4 where 4: "dec_or 0 (powerfs_tlv_dec_u32 d3 FLD_UID) = (de_uid e, d4)" "tlv_dec_wf d4" "dec_rest d4 = ?r5"
    by (rule dec_or_u32 [OF 3(2,3)])
  obtain d5 where 5: "dec_or 0 (powerfs_tlv_dec_u32 d4 FLD_GID) = (de_gid e, d5)" "tlv_dec_wf d5" "dec_rest d5 = ?r6"
    by (rule dec_or_u32 [OF 4(2,3)])
  obtain d6 where 6: "dec_or 0 (powerfs_tlv_dec_u64 d5 FLD_SIZE) = (de_size e, d6)" "tlv_dec_wf d6" "dec_rest d6 = ?r7"
    by (rule dec_or_u64 [OF 5(2,3)])
  obtain d7 where 7: "dec_or 0 (powerfs_tlv_dec_u64 d6 FLD_ATIME) = (de_atime e, d7)" "tlv_dec_wf d7" "dec_rest d7 = ?r8"
    by (rule dec_or_u64 [OF 6(2,3)])
  obtain d8 where 8: "dec_or 0 (powerfs_tlv_dec_u64 d7 FLD_MTIME) = (de_mtime e, d8)" "tlv_dec_wf d8" "dec_rest d8 = ?r9"
    by (rule dec_or_u64 [OF 7(2,3)])
  obtain d9 where 9: "dec_or 0 (powerfs_tlv_dec_u64 d8 FLD_CTIME) = (de_ctime e, d9)" "tlv_dec_wf d9" "dec_rest d9 = ?r10"
    by (rule dec_or_u64 [OF 8(2,3)])
  obtain d10 where 10: "dec_or 0 (powerfs_tlv_dec_u32 d9 FLD_NLINK) = (de_nlink e, d10)"
    by (rule dec_or_u32 [OF 9(2,3)])
  show ?thesis by (simp add: decode_dir_entry_def 1 2 3 4 5 6 7 8 9 10 pad_name_def)
qed

definition sample_entry :: dir_entry where
  "sample_entry = \<lparr>de_ino = 7, de_name = [97, 98], de_mode = 420, de_uid = 0, de_gid = 0, de_size = 12, de_atime = 1,
    de_mtime = 2, de_ctime = 3, de_nlink = 1\<rparr>"

lemma readdir_entries_ser:
  assumes "\<forall>e \<in> set es. length (de_name e) < 256"
  shows "tlv_dec_wf d \<Longrightarrow> dec_rest d = tlv_ser (map (\<lambda>e. (FLD_ENTRY, dir_entry_ser e)) es) \<Longrightarrow>
    readdir_entries n d acc = acc @ map pad_name (take n es)"
  using assms
proof (induction es arbitrary: d n acc)
  case Nil
  then have "powerfs_tlv_dec_is_empty d" by (simp add: powerfs_tlv_dec_is_empty_def dec_rest_def tlv_dec_wf_def)
  then show ?case by (simp add: readdir_entries.simps)
next
  case (Cons e es)
  let ?v = "dir_entry_ser e" and ?r = "tlv_ser (map (\<lambda>e. (FLD_ENTRY, dir_entry_ser e)) es)"
  have rest: "dec_rest d = tlv_field FLD_ENTRY ?v @ ?r" using Cons.prems(2) by simp
  have nm: "length (de_name e) < 256" using Cons.prems(3) by simp
  have l: "length ?v < 2 ^ 32" using nm by (simp add: dir_entry_ser_def)
  note fits = hdr_fits [OF Cons.prems(1) rest l] and val = hdr_value [OF Cons.prems(1) rest l]
  have ne: "\<not> powerfs_tlv_dec_is_empty d" using fits by (simp add: powerfs_tlv_dec_is_empty_def)
  note nx = dec_next_field [OF Cons.prems(1) rest l] and af = after_field [OF Cons.prems(1) rest l]
  let ?e = "powerfs_tlv_dec_init (drop (td_pos d + 5) (td_buf d)) (length ?v)"
  have "tlv_dec_wf ?e" "dec_rest ?e = ?v"
    using fits val Cons.prems(1) by (simp_all add: tlv_dec_wf_def powerfs_tlv_dec_init_def dec_rest_def subarr_def)
  then have dec: "decode_dir_entry ?e = pad_name e" using decode_dir_entry_ser nm by blast
  show ?case
  proof (cases n)
    case 0
    then show ?thesis by (simp add: readdir_entries.simps)
  next
    case (Suc m)
    have "readdir_entries n d acc = readdir_entries m (d\<lparr>td_pos := td_pos d + 5 + length ?v\<rparr>) (acc @ [pad_name e])"
      using ne nx dec Suc by (subst readdir_entries.simps) (simp add: skip_value_def)
    then show ?thesis using Cons.IH [OF af] Cons.prems(3) Suc by simp
  qed
qed

text \<open>C23: A directory listing is read back exactly: from a response with the number of entries, the continuation mark
  and the entries, the call stores the first entries, as many as the caller's array holds, with every attribute and
  with names of up to 255 bytes, each padded with zeros. The continuation mark is the server's alone: it is not set
  when the array is too small for the entries.\<close>

theorem readdir_decodes:
  assumes "\<forall>e \<in> set es. length (de_name e) < 256" "length es < 2 ^ 32"
  shows "powerfs_net_readdir (\<lambda>_ _ _ _. (0, tlv_ser ([(FLD_COUNT, le32 (of_nat (length es))), (FLD_HAS_MORE, le64 m)]
      @ map (\<lambda>e. (FLD_ENTRY, dir_entry_ser e)) es))) True dir last_name limit max_entries =
    (0, map pad_name (take (unat max_entries) es), m \<noteq> 0)"
proof -
  let ?r = "tlv_ser (map (\<lambda>e. (FLD_ENTRY, dir_entry_ser e)) es)"
  let ?b = "tlv_field FLD_COUNT (le32 (of_nat (length es))) @ tlv_field FLD_HAS_MORE (le64 m) @ ?r"
  obtain d1 where 1: "dec_or 0 (powerfs_tlv_dec_u32 (resp_decoder ?b) FLD_COUNT) = (of_nat (length es), d1)"
    "tlv_dec_wf d1" "dec_rest d1 = tlv_field FLD_HAS_MORE (le64 m) @ ?r"
    by (rule dec_or_u32 [OF resp_decoder_ser])
  obtain d2 where 2: "dec_or 0 (powerfs_tlv_dec_u64 d1 FLD_HAS_MORE) = (m, d2)" "tlv_dec_wf d2" "dec_rest d2 = ?r"
    by (rule dec_or_u64 [OF 1(2,3)])
  have "unat (of_nat (length es) :: u32) = length es" using assms(2) by (intro unat_of_nat_small) simp
  then have "unat (min (of_nat (length es)) max_entries) = min (length es) (unat max_entries)"
    by (auto simp: min_def word_le_nat_alt)
  then have "readdir_entries (unat (min (of_nat (length es)) max_entries)) d2 [] = map pad_name (take (unat max_entries) es)"
    using readdir_entries_ser [OF assms(1) 2(2,3)] by (cases "length es \<le> unat max_entries") (simp_all add: min_def)
  moreover have "tlv_field f v \<noteq> []" for f v by (simp add: tlv_field_def)
  ultimately show ?thesis
    using 1(1) 2(1) by (simp add: powerfs_net_readdir_def powerfs_net_readdir_timeout_def)
qed

theorem readdir_decodes_witness:
  "powerfs_net_readdir (\<lambda>_ _ _ _. (0, tlv_ser ([(FLD_COUNT, le32 (of_nat (length [sample_entry, sample_entry\<lparr>de_ino := 8\<rparr>]))),
      (FLD_HAS_MORE, le64 0)] @ map (\<lambda>e. (FLD_ENTRY, dir_entry_ser e)) [sample_entry, sample_entry\<lparr>de_ino := 8\<rparr>])))
      True 1 None 100 1 = (0, [pad_name sample_entry], False)"
  by (subst readdir_decodes) (simp_all add: sample_entry_def)

section \<open>Requests that do not fit\<close>

text \<open>The requests for \<open>rename\<close> and \<open>symlink\<close> are complete exactly when the two strings fit into a buffer of 512
  bytes together with 36 and 23 bytes of fields: 476 bytes for two names, 489 for a name and a link target. Names
  may have 255 bytes each and a target 4095, and a request that is cut off is sent all the same. Stated with a
  server that accepts the complete request alone.\<close>

theorem name_requests_complete_iff:
  assumes "length n1 \<le> POWERFS_NET_MAX_TLV" "length n2 \<le> POWERFS_NET_MAX_TLV"
  shows "(powerfs_net_rename (\<lambda>_ _ _ b. (if b = tlv_ser (map item_field (rename_items dir n1 dir' n2)) then 0 else 12, []))
        dir n1 dir' n2 = 0 \<longleftrightarrow> length n1 + length n2 \<le> 476) \<and>
    (fst (powerfs_net_symlink (\<lambda>_ _ _ b. (if b = tlv_ser (map item_field (symlink_items dir n1 n2)) then 0 else 12, []))
        dir n1 n2 ino) = 0 \<longleftrightarrow> length n1 + length n2 \<le> 489)"
proof
  have "emit 512 (rename_items dir n1 dir' n2) = tlv_ser (map item_field (rename_items dir n1 dir' n2)) \<longleftrightarrow>
      length n1 + length n2 \<le> 476"
    by (subst emit_complete_iff) (use assms in \<open>auto simp: rename_items_def\<close>)
  then show "powerfs_net_rename (\<lambda>_ _ _ b. (if b = tlv_ser (map item_field (rename_items dir n1 dir' n2)) then 0 else 12, []))
      dir n1 dir' n2 = 0 \<longleftrightarrow> length n1 + length n2 \<le> 476"
    by (simp add: powerfs_net_rename_def rpc_errno_def net_status_to_errno_def)
  have "emit 512 (symlink_items dir n1 n2) = tlv_ser (map item_field (symlink_items dir n1 n2)) \<longleftrightarrow>
      length n1 + length n2 \<le> 489"
    by (subst emit_complete_iff) (use assms in \<open>auto simp: symlink_items_def\<close>)
  then show "fst (powerfs_net_symlink (\<lambda>_ _ _ b. (if b = tlv_ser (map item_field (symlink_items dir n1 n2)) then 0 else 12, []))
      dir n1 n2 ino) = 0 \<longleftrightarrow> length n1 + length n2 \<le> 489"
    by (simp add: powerfs_net_symlink_def rpc_errno_def net_status_to_errno_def Let_def)
qed

theorem name_requests_complete_iff_witness:
  "powerfs_net_rename (\<lambda>_ _ _ b. (if b = tlv_ser (map item_field (rename_items 1 (replicate 240 97) 1 (replicate 240 98)))
      then 0 else 12, [])) 1 (replicate 240 97) 1 (replicate 240 98) \<noteq> 0"
  using name_requests_complete_iff [of "replicate 240 97" "replicate 240 98" 1 1 0] by simp

lemma emit_too_big:
  "length v > POWERFS_NET_MAX_TLV \<Longrightarrow> emit cap (its @ [Raw f v]) = emit cap its"
  by (simp add: emit_def powerfs_tlv_enc_bytes_def)

lemma ec_chunks_kept [simp]:
  "fl_ec_chunks (parse_stripe_fields d l) = fl_ec_chunks l" "fl_has_ec_chunks (parse_stripe_fields d l) = fl_has_ec_chunks l"
  "fl_ec_chunks (parse_volume_ids alloc d l) = fl_ec_chunks l" "fl_has_ec_chunks (parse_volume_ids alloc d l) = fl_has_ec_chunks l"
  "fl_ec_chunks (parse_volume_range alloc d l) = fl_ec_chunks l" "fl_has_ec_chunks (parse_volume_range alloc d l) = fl_has_ec_chunks l"
  by (simp_all add: parse_stripe_fields_def parse_volume_ids_def parse_volume_range_def Let_def split: option.split)

lemma parse_ec_chunks:
  "fl_ec_chunks (parse_file_layout alloc d) = fl_ec_chunks (parse_chunk_layout alloc d (parse_inline_data alloc d (parse_layout_scalars d)))"
  "fl_has_ec_chunks (parse_file_layout alloc d) =
    fl_has_ec_chunks (parse_chunk_layout alloc d (parse_inline_data alloc d (parse_layout_scalars d)))"
  by (simp_all add: parse_file_layout_def Let_def split: option.split)

lemma scalars_no_chunks [simp]:
  "fl_has_inline_data (parse_layout_scalars d) = False" "fl_ec_chunks (parse_layout_scalars d) = []"
  "fl_has_ec_chunks (parse_layout_scalars d) = False"
  by (simp_all add: parse_layout_scalars_def layout_zero_def parse_placement_field_def parse_reliability_field_def Let_def
      split: option.split)

definition sample_chunk :: chunk_map where
  "sample_chunk = \<lparr>cm_chunk_idx = 0, cm_needle_id = 1, cm_volume_id = 2, cm_crc32 = 0, cm_size = 0, cm_fp_xxh = 0,
    cm_fp_valid = False, cm_wp_gen = 0\<rparr>"

definition chunk_ref_of :: "nat \<Rightarrow> chunk_map \<Rightarrow> u64 \<times> u64 \<times> u64 \<times> u64 \<times> u32 \<times> u64" where
  "chunk_ref_of i cm = (of_nat i * POWERFS_CHUNK_SIZE, cm_size cm, cm_needle_id cm, cm_volume_id cm, cm_crc32 cm, 0)"

lemma size_chunk_layout_refs:
  assumes "length cs < 2 ^ 32"
  shows "size_chunk_layout junk (Some cs) (of_nat (length cs)) =
    (1 # le32 (of_nat (length cs))) @ concat (map chunk_ref_encode (map (\<lambda>i. chunk_ref_of i (cs ! i)) [0..<length cs]))"
proof -
  have "unat (of_nat (length cs) :: u32) = length cs" using assms by (intro unat_of_nat_small) simp
  moreover have "size_chunk_ref i cm = chunk_ref_encode (chunk_ref_of i cm)" for i cm
    by (simp add: size_chunk_ref_def chunk_ref_encode_def chunk_ref_of_def)
  ultimately show ?thesis by (simp add: size_chunk_layout_def comp_def)
qed

lemma chunk_layout_decode:
  assumes "find_raw_bytes d FLD_CHUNK_LAYOUT = Some ((1 # le32 (of_nat (length refs))) @ concat (map chunk_ref_encode refs))"
    "find_raw_bytes d FLD_INLINE_DATA = None" "refs \<noteq> []" "length refs < 2 ^ 32"
  shows "fl_has_ec_chunks (parse_file_layout (\<lambda>_. True) d)" "fl_ec_chunks (parse_file_layout (\<lambda>_. True) d) = map chunk_ref_map refs"
proof -
  define raw where "raw = (1 # le32 (of_nat (length refs))) @ concat (map chunk_ref_encode refs)"
  have cnt: "unat (of_nat (length refs) :: u32) = length refs" using assms(4) by (intro unat_of_nat_small) simp
  have r: "raw ! 0 = 1" "unat (get_le32 (drop 1 raw)) = length refs" "length raw = 5 + length refs * 44"
    using cnt by (simp_all add: raw_def length_concat_blocks)
  have dec: "map (\<lambda>i. chunk_ref_decode raw (5 + i * 44)) [0..<length refs] = map chunk_ref_map refs"
    unfolding raw_def by (rule chunk_refs_decode) simp
  have "parse_chunk_layout (\<lambda>_. True) d (parse_layout_scalars d) =
      (parse_layout_scalars d)\<lparr>fl_ec_chunks := map chunk_ref_map refs, fl_has_ec_chunks := True\<rparr>"
    using r assms(3) by (simp add: parse_chunk_layout_def assms(1) [folded raw_def] Let_def dec)
  then show "fl_has_ec_chunks (parse_file_layout (\<lambda>_. True) d)"
    "fl_ec_chunks (parse_file_layout (\<lambda>_. True) d) = map chunk_ref_map refs"
    using assms(2) by (simp_all add: parse_ec_chunks parse_inline_data_def)
qed

lemma find_raw_bytes_ser:
  assumes "\<forall>(f, v) \<in> set fs. length v < 2 ^ 32"
  shows "find_raw_bytes (resp_decoder (tlv_ser fs)) f = map_option snd (List.find (\<lambda>(g, v). g = f) fs)"
  using find_raw_ser [of "resp_decoder (tlv_ser fs)" fs f] assms
  by (simp add: find_raw_bytes_def powerfs_tlv_dec_init_def)

text \<open>The layout that a file's owner sends on close survives the trip up to 1489 chunks and is lost above: the
  receiver of the request, reading it with the parser of layouts, finds every chunk in order with its size, needle,
  volume and checksum, its index being its position in the list; with more chunks the value exceeds the 65535 bytes
  of a field, the encoder refuses it, and the request goes out without a layout.\<close>

theorem size_chunks_layout:
  assumes "cs \<noteq> []" "length cs < 2 ^ 25" "length cid \<le> 240"
  shows "\<exists>body. (\<forall>rpc. powerfs_net_update_inode_size_chunks rpc True (Some junk) shard ino sz (Some cid) (Some cs)
        (of_nat (length cs)) None = rpc_errno (fst (rpc MSG_UPDATE_INODE_SIZE_CHUNKS ino POWERFS_META_TIMEOUT_MS body))) \<and>
    fl_has_ec_chunks (parse_file_layout (\<lambda>_. True) (resp_decoder body)) = (length cs \<le> 1489) \<and>
    fl_ec_chunks (parse_file_layout (\<lambda>_. True) (resp_decoder body)) =
      (if length cs \<le> 1489 then map (\<lambda>i. chunk_ref_map (chunk_ref_of i (cs ! i))) [0..<length cs] else [])"
proof -
  let ?refs = "map (\<lambda>i. chunk_ref_of i (cs ! i)) [0..<length cs]"
  let ?v = "(1 # le32 (of_nat (length ?refs))) @ concat (map chunk_ref_encode ?refs)"
  let ?its = "[U64 FLD_SHARD_ID shard, U64 FLD_INO ino, U64 FLD_SIZE sz, Str FLD_CLIENT_ID cid,
    U8 FLD_PLACEMENT PLACEMENT_FLAT, Raw FLD_RELIABILITY [0], U8 FLD_RELIABILITY_STATE 0]"
  let ?cap = "320 + length cs * 44"
  define body where "body = emit ?cap (?its @ [Raw FLD_CHUNK_LAYOUT ?v])"
  have "length (concat (map chunk_ref_encode ?refs)) = length ?refs * 44" by (rule length_concat_blocks) simp
  then have lv: "length ?v = 5 + length cs * 44" unfolding length_append by simp
  have n: "unat (of_nat (length cs) :: u32) = length cs" using assms(2) by (intro unat_of_nat_small) simp
  have call: "powerfs_net_update_inode_size_chunks rpc True (Some junk) shard ino sz (Some cid) (Some cs)
        (of_nat (length cs)) None = rpc_errno (fst (rpc MSG_UPDATE_INODE_SIZE_CHUNKS ino POWERFS_META_TIMEOUT_MS body))" for rpc
    using size_chunk_layout_refs [of cs junk] assms(2) n
    by (simp add: powerfs_net_update_inode_size_chunks_def size_chunks_items_def body_def add.commute)
  let ?l = "parse_file_layout (\<lambda>_. True) (resp_decoder body)"
  have "fl_has_ec_chunks ?l = (length cs \<le> 1489) \<and>
      fl_ec_chunks ?l = (if length cs \<le> 1489 then map chunk_ref_map ?refs else [])"
  proof (cases "length cs \<le> 1489")
    case True
    have b: "body = tlv_ser (map item_field (?its @ [Raw FLD_CHUNK_LAYOUT ?v]))"
      unfolding body_def by (rule emit_ok) (use True lv assms(3) in auto)
    have "find_raw_bytes (resp_decoder body) f =
        map_option snd (List.find (\<lambda>(g, v). g = f) (map item_field (?its @ [Raw FLD_CHUNK_LAYOUT ?v])))" for f
      unfolding b by (rule find_raw_bytes_ser) (use True lv assms(3) in auto)
    then have "find_raw_bytes (resp_decoder body) FLD_CHUNK_LAYOUT = Some ?v" "find_raw_bytes (resp_decoder body) FLD_INLINE_DATA = None"
      by simp_all
    from chunk_layout_decode [OF this] show ?thesis using True assms(1) by simp
  next
    case False
    have "emit ?cap ?its = tlv_ser (map item_field ?its)" by (rule emit_ok) (use assms(3) in auto)
    then have b: "body = tlv_ser (map item_field ?its)"
      unfolding body_def using False lv emit_too_big [of ?v ?cap ?its FLD_CHUNK_LAYOUT] by simp
    have "find_raw_bytes (resp_decoder body) f = map_option snd (List.find (\<lambda>(g, v). g = f) (map item_field ?its))" for f
      unfolding b by (rule find_raw_bytes_ser) (use assms(3) in auto)
    then have "find_raw_bytes (resp_decoder body) FLD_CHUNK_LAYOUT = None" "find_raw_bytes (resp_decoder body) FLD_INLINE_DATA = None"
      by simp_all
    then show ?thesis using False by (simp add: parse_ec_chunks parse_inline_data_def parse_chunk_layout_def)
  qed
  then show ?thesis using call by (intro exI [of _ body]) (simp add: comp_def)
qed

theorem size_chunks_layout_witness:
  "\<exists>body. (\<forall>rpc. powerfs_net_update_inode_size_chunks rpc True (Some []) 0 7 0 (Some [99]) (Some (replicate 1490 sample_chunk))
        (of_nat (length (replicate 1490 sample_chunk))) None =
      rpc_errno (fst (rpc MSG_UPDATE_INODE_SIZE_CHUNKS 7 POWERFS_META_TIMEOUT_MS body))) \<and>
    fl_has_ec_chunks (parse_file_layout (\<lambda>_. True) (resp_decoder body)) = False"
  using size_chunks_layout [of "replicate 1490 sample_chunk" "[99]" "[]" 0 7 0] by (simp del: of_nat_numeral) blast

section \<open>Directories on two shards\<close>

text \<open>A transport that records the requests; the answers may depend on what was sent before.\<close>

type_synonym request_log = "(u16 \<times> u64 \<times> bytes) list"

definition log_rpc :: "(request_log \<Rightarrow> u16 \<times> u64 \<times> bytes \<Rightarrow> int \<times> bytes) \<Rightarrow> request_log wrpc" where
  "log_rpc answer m key timeout_ms body sent = (answer sent (m, key, body), sent @ [(m, key, body)])"

lemma rpc_errno_0: "r < 2 ^ 16 \<Longrightarrow> rpc_errno r = 0 \<longleftrightarrow> r = 0"
proof -
  assume r: "r < 2 ^ 16"
  have "(word_of_int r :: u16) \<noteq> 0" if "r > 0"
  proof -
    have "uint (word_of_int r :: u16) = r" using that r by (simp add: uint_word_of_int take_bit_eq_mod)
    then show ?thesis using that by auto
  qed
  then show ?thesis by (auto simp: rpc_errno_def net_status_to_errno_def)
qed

text \<open>C22: Making a directory whose inode lives on another shard than its parent never leaves an entry without an inode:
  the requests sent are a prefix of allocation, creation on the target shard and entry on the parent's shard, all for
  one inode number that is not zero; the entry is sent only after the creation was answered with success, and the
  call succeeds only if the entry was too.\<close>

theorem mkdir_entry_after_inode:
  assumes "powerfs_net_create (log_rpc answer) True alloc nshards dir name mode uid gid True out [] = ((ret, out'), sent)"
    "parent = powerfs_calc_shard_id nshards dir" "target = mkdir_target nshards parent" "target \<noteq> parent"
    "\<And>log r. fst (answer log r) < 2 ^ 16"
  shows "\<exists>ino. ino \<noteq> 0 \<and> (let reqs = [(MSG_ALLOC_INODE_BATCH, target, emit 128 (alloc_batch_items target 1)),
        (MSG_MKDIR_PHASE_A, target, emit 512 (phase_a_items target ino dir name mode uid gid)),
        (MSG_MKDIR_PHASE_B, parent, emit 512 (phase_b_items parent ino dir name mode uid gid))] in
      sent = take (length sent) reqs \<and>
      (length sent = 3 \<longrightarrow> fst (answer (take 1 reqs) (reqs ! 1)) = 0) \<and>
      (ret = 0 \<longrightarrow> length sent = 3 \<and> fst (answer (take 2 reqs) (reqs ! 2)) = 0))"
proof -
  let ?a = "(MSG_ALLOC_INODE_BATCH, target, emit 128 (alloc_batch_items target 1))"
  let ?A = "\<lambda>ino. (MSG_MKDIR_PHASE_A, target, emit 512 (phase_a_items target ino dir name mode uid gid))"
  let ?B = "\<lambda>ino. (MSG_MKDIR_PHASE_B, parent, emit 512 (phase_b_items parent ino dir name mode uid gid))"
  have m: "mkdir_two_phase (log_rpc answer) parent target dir name mode uid gid out [] = ((ret, out'), sent)"
    using assms by (simp add: powerfs_net_create_def Let_def)
  note err = rpc_errno_0 [OF assms(5)]
  obtain r0 b0 where 0: "answer [] ?a = (r0, b0)" by fastforce
  show ?thesis
  proof (cases "r0 = 0 \<and> b0 \<noteq> [] \<and> find_u64 (resp_decoder b0) FLD_START_INODE \<notin> {None, Some 0}")
    case True
    then obtain ino where ino: "find_u64 (resp_decoder b0) FLD_START_INODE = Some ino" "ino \<noteq> 0" by auto
    obtain r1 b1 where 1: "answer [?a] (?A ino) = (r1, b1)" by fastforce
    obtain r2 b2 where 2: "answer [?a, ?A ino] (?B ino) = (r2, b2)" by fastforce
    show ?thesis
      using m True 0 1 2 ino err [of "[?a]" "?A ino"] err [of "[?a, ?A ino]" "?B ino"]
      by (intro exI [of _ ino]) (auto simp: mkdir_two_phase_def log_rpc_def Let_def split: if_splits)
  next
    case False
    then have "sent = [?a]" "ret \<noteq> 0"
      using m 0 err [of "[]" ?a] by (auto simp: mkdir_two_phase_def log_rpc_def Let_def split: if_splits option.splits)
    then show ?thesis by (intro exI [of _ 1]) simp
  qed
qed

definition sample_create_out :: create_out where
  "sample_create_out = \<lparr>co_ino = Some 0, co_volume_id = None, co_file_key = None, co_layout = None\<rparr>"

theorem mkdir_entry_after_inode_witness:
  "\<exists>ino sent. ino \<noteq> 0 \<and> snd (powerfs_net_create (log_rpc (\<lambda>log r. (0, tlv_ser [(FLD_START_INODE, le64 9)]))) True (\<lambda>_. True)
      4 1 [97] 493 0 0 True sample_create_out []) = sent \<and> sent = take (length sent)
      [(MSG_ALLOC_INODE_BATCH, 1, emit 128 (alloc_batch_items 1 1)), (MSG_MKDIR_PHASE_A, 1, emit 512 (phase_a_items 1 ino 1 [97] 493 0 0)),
       (MSG_MKDIR_PHASE_B, 0, emit 512 (phase_b_items 0 ino 1 [97] 493 0 0))]"
proof -
  obtain ret out' sent where c: "powerfs_net_create (log_rpc (\<lambda>log r. (0, tlv_ser [(FLD_START_INODE, le64 9)]))) True (\<lambda>_. True)
      4 1 [97] 493 0 0 True sample_create_out [] = ((ret, out'), sent)"
    by (metis prod.collapse)
  have "0 = powerfs_calc_shard_id 4 1" "1 = mkdir_target 4 0" "(1 :: u64) \<noteq> 0"
    by (simp_all add: powerfs_calc_shard_id_def mkdir_target_def word_le_nat_alt)
  from mkdir_entry_after_inode [OF c this] obtain ino where "ino \<noteq> 0" "sent = take (length sent)
      [(MSG_ALLOC_INODE_BATCH, 1, emit 128 (alloc_batch_items 1 1)), (MSG_MKDIR_PHASE_A, 1, emit 512 (phase_a_items 1 ino 1 [97] 493 0 0)),
       (MSG_MKDIR_PHASE_B, 0, emit 512 (phase_b_items 0 ino 1 [97] 493 0 0))]" by (auto simp: Let_def)
  then show ?thesis unfolding c by (intro exI [of _ ino] exI [of _ sent]) simp
qed

section \<open>Allocation for a migration\<close>

definition pair_fields :: "u64 \<times> u64 \<Rightarrow> (u8 \<times> bytes) list" where
  "pair_fields p = [(FLD_VOLUME_ID, le64 (fst p)), (FLD_FILE_KEY, le64 (snd p))]"

lemma migrate_pairs_field:
  assumes "tlv_dec_wf d" "dec_rest d = tlv_field f v @ r" "length v < 2 ^ 32" "length got < n"
  obtains d' where "tlv_dec_wf d'" "dec_rest d' = r"
    "migrate_pairs n d vid got =
      (if length v = 8 \<and> f = FLD_VOLUME_ID then migrate_pairs n d' (get_le64 v) got
       else if length v = 8 \<and> f = FLD_FILE_KEY then migrate_pairs n d' 0 (got @ [(vid, get_le64 v)])
       else migrate_pairs n d' vid got)"
proof
  let ?d = "d\<lparr>td_pos := td_pos d + 5 + length v\<rparr>"
  show "tlv_dec_wf ?d" "dec_rest ?d = r" by (rule after_field [OF assms(1-3)])+
  have "\<not> powerfs_tlv_dec_is_empty d" using hdr_fits [OF assms(1-3)] by (simp add: powerfs_tlv_dec_is_empty_def)
  then show "migrate_pairs n d vid got =
      (if length v = 8 \<and> f = FLD_VOLUME_ID then migrate_pairs n ?d (get_le64 v) got
       else if length v = 8 \<and> f = FLD_FILE_KEY then migrate_pairs n ?d 0 (got @ [(vid, get_le64 v)])
       else migrate_pairs n ?d vid got)"
    using assms(4) dec_next_field [OF assms(1-3)] hdr_value [OF assms(1-3)]
    by (subst migrate_pairs.simps) (auto simp: skip_value_def Let_def)
qed

lemma migrate_pairs_ser:
  "tlv_dec_wf d \<Longrightarrow> dec_rest d = tlv_ser (concat (map pair_fields ps)) \<Longrightarrow>
    migrate_pairs n d 0 got = got @ take (n - length got) ps"
proof (induction ps arbitrary: d got)
  case Nil
  then have "powerfs_tlv_dec_is_empty d" by (simp add: powerfs_tlv_dec_is_empty_def dec_rest_def tlv_dec_wf_def)
  then show ?case by (simp add: migrate_pairs.simps)
next
  case (Cons p ps)
  let ?r = "tlv_ser (concat (map pair_fields ps))"
  have r: "dec_rest d = tlv_field FLD_VOLUME_ID (le64 (fst p)) @ tlv_field FLD_FILE_KEY (le64 (snd p)) @ ?r"
    using Cons.prems(2) by (simp add: pair_fields_def [of p])
  show ?case
  proof (cases "length got < n")
    case True
    obtain d1 where 1: "tlv_dec_wf d1" "dec_rest d1 = tlv_field FLD_FILE_KEY (le64 (snd p)) @ ?r"
      "migrate_pairs n d 0 got = migrate_pairs n d1 (fst p) got"
      by (rule migrate_pairs_field [OF Cons.prems(1) r _ True, of 0]) auto
    obtain d2 where 2: "tlv_dec_wf d2" "dec_rest d2 = ?r" "migrate_pairs n d1 (fst p) got = migrate_pairs n d2 0 (got @ [p])"
      by (rule migrate_pairs_field [OF 1(1,2) _ True, of "fst p"]) auto
    show ?thesis using 1(3) 2(3) Cons.IH [OF 2(1,2)] True by (simp add: Suc_diff_Suc [symmetric])
  next
    case False
    then show ?thesis by (simp add: migrate_pairs.simps)
  qed
qed

text \<open>The allocation for migrating inline data is read back exactly: from a response with the stripe count, the
  stripe size and one volume and needle per stripe, up to 16, the caller gets that geometry and those pairs in order.
  A count above 16 and a response with too few pairs are refused.\<close>

theorem migrate_alloc_decodes:
  assumes "cnt > 0" "out \<noteq> None"
  shows "powerfs_net_migrate_inline_alloc (\<lambda>_ _ _ _. (0, tlv_ser ([(FLD_STRIPE_COUNT, le32 cnt), (FLD_STRIPE_SIZE, le64 ss)]
      @ concat (map pair_fields ps)))) True True shard ino True out =
    (if cnt \<le> 16 \<and> unat cnt \<le> length ps
     then (0, Some (migrate_zero\<lparr>ma_is_stripe := True, ma_stripe_size := ss, ma_stripe_count := cnt,
            ma_allocs := take (unat cnt) ps\<rparr>))
     else (- EPROTO, Some migrate_zero))"
proof -
  let ?r = "tlv_ser (concat (map pair_fields ps))"
  let ?fs = "[(FLD_STRIPE_COUNT, le32 cnt), (FLD_STRIPE_SIZE, le64 ss)] @ concat (map pair_fields ps)"
  let ?d = "resp_decoder (tlv_ser ?fs)"
  have l: "\<forall>(f, v) \<in> set ?fs. length v < 2 ^ 32" by (auto simp: pair_fields_def)
  have d: "td_len ?d \<le> length (td_buf ?d)" "take (td_len ?d) (td_buf ?d) = tlv_ser ?fs"
    by (simp_all add: powerfs_tlv_dec_init_def)
  have f: "find_u32 ?d FLD_STRIPE_COUNT = Some cnt" "find_u64 ?d FLD_STRIPE_SIZE = Some ss"
    using find_u32_ser [OF d l] find_u64_ser [OF d l] by simp_all
  have r0: "tlv_dec_wf ?d" "dec_rest ?d = tlv_field FLD_STRIPE_COUNT (le32 cnt) @ tlv_field FLD_STRIPE_SIZE (le64 ss) @ ?r"
    using resp_decoder_ser [of "tlv_ser ?fs"] by simp_all
  have n: "length ([] :: (u64 \<times> u64) list) < unat cnt" using assms(1) by (simp add: word_less_nat_alt)
  obtain d1 where 1: "tlv_dec_wf d1" "dec_rest d1 = tlv_field FLD_STRIPE_SIZE (le64 ss) @ ?r"
    "migrate_pairs (unat cnt) ?d 0 [] = migrate_pairs (unat cnt) d1 0 []"
    by (rule migrate_pairs_field [OF r0 _ n, of 0]) auto
  obtain d2 where 2: "tlv_dec_wf d2" "dec_rest d2 = ?r"
    "migrate_pairs (unat cnt) d1 0 [] = migrate_pairs (unat cnt) d2 0 []"
    by (rule migrate_pairs_field [OF 1(1,2) _ n, of 0]) auto
  have "migrate_pairs (unat cnt) ?d 0 [] = take (unat cnt) ps"
    using 1(3) 2(3) migrate_pairs_ser [OF 2(1,2)] by simp
  then have "migrate_stripe True ?d cnt = (if cnt \<le> 16 \<and> unat cnt \<le> length ps
     then (0, migrate_zero\<lparr>ma_is_stripe := True, ma_stripe_size := ss, ma_stripe_count := cnt, ma_allocs := take (unat cnt) ps\<rparr>)
     else (- EPROTO, migrate_zero))"
    using f(2) by (auto simp: migrate_stripe_def Let_def)
  then show ?thesis
    using f(1) assms by (cases "cnt \<le> 16 \<and> unat cnt \<le> length ps")
      (simp_all add: powerfs_net_migrate_inline_alloc_def Let_def del: tlv_ser_simps)
qed

theorem migrate_alloc_decodes_witness:
  "powerfs_net_migrate_inline_alloc (\<lambda>_ _ _ _. (0, tlv_ser ([(FLD_STRIPE_COUNT, le32 2), (FLD_STRIPE_SIZE, le64 65536)]
      @ concat (map pair_fields [(3, 30), (4, 40)])))) True True 0 7 True (Some migrate_zero) =
    (0, Some (migrate_zero\<lparr>ma_is_stripe := True, ma_stripe_size := 65536, ma_stripe_count := 2, ma_allocs := [(3, 30), (4, 40)]\<rparr>))"
  by (subst migrate_alloc_decodes) (simp_all add: word_le_nat_alt)

end
