(* ===== verification/NetData.thy ===== *)
theory NetData
  imports NetInode ErasureCode
begin

text \<open>
  The data path of \<open>powerfs_net_data.c\<close> and \<open>powerfs_net_write\<close>: the choice of a connection to a volume server, the
  requests for needles (the blobs of up to one chunk that hold the data of a file), and the reads and writes of files
  on top of them. The calls for needles take the transport as the parameter \<open>vrpc\<close>, from volume, message, body and
  data to the result, the response body and the response data, as \<open>powerfs_net_send_to_volume\<close> gives them; its timeout
  is always 30 seconds. Memory that the code does not initialise is a parameter \<open>junk\<close>; \<open>crc32\<close> stands for the
  checksum of the kernel, \<open>crc32_le(~0, ...) ^ ~0\<close>. The inode is read under its lock for each needle; the model reads
  one snapshot.
\<close>

abbreviation FLD_INODE_V2 :: u8 where "FLD_INODE_V2 \<equiv> 0x97"
abbreviation MSG_WRITE_NEEDLE :: u16 where "MSG_WRITE_NEEDLE \<equiv> 0x0062"
abbreviation MSG_READ_NEEDLE :: u16 where "MSG_READ_NEEDLE \<equiv> 0x0063"
abbreviation MSG_WRITE_NEEDLE_BLOB :: u16 where "MSG_WRITE_NEEDLE_BLOB \<equiv> 0x006B"
abbreviation MSG_FLUSH_NEEDLES :: u16 where "MSG_FLUSH_NEEDLES \<equiv> 0x006C"
abbreviation ENOLINK :: int where "ENOLINK \<equiv> 67"

text \<open>The chunk size as a number of bytes; it stays folded in proofs.\<close>

definition CHUNK :: nat where
  "CHUNK = 1048576"

section \<open>Connections to volume servers\<close>

datatype server_type = Server_Filer | Server_Master | Server_Volume | Server_Volume_Meta

record vol_conn =
  vc_in_use :: bool
  vc_type :: server_type
  vc_addr :: bytes
  vc_port :: u16
  vc_state :: conn_state

record vol_route =
  vr_volume_id :: u64
  vr_conn_idx :: int
  vr_meta_conn_idx :: int

text \<open>The first \<open>volume_count\<close> slots of the array of connections, and the routes.\<close>

record vol_pool =
  vp_conns :: "vol_conn list"
  vp_routes :: "vol_route list"

definition powerfs_net_get_volume_conn :: "vol_pool \<Rightarrow> int \<Rightarrow> nat option" where
  "powerfs_net_get_volume_conn p idx =
    (if idx < 0 \<or> idx \<ge> int (length (vp_conns p)) then None
     else if \<not> vc_in_use (vp_conns p ! nat idx) then None
     else Some (nat idx))"

definition pfs_is_meta_msg :: "u16 \<Rightarrow> bool" where
  "pfs_is_meta_msg msg \<longleftrightarrow> msg = 0x0080 \<or> msg = 0x0081 \<or> msg = 0x0082 \<or> msg = 0x0067 \<or> msg = 0x0068"

definition same_server :: "bytes \<Rightarrow> u16 \<Rightarrow> server_type \<Rightarrow> vol_conn \<Rightarrow> bool" where
  "same_server ip port ty c \<longleftrightarrow> vc_in_use c \<and> vc_type c = ty \<and> vc_port c = port \<and> vc_addr c = ip"

definition pfs_find_vol_conn_by_addr :: "vol_pool \<Rightarrow> bytes \<Rightarrow> u16 \<Rightarrow> server_type \<Rightarrow> int" where
  "pfs_find_vol_conn_by_addr p ip port ty =
    (case List.find (\<lambda>i. same_server ip port ty (vp_conns p ! i)) [0..<length (vp_conns p)] of
       Some i \<Rightarrow> int i | None \<Rightarrow> - 1)"

text \<open>The second result is true if the reconnect work of the new connection was queued. When the buffers cannot be
  allocated the slot is cleared again and stays outside of the first \<open>volume_count\<close>.\<close>

definition pfs_ensure_volume_conn :: "bool \<Rightarrow> bytes \<Rightarrow> u16 \<Rightarrow> server_type \<Rightarrow> vol_pool \<Rightarrow> int \<times> bool \<times> vol_pool" where
  "pfs_ensure_volume_conn mem ip port ty p =
    (let idx = pfs_find_vol_conn_by_addr p ip port ty
     in if idx \<ge> 0 then (idx, False, p)
        else if length (vp_conns p) \<ge> POWERFS_NET_MAX_VOLUMES then (- ENOSPC, False, p)
        else if \<not> mem then (- ENOMEM, False, p)
        else (int (length (vp_conns p)), True,
              p\<lparr>vp_conns := vp_conns p @ [\<lparr>vc_in_use = True, vc_type = ty, vc_addr = take 63 ip, vc_port = port,
                 vc_state = Conn_Init\<rparr>]\<rparr>))"

definition powerfs_net_find_volume_conn :: "vol_pool \<Rightarrow> u64 \<Rightarrow> bool \<Rightarrow> nat option" where
  "powerfs_net_find_volume_conn p volume_id is_meta =
    (case List.find (\<lambda>r. vr_volume_id r = volume_id) (vp_routes p) of
       Some r \<Rightarrow>
         let idx = (if is_meta then vr_meta_conn_idx r else vr_conn_idx r)
         in if idx < 0 then None else powerfs_net_get_volume_conn p idx
     | None \<Rightarrow>
         let want = (if is_meta then Server_Volume_Meta else Server_Volume);
             fit = filter (\<lambda>i. vc_in_use (vp_conns p ! i) \<and> vc_type (vp_conns p ! i) = want) [0..<length (vp_conns p)]
         in (case List.find (\<lambda>i. vc_state (vp_conns p ! i) = Conn_Connected) fit of
               Some i \<Rightarrow> Some i
             | None \<Rightarrow> (case fit of [] \<Rightarrow> None | i # _ \<Rightarrow> Some i)))"

text \<open>A request on a volume connection with its flow accounting. \<open>do_send\<close> is the send of the request life cycle, with
  the accounting its completion makes: its result, and the status, body and data of the response.\<close>

type_synonym vsend = "nat \<Rightarrow> u16 \<Rightarrow> bytes \<Rightarrow> bytes \<Rightarrow> flow_controller \<Rightarrow> (int \<times> u16 \<times> bytes \<times> bytes) \<times> flow_controller"

definition vol_flow_idx :: "nat \<Rightarrow> int" where
  "vol_flow_idx i = int (POWERFS_NET_MAX_FILERS + i)"

definition powerfs_net_send_to_volume ::
  "vsend \<Rightarrow> bool \<Rightarrow> bool \<Rightarrow> vol_pool \<Rightarrow> int \<Rightarrow> u64 \<Rightarrow> u16 \<Rightarrow> bytes \<Rightarrow> bytes \<Rightarrow> flow_controller \<Rightarrow>
    (int \<times> bytes \<times> bytes) \<times> flow_controller" where
  "powerfs_net_send_to_volume do_send stop mem p vol_idx volume_id msg body data fl =
    (if stop then ((- ENOTCONN, [], []), fl)
     else
       case (if vol_idx \<ge> 0 then powerfs_net_get_volume_conn p vol_idx
             else powerfs_net_find_volume_conn p volume_id (pfs_is_meta_msg msg)) of
         None \<Rightarrow> ((- ENOTCONN, [], []), fl)
       | Some c \<Rightarrow>
           if \<not> mem then ((- ENOMEM, [], []), fl)
           else
             let ((ret, status, rbody, rdata), fl) = do_send c msg body data
                   (powerfs_flow_record_start (vol_flow_idx c) (of_nat (length body + length data)) fl);
                 fl = (if ret \<noteq> 0 then powerfs_flow_record_complete (vol_flow_idx c) 0 0 True fl else fl)
             in ((if ret < 0 then ret else uint status, rbody, rdata), fl))"

section \<open>Needles\<close>

type_synonym vrpc = "u64 \<Rightarrow> u16 \<Rightarrow> bytes \<Rightarrow> bytes \<Rightarrow> int \<times> bytes \<times> bytes"

definition lease_token_item :: "bytes option \<Rightarrow> tlv_item list" where
  "lease_token_item tok =
    (case tok of Some t \<Rightarrow> if length t > 0 \<and> length t < 64 then [Str FLD_LEASE_TOKEN t] else [] | None \<Rightarrow> [])"

definition write_needle_items :: "u64 \<Rightarrow> u64 \<Rightarrow> u64 \<Rightarrow> bytes option \<Rightarrow> tlv_item list" where
  "write_needle_items volume_id file_key inode tok =
    [U64 FLD_INO volume_id, U64 FLD_FILE_KEY file_key, U64 FLD_INODE_V2 inode] @ lease_token_item tok
    @ [Str FLD_CLIENT_ID kernel_client]"

definition powerfs_net_write_needle :: "vrpc \<Rightarrow> u64 \<Rightarrow> u64 \<Rightarrow> u64 \<Rightarrow> bytes \<Rightarrow> bytes option \<Rightarrow> int" where
  "powerfs_net_write_needle vrpc volume_id file_key inode data tok =
    rpc_errno (fst (vrpc volume_id MSG_WRITE_NEEDLE (emit 512 (write_needle_items volume_id file_key inode tok)) data))"

definition powerfs_net_flush_needles :: "vrpc \<Rightarrow> bool \<Rightarrow> u64 \<Rightarrow> u64 list \<Rightarrow> int" where
  "powerfs_net_flush_needles vrpc mem volume_id file_keys =
    (if file_keys = [] then 0
     else if \<not> mem then - ENOMEM
     else rpc_errno (fst (vrpc volume_id MSG_FLUSH_NEEDLES
       (emit (64 + length file_keys * 16)
         ([U64 FLD_INO volume_id, U64 FLD_LIMIT (of_nat (length file_keys))] @ map (U64 FLD_FILE_KEY) file_keys)) [])))"

text \<open>The results are the outcome, the buffer, and the length, which is stored on success alone.\<close>

definition powerfs_net_read_needle :: "vrpc \<Rightarrow> u64 \<Rightarrow> u64 \<Rightarrow> bytes \<Rightarrow> int \<times> bytes \<times> nat option" where
  "powerfs_net_read_needle vrpc volume_id file_key buf =
    (let (ret, _, data) = vrpc volume_id MSG_READ_NEEDLE (emit 64 [U64 FLD_INO volume_id, U64 FLD_FILE_KEY file_key]) [];
         buf = wr_bytes 0 data buf
     in if ret \<noteq> 0 then (rpc_errno ret, buf, None) else (0, buf, Some (length data)))"

section \<open>Needles written and read in the background\<close>

text \<open>The three asynchronous calls differ in the request alone, except that the reads do not wait for a slot. \<open>do_send\<close> says
  whether the request was taken; \<open>env\<close> are the completions that a wait for a slot sees.\<close>

type_synonym vsubmit = "nat \<Rightarrow> u16 \<Rightarrow> bytes \<Rightarrow> bytes \<Rightarrow> flow_controller \<Rightarrow> int \<times> flow_controller"

definition needle_async ::
  "vsubmit \<Rightarrow> bool \<Rightarrow> bool \<Rightarrow> flow_act list list option \<Rightarrow> vol_pool \<Rightarrow> u64 \<Rightarrow> u16 \<Rightarrow> bytes \<Rightarrow> bytes \<Rightarrow> flow_controller \<Rightarrow>
    int \<times> flow_controller" where
  "needle_async do_send stop mem env p volume_id msg body data fl =
    (if stop then (- ENOTCONN, fl)
     else
       case powerfs_net_find_volume_conn p volume_id False of
         None \<Rightarrow> (- ENOTCONN, fl)
       | Some c \<Rightarrow>
           if \<not> mem then (- ENOMEM, fl)
           else
             let (w, fl) = (case env of Some e \<Rightarrow> powerfs_flow_wait_wr_slot (vol_flow_idx c) e fl | None \<Rightarrow> (0, fl))
             in if w \<noteq> 0 then (- EBUSY, fl)
                else
                  let (ret, fl) = do_send c msg body data
                        (powerfs_flow_record_start (vol_flow_idx c) (of_nat (length body + length data)) fl)
                  in if ret \<noteq> 0 then (ret, powerfs_flow_record_complete (vol_flow_idx c) 0 0 True fl) else (0, fl))"

definition powerfs_net_write_needle_async ::
  "vsubmit \<Rightarrow> bool \<Rightarrow> bool \<Rightarrow> flow_act list list \<Rightarrow> vol_pool \<Rightarrow> u64 \<Rightarrow> u64 \<Rightarrow> u64 \<Rightarrow> bytes \<Rightarrow> bytes option \<Rightarrow> nat \<Rightarrow> flow_controller \<Rightarrow>
    int \<times> flow_controller" where
  "powerfs_net_write_needle_async do_send stop mem env p volume_id file_key inode data tok req_body_cap fl =
    needle_async do_send stop mem (Some env) p volume_id MSG_WRITE_NEEDLE
      (emit req_body_cap (write_needle_items volume_id file_key inode tok)) data fl"

definition powerfs_net_write_needle_blob_async ::
  "vsubmit \<Rightarrow> bool \<Rightarrow> bool \<Rightarrow> flow_act list list \<Rightarrow> vol_pool \<Rightarrow> u64 \<Rightarrow> u64 \<Rightarrow> u64 \<Rightarrow> u64 \<Rightarrow> bytes \<Rightarrow> bytes option \<Rightarrow> nat \<Rightarrow>
    flow_controller \<Rightarrow> int \<times> flow_controller" where
  "powerfs_net_write_needle_blob_async do_send stop mem env p volume_id file_key inode offset data tok req_body_cap fl =
    needle_async do_send stop mem (Some env) p volume_id MSG_WRITE_NEEDLE_BLOB
      (emit req_body_cap ([U64 FLD_INO volume_id, U64 FLD_FILE_KEY file_key, U64 FLD_INODE_V2 inode, U64 FLD_OFFSET offset]
        @ lease_token_item tok @ [Str FLD_CLIENT_ID kernel_client])) data fl"

definition powerfs_net_read_needle_async ::
  "vsubmit \<Rightarrow> bool \<Rightarrow> bool \<Rightarrow> vol_pool \<Rightarrow> u64 \<Rightarrow> u64 \<Rightarrow> nat \<Rightarrow> flow_controller \<Rightarrow> int \<times> flow_controller" where
  "powerfs_net_read_needle_async do_send stop mem p volume_id file_key req_body_cap fl =
    needle_async do_send stop mem None p volume_id MSG_READ_NEEDLE
      (emit req_body_cap [U64 FLD_INO volume_id, U64 FLD_FILE_KEY file_key]) [] fl"

section \<open>Writing\<close>

text \<open>The inode, the volume, the needle, the offset in it and the data of the write; on success the length is stored.\<close>

definition powerfs_net_write ::
  "vrpc \<Rightarrow> bytes option \<Rightarrow> u64 \<Rightarrow> u64 \<Rightarrow> u64 \<Rightarrow> u64 \<Rightarrow> bytes \<Rightarrow> u32 option \<Rightarrow> int \<times> u32 option" where
  "powerfs_net_write vrpc needle_buf ino volume_id file_key offset data written =
    (if volume_id = 0 \<or> file_key = 0 then (- ENOLINK, written)
     else
       let needle_id = file_key + offset div POWERFS_CHUNK_SIZE;
           off = unat (offset mod POWERFS_CHUNK_SIZE)
       in if off + length data > CHUNK then (- EINVAL, written)
          else
            (case needle_buf of
               None \<Rightarrow> (- ENOMEM, written)
             | Some junk \<Rightarrow>
                 let (ret, buf, len) = powerfs_net_read_needle vrpc volume_id needle_id junk
                 in if ret < 0 \<and> ret \<noteq> - ENOENT then (ret, written)
                    else
                      let buf = wr_bytes off data buf;
                          existing_len = (case len of Some n \<Rightarrow> n | None \<Rightarrow> 0);
                          existing_len = (if off + length data > existing_len then off + length data else existing_len);
                          ret = powerfs_net_write_needle vrpc volume_id needle_id ino (take existing_len buf) None
                      in if ret < 0 then (ret, written)
                         else (0, set_out (Some (of_nat (length data))) written)))"

section \<open>Reading\<close>

text \<open>The checks of a needle that was read: a hole counts as empty, and the contents of a needle that has a replica entry
  are checked against the checksum of that entry.\<close>

definition crc_bad :: "(bytes \<Rightarrow> u32) \<Rightarrow> u32 \<Rightarrow> nat \<Rightarrow> bytes \<Rightarrow> bool" where
  "crc_bad crc32 expected len buf \<longleftrightarrow> expected \<noteq> 0 \<and> len > 0 \<and> crc32 (take len buf) \<noteq> expected"

definition find_replica :: "finode \<Rightarrow> u64 \<Rightarrow> chunk_map option" where
  "find_replica pi cur = List.find (\<lambda>c. cm_chunk_idx c = ucast (cur div POWERFS_CHUNK_SIZE)) (pi_replica_chunks pi)"

definition check_needle ::
  "(bytes \<Rightarrow> u32) \<Rightarrow> chunk_map option \<Rightarrow> int \<times> bytes \<times> nat option \<Rightarrow> int + bytes \<times> nat" where
  "check_needle crc32 rep r =
    (case r of (ret, buf, len) \<Rightarrow>
       if ret < 0 \<and> ret \<noteq> - ENOENT then Inl ret
       else
         let len = (if ret = - ENOENT then 0 else case len of Some n \<Rightarrow> n | None \<Rightarrow> 0)
         in (case rep of
               Some c \<Rightarrow> if crc_bad crc32 (cm_crc32 c) len buf then Inl (- EIO) else Inr (buf, len)
             | None \<Rightarrow> Inr (buf, len)))"

definition read_chunk :: "vrpc \<Rightarrow> (bytes \<Rightarrow> u32) \<Rightarrow> finode \<Rightarrow> u64 \<Rightarrow> u64 \<times> u64 \<Rightarrow> bytes \<Rightarrow> int + bytes \<times> nat" where
  "read_chunk vrpc crc32 pi cur loc buf =
    (let r = powerfs_net_read_needle vrpc (fst loc) (snd loc) buf; rep = find_replica pi cur
     in if fst r < 0 \<and> fst r \<noteq> - ENOENT then
          (case rep of
             None \<Rightarrow> Inl (fst r)
           | Some c \<Rightarrow> check_needle crc32 rep (powerfs_net_read_needle vrpc (cm_volume_id c) (cm_needle_id c) (fst (snd r))))
        else check_needle crc32 rep r)"

definition copy_len :: "nat \<Rightarrow> nat \<Rightarrow> nat \<Rightarrow> nat" where
  "copy_len remaining off len = (if off \<ge> len then min remaining (CHUNK - off) else min (min remaining len) (len - off))"

definition copy_piece :: "nat \<Rightarrow> nat \<Rightarrow> nat \<Rightarrow> bytes \<Rightarrow> bytes" where
  "copy_piece remaining off len buf =
    (let n = copy_len remaining off len in if off \<ge> len then replicate n 0 else take n (drop off buf))"

lemma copy_len_pos: "remaining > 0 \<Longrightarrow> off < CHUNK \<Longrightarrow> 0 < copy_len remaining off len"
  by (simp add: copy_len_def)

lemma off_less_CHUNK: "unat ((cur :: u64) mod POWERFS_CHUNK_SIZE) < CHUNK"
  by (simp add: unat_mod CHUNK_def)

text \<open>With write prediction compiled in, the location is looked up in the tracked chunks first.\<close>

definition read_locate :: "bool \<Rightarrow> finode \<Rightarrow> u64 \<Rightarrow> int \<times> (u64 \<times> u64) option" where
  "read_locate predict pi cur = (if predict then powerfs_locate_chunk_for_read pi cur else powerfs_locate_chunk pi cur)"

text \<open>The loop of a read: the bytes stored so far are the prefix of the caller's buffer. The break at the end of a needle
  that is not full comes after the copy.\<close>

function net_read_loop ::
  "vrpc \<Rightarrow> (bytes \<Rightarrow> u32) \<Rightarrow> bool \<Rightarrow> finode \<Rightarrow> u64 \<Rightarrow> nat \<Rightarrow> bytes \<Rightarrow> bytes \<Rightarrow> int \<times> bytes" where
  "net_read_loop vrpc crc32 predict pi cur remaining nbuf acc =
    (if remaining = 0 then (0, acc)
     else
       case read_locate predict pi cur of
         (ret, None) \<Rightarrow> (ret, acc)
       | (ret, Some loc) \<Rightarrow>
           if ret \<noteq> 0 then (ret, acc)
           else (case read_chunk vrpc crc32 pi cur loc nbuf of
              Inl e \<Rightarrow> (e, acc)
            | Inr (nbuf, len) \<Rightarrow>
                let off = unat (cur mod POWERFS_CHUNK_SIZE);
                    n = copy_len remaining off len;
                    acc = acc @ copy_piece remaining off len nbuf
                in if len < CHUNK \<and> off + n \<ge> len then (0, acc)
                   else net_read_loop vrpc crc32 predict pi (cur + of_nat n) (remaining - n) nbuf acc))"
  by pat_completeness auto
termination
  by (relation "measure (\<lambda>(vrpc, crc32, predict, pi, cur, remaining, nbuf, acc). remaining)")
     (auto simp: copy_len_pos off_less_CHUNK)

declare net_read_loop.simps [simp del]

text \<open>The read of a group of an erasure coded file. The shards are read one by one; a shard that cannot be allocated, is
  not stored or fails its checksum is missing. \<^const>\<open>None\<close> is the division by zero of a file without data shards,
  which comes before the check for it.\<close>

record ec_env =
  ee_lists :: bool
  ee_shard :: "nat \<Rightarrow> bytes option"
  ee_group :: "bytes option"
  ee_codec :: "alloc_site \<Rightarrow> bool"

definition ec_read_shard :: "vrpc \<Rightarrow> (bytes \<Rightarrow> u32) \<Rightarrow> ec_env \<Rightarrow> chunk_map \<Rightarrow> nat \<Rightarrow> bytes option" where
  "ec_read_shard vrpc crc32 ee c i =
    (case ee_shard ee i of
       None \<Rightarrow> None
     | Some junk \<Rightarrow>
         let (ret, buf, len) = powerfs_net_read_needle vrpc (cm_volume_id c) (cm_needle_id c) junk
         in if ret < 0 then None
            else if crc_bad crc32 (cm_crc32 c) (case len of Some n \<Rightarrow> n | None \<Rightarrow> 0) buf then None
            else Some buf)"

definition ec_copy_shards :: "nat \<Rightarrow> bytes option list \<Rightarrow> bytes \<Rightarrow> bytes" where
  "ec_copy_shards d shards gbuf =
    fold (\<lambda>i g. case shards ! i of Some s \<Rightarrow> wr_bytes (i * CHUNK) (take CHUNK s) g | None \<Rightarrow> g) [0..<d] gbuf"

definition ec_reconstruct :: "ec_env \<Rightarrow> finode \<Rightarrow> bytes option list \<Rightarrow> int + bytes option list" where
  "ec_reconstruct ee pi shards =
    (let available = map (\<lambda>s. s \<noteq> None) shards
     in if list_all (\<lambda>i. available ! i) [0..<unat (pi_ec_data pi)] then Inr shards
        else
          (case powerfs_ec_init (ee_codec ee) (pi_ec_data pi) (pi_ec_parity pi) of
             Inl e \<Rightarrow> Inl e
           | Inr codec \<Rightarrow>
               if \<not> powerfs_ec_can_recover (Some codec) available then Inl (- EIO)
               else
                 let (ret, shards) = powerfs_ec_decode (ee_codec ee) (Some codec) shards available CHUNK
                 in if ret \<noteq> 0 then Inl ret else Inr shards))"

definition powerfs_net_read_ec ::
  "vrpc \<Rightarrow> (bytes \<Rightarrow> u32) \<Rightarrow> ec_env \<Rightarrow> finode \<Rightarrow> u64 \<Rightarrow> u32 \<Rightarrow> nat \<Rightarrow> (int \<times> bytes) option" where
  "powerfs_net_read_ec vrpc crc32 ee pi offset len buf_cap =
    (let d = pi_ec_data pi; total = d + pi_ec_parity pi; gsize = ucast d * POWERFS_CHUNK_SIZE :: u64
     in if gsize = 0 then None
        else
          let group_idx = offset div gsize;
              group_offset = unat (offset - group_idx * gsize);
              group_base = group_idx * ucast total
          in if d = 0 \<or> pi_ec_chunks pi = [] \<or> group_base + ucast total > of_nat (length (pi_ec_chunks pi))
             then Some (- EINVAL, [])
             else if \<not> ee_lists ee then Some (- ENOMEM, [])
             else
               let shards = map (\<lambda>i. ec_read_shard vrpc crc32 ee (pi_ec_chunks pi ! (unat group_base + i)) i) [0..<unat total]
               in (case ec_reconstruct ee pi shards of
                     Inl e \<Rightarrow> Some (e, [])
                   | Inr shards \<Rightarrow>
                       (case ee_group ee of
                          None \<Rightarrow> Some (- ENOMEM, [])
                        | Some junk \<Rightarrow>
                            let n = min (min (unat len) (unat gsize - group_offset)) buf_cap
                            in Some (0, take n (drop group_offset (ec_copy_shards (unat d) shards junk))))))"

definition powerfs_net_read ::
  "vrpc \<Rightarrow> (bytes \<Rightarrow> u32) \<Rightarrow> bool \<Rightarrow> bytes option \<Rightarrow> ec_env \<Rightarrow> finode option \<Rightarrow> u64 \<Rightarrow> u32 \<Rightarrow> nat \<Rightarrow> (int \<times> bytes) option" where
  "powerfs_net_read vrpc crc32 predict needle_buf ee pi offset len buf_cap =
    (case pi of
       None \<Rightarrow> Some (- EINVAL, [])
     | Some pi \<Rightarrow>
         if buf_cap < unat len then Some (- EINVAL, [])
         else if pi_reliability pi = RELIABILITY_EC \<and> pi_ec_chunks pi \<noteq> []
         then powerfs_net_read_ec vrpc crc32 ee pi offset len buf_cap
         else
           (case needle_buf of
              None \<Rightarrow> Some (- ENOMEM, [])
            | Some nbuf \<Rightarrow> Some (net_read_loop vrpc crc32 predict pi offset (unat len) nbuf [])))"

section \<open>A file as a sequence of needles\<close>

text \<open>The abstract file: every needle but the last one is a full chunk, and the contents are their concatenation.\<close>

definition needles_wf :: "bytes list \<Rightarrow> bool" where
  "needles_wf ns \<longleftrightarrow> ns \<noteq> [] \<and> (\<forall>k < length ns - 1. length (ns ! k) = CHUNK) \<and> 0 < length (last ns) \<and> length (last ns) \<le> CHUNK"

text \<open>What a volume answers to the read of a needle, and a needle that a read gets: from its volume, or, if that fails, from
  the replica of its chunk; a checksum that is known is right.\<close>

definition needle_answer :: "vrpc \<Rightarrow> u64 \<times> u64 \<Rightarrow> int \<times> bytes \<times> bytes" where
  "needle_answer vrpc loc = vrpc (fst loc) MSG_READ_NEEDLE (emit 64 [U64 FLD_INO (fst loc), U64 FLD_FILE_KEY (snd loc)]) []"

definition holds_needle :: "vrpc \<Rightarrow> u64 \<times> u64 \<Rightarrow> bytes \<Rightarrow> bool" where
  "holds_needle vrpc loc v \<longleftrightarrow> fst (needle_answer vrpc loc) = 0 \<and> snd (snd (needle_answer vrpc loc)) = v"

definition volume_down :: "vrpc \<Rightarrow> u64 \<times> u64 \<Rightarrow> bool" where
  "volume_down vrpc loc \<longleftrightarrow> fst (needle_answer vrpc loc) < 0 \<and> fst (needle_answer vrpc loc) \<noteq> - ENOENT"

definition needle_served :: "vrpc \<Rightarrow> (bytes \<Rightarrow> u32) \<Rightarrow> finode \<Rightarrow> u64 \<Rightarrow> u64 \<times> u64 \<Rightarrow> bytes \<Rightarrow> bool" where
  "needle_served vrpc crc32 pi cur loc v \<longleftrightarrow>
    (case find_replica pi cur of
       None \<Rightarrow> holds_needle vrpc loc v
     | Some c \<Rightarrow> (cm_crc32 c = 0 \<or> crc32 v = cm_crc32 c) \<and>
         (holds_needle vrpc loc v \<or> volume_down vrpc loc \<and> holds_needle vrpc (cm_volume_id c, cm_needle_id c) v))"

definition file_served :: "vrpc \<Rightarrow> (bytes \<Rightarrow> u32) \<Rightarrow> bool \<Rightarrow> finode \<Rightarrow> bytes list \<Rightarrow> bool" where
  "file_served vrpc crc32 predict pi ns \<longleftrightarrow>
    (\<forall>cur. unat cur div CHUNK < length ns \<longrightarrow>
      (\<exists>loc. read_locate predict pi cur = (0, Some loc) \<and> needle_served vrpc crc32 pi cur loc (ns ! (unat cur div CHUNK))))"

lemma read_needle_holds:
  assumes "holds_needle vrpc loc v" "length v \<le> length buf"
  obtains buf' where "powerfs_net_read_needle vrpc (fst loc) (snd loc) buf = (0, buf', Some (length v))"
    "take (length v) buf' = v" "length buf' = length buf"
proof -
  obtain b where "vrpc (fst loc) MSG_READ_NEEDLE (emit 64 [U64 FLD_INO (fst loc), U64 FLD_FILE_KEY (snd loc)]) [] = (0, b, v)"
    using assms(1) by (auto simp: holds_needle_def needle_answer_def split_def prod_eq_iff)
  then show thesis
    using that [of "wr_bytes 0 v buf"] take_wr_bytes [of 0 v buf] assms(2) by (simp add: powerfs_net_read_needle_def)
qed

lemma read_chunk_served:
  assumes "needle_served vrpc crc32 pi cur loc v" "length v \<le> CHUNK" "length buf = CHUNK"
  obtains buf' where "read_chunk vrpc crc32 pi cur loc buf = Inr (buf', length v)" "take (length v) buf' = v" "length buf' = CHUNK"
proof -
  have ok: "check_needle crc32 (find_replica pi cur) (0, b, Some (length v)) = Inr (b, length v)"
    if "take (length v) b = v" for b
    using assms(1) that by (auto simp: check_needle_def needle_served_def crc_bad_def Let_def split: option.splits)
  show thesis
  proof (cases "holds_needle vrpc loc v")
    case True
    then obtain b where "powerfs_net_read_needle vrpc (fst loc) (snd loc) buf = (0, b, Some (length v))"
      "take (length v) b = v" "length b = length buf" using read_needle_holds assms(2,3) by metis
    then show thesis using that ok assms(3) by (simp add: read_chunk_def Let_def)
  next
    case False
    then obtain c where c: "find_replica pi cur = Some c" "volume_down vrpc loc" "holds_needle vrpc (cm_volume_id c, cm_needle_id c) v"
      using assms(1) by (auto simp: needle_served_def split: option.splits)
    obtain ret b d where a: "needle_answer vrpc loc = (ret, b, d)" by (metis prod_cases3)
    have r: "powerfs_net_read_needle vrpc (fst loc) (snd loc) buf = (ret, wr_bytes 0 d buf, None)" "ret < 0" "ret \<noteq> - ENOENT"
      using a c(2) by (auto simp: volume_down_def powerfs_net_read_needle_def needle_answer_def rpc_errno_def)
    obtain b' where "powerfs_net_read_needle vrpc (cm_volume_id c) (cm_needle_id c) (wr_bytes 0 d buf) = (0, b', Some (length v))"
      "take (length v) b' = v" "length b' = length (wr_bytes 0 d buf)"
      using read_needle_holds [OF c(3), of "wr_bytes 0 d buf"] assms(2,3) by auto
    then show thesis using that ok r c(1) assms(3) by (simp add: read_chunk_def Let_def)
  qed
qed

lemma drop_needles:
  "\<forall>i < k. length (ns ! i) = CHUNK \<Longrightarrow> k \<le> length ns \<Longrightarrow> drop (k * CHUNK) (concat ns) = concat (drop k ns)"
proof (induction k)
  case (Suc k)
  have "drop (Suc k * CHUNK) (concat ns) = drop CHUNK (drop (k * CHUNK) (concat ns))" by (simp add: add.commute)
  also have "\<dots> = drop CHUNK (concat (drop k ns))" using Suc by simp
  also have "drop k ns = ns ! k # drop (Suc k) ns" using Suc.prems(2) by (simp add: Cons_nth_drop_Suc)
  finally show ?case using Suc.prems(1) by simp
qed simp

lemma length_needles:
  assumes "needles_wf ns"
  shows "length (concat ns) = (length ns - 1) * CHUNK + length (last ns)"
proof -
  have "drop ((length ns - 1) * CHUNK) (concat ns) = last ns"
    using drop_needles [of "length ns - 1" ns] assms by (simp add: needles_wf_def drop_butlast [symmetric] last_conv_nth
        Cons_nth_drop_Suc [symmetric])
  then have "length (concat ns) - (length ns - 1) * CHUNK = length (last ns)" by (metis length_drop)
  moreover have "0 < length (last ns)" using assms by (simp add: needles_wf_def)
  moreover have "a - b = c \<Longrightarrow> 0 < c \<Longrightarrow> a = b + c" for a b c :: nat by simp
  ultimately show ?thesis by blast
qed

lemma needle_at:
  assumes "needles_wf ns" "c < length (concat ns)"
  shows "c div CHUNK < length ns" "c mod CHUNK < length (ns ! (c div CHUNK))" "length (ns ! (c div CHUNK)) \<le> CHUNK"
    "drop c (concat ns) = drop (c mod CHUNK) (ns ! (c div CHUNK)) @ concat (drop (Suc (c div CHUNK)) ns)"
proof -
  let ?k = "c div CHUNK" and ?n = "length ns"
  have C: "0 < CHUNK" by (simp add: CHUNK_def)
  have c: "c = ?k * CHUNK + c mod CHUNK" by simp
  have w: "ns \<noteq> []" "length (last ns) \<le> CHUNK" "\<forall>k < ?n - 1. length (ns ! k) = CHUNK"
    using assms(1) by (simp_all add: needles_wf_def)
  have "c < ?n * CHUNK"
    using assms(2) length_needles [OF assms(1)] w(1,2) by (cases ?n) (simp_all add: add.commute less_le_trans)
  then show k: "?k < ?n" by (simp add: less_mult_imp_div_less)
  then have d: "drop (?k * CHUNK) (concat ns) = ns ! ?k @ concat (drop (Suc ?k) ns)"
    using drop_needles [of ?k ns] w(3) by (simp add: Cons_nth_drop_Suc [symmetric])
  have len: "?k < ?n - 1 \<and> length (ns ! ?k) = CHUNK \<or> ?k = ?n - 1 \<and> ns ! ?k = last ns"
    using k w(1,3) by (cases "?k < ?n - 1") (auto simp: last_conv_nth, metis Suc_pred length_greater_0_conv less_antisym One_nat_def)
  then show "length (ns ! ?k) \<le> CHUNK" using w(2) by auto
  show off: "c mod CHUNK < length (ns ! ?k)"
    using len
  proof
    assume l: "?k = ?n - 1 \<and> ns ! ?k = last ns"
    then have "c < ?k * CHUNK + length (ns ! ?k)" using assms(2) length_needles [OF assms(1)] by metis
    then show ?thesis using c by linarith
  qed (use C in simp)
  have "drop c (concat ns) = drop (c mod CHUNK) (drop (?k * CHUNK) (concat ns))"
    by (metis c add.commute drop_drop)
  then show "drop c (concat ns) = drop (c mod CHUNK) (ns ! ?k) @ concat (drop (Suc ?k) ns)"
    using d off by simp
qed

lemma file_step:
  assumes "needles_wf ns" "unat cur < length (concat ns)" "file_served vrpc crc32 predict pi ns" "length nbuf = CHUNK" "remaining > 0"
    "n = min remaining (length (ns ! (unat cur div CHUNK)) - unat cur mod CHUNK)"
  obtains nbuf' where "length nbuf' = CHUNK"
    "net_read_loop vrpc crc32 predict pi cur remaining nbuf acc =
      (let acc = acc @ take n (drop (unat cur) (concat ns)); v = ns ! (unat cur div CHUNK)
       in if length v < CHUNK \<and> unat cur mod CHUNK + n \<ge> length v then (0, acc)
          else net_read_loop vrpc crc32 predict pi (cur + of_nat n) (remaining - n) nbuf' acc)"
proof -
  let ?v = "ns ! (unat cur div CHUNK)" and ?off = "unat cur mod CHUNK"
  note at = needle_at [OF assms(1,2)]
  have off: "unat (cur mod POWERFS_CHUNK_SIZE) = ?off" by (simp add: unat_mod CHUNK_def)
  from assms(3) at(1) obtain loc where loc: "read_locate predict pi cur = (0, Some loc)" "needle_served vrpc crc32 pi cur loc ?v"
    unfolding file_served_def by blast
  obtain b where b: "read_chunk vrpc crc32 pi cur loc nbuf = Inr (b, length ?v)" "take (length ?v) b = ?v" "length b = CHUNK"
    by (rule read_chunk_served [OF loc(2) at(3) assms(4)])
  have n: "copy_len remaining ?off (length ?v) = n" using at(2) assms(6) by (simp add: copy_len_def)
  have "n \<le> length ?v - ?off" using assms(6) by simp
  then have "take n (drop ?off (take (length ?v) b)) = take n (drop ?off b)" by (simp add: drop_take min_def)
  then have "take n (drop ?off b) = take n (drop ?off ?v)" unfolding b(2) by (rule sym)
  also have "\<dots> = take n (drop (unat cur) (concat ns))" unfolding at(4) using assms(6) by simp
  finally have "copy_piece remaining ?off (length ?v) b = take n (drop (unat cur) (concat ns))"
    using n at(2) by (simp add: copy_piece_def)
  then have "net_read_loop vrpc crc32 predict pi cur remaining nbuf acc =
      (let acc = acc @ take n (drop (unat cur) (concat ns))
       in if length ?v < CHUNK \<and> ?off + n \<ge> length ?v then (0, acc)
          else net_read_loop vrpc crc32 predict pi (cur + of_nat n) (remaining - n) b acc)"
    using assms(5) loc(1) b(1) n by (subst net_read_loop.simps) (simp add: off Let_def)
  then show thesis using that [OF b(3)] by (simp add: Let_def)
qed

lemma needle_nonempty:
  assumes "needles_wf ns" "k < length ns"
  shows "ns ! k \<noteq> []"
proof (cases "k < length ns - 1")
  case True
  then have "length (ns ! k) = CHUNK" using assms(1) by (simp add: needles_wf_def)
  then show ?thesis by (auto simp: CHUNK_def)
next
  case False
  then have "k = length ns - 1" using assms(2) by simp
  then have "ns ! k = last ns" using assms by (simp add: needles_wf_def last_conv_nth)
  then show ?thesis using assms(1) by (simp add: needles_wf_def)
qed

lemma net_read_loop_file:
  assumes wf: "needles_wf ns" "length (concat ns) < 2 ^ 64" "file_served vrpc crc32 predict pi ns"
  shows "unat cur < length (concat ns) \<Longrightarrow> length nbuf = CHUNK \<Longrightarrow>
    length (last ns) < CHUNK \<or> unat cur + remaining \<le> length (concat ns) \<Longrightarrow>
    net_read_loop vrpc crc32 predict pi cur remaining nbuf acc = (0, acc @ take remaining (drop (unat cur) (concat ns)))"
proof (induction remaining arbitrary: cur nbuf acc rule: less_induct)
  case (less remaining)
  let ?f = "concat ns" and ?v = "ns ! (unat cur div CHUNK)" and ?off = "unat cur mod CHUNK"
  show ?case
  proof (cases "remaining = 0")
    case False
    define n where "n = min remaining (length ?v - ?off)"
    note at = needle_at [OF wf(1) less.prems(1)]
    obtain b where b: "length b = CHUNK"
      and step: "net_read_loop vrpc crc32 predict pi cur remaining nbuf acc =
        (let acc = acc @ take n (drop (unat cur) ?f)
         in if length ?v < CHUNK \<and> ?off + n \<ge> length ?v then (0, acc)
            else net_read_loop vrpc crc32 predict pi (cur + of_nat n) (remaining - n) b acc)"
      using file_step [OF wf(1) less.prems(1) wf(3) less.prems(2) _ n_def] False by (auto simp: Let_def)
    have n: "0 < n" "n \<le> remaining" "?off + n \<le> length ?v" using at(2) False by (auto simp: n_def)
    have split: "take remaining (drop (unat cur) ?f) = take n (drop (unat cur) ?f) @ take (remaining - n) (drop (unat cur + n) ?f)"
      using take_add [of n "remaining - n" "drop (unat cur) ?f"] n(2) by (simp add: add.commute)
    have "drop (unat cur + n) ?f = drop n (drop (unat cur) ?f)" by (simp add: add.commute)
    then have dn: "drop (unat cur + n) ?f = drop (?off + n) ?v @ concat (drop (Suc (unat cur div CHUNK)) ns)"
      unfolding at(4) using n(3) by (simp add: add.commute)
    show ?thesis
    proof (cases "length ?v < CHUNK \<and> ?off + n \<ge> length ?v")
      case True
      have "\<not> unat cur div CHUNK < length ns - 1" using True wf(1) by (auto simp: needles_wf_def)
      then have "drop (unat cur + n) ?f = []" using dn True by simp
      then show ?thesis using step True split by simp
    next
      case nb: False
      have l: "net_read_loop vrpc crc32 predict pi cur remaining nbuf acc =
          net_read_loop vrpc crc32 predict pi (cur + of_nat n) (remaining - n) b (acc @ take n (drop (unat cur) ?f))"
        using step nb by (simp add: Let_def)
      show ?thesis
      proof (cases "remaining - n = 0")
        case True
        then show ?thesis using l split by (simp add: net_read_loop.simps)
      next
        case more: False
        have full: "length ?v = CHUNK" using more nb at(3) by (auto simp: n_def)
        have lt: "unat cur + n < length ?f"
        proof (cases "Suc (unat cur div CHUNK) < length ns")
          case True
          have "ns ! Suc (unat cur div CHUNK) \<noteq> []" using needle_nonempty [OF wf(1) True] .
          then have "drop (unat cur + n) ?f \<noteq> []"
            using True by (simp add: dn Cons_nth_drop_Suc [OF True, symmetric])
          then show ?thesis by simp
        next
          case False
          then have "?v = last ns" using at(1) by (metis Suc_lessI diff_Suc_1 last_conv_nth length_0_conv not_less_zero)
          then show ?thesis using less.prems(3) full more n(2) by auto
        qed
        then have u: "unat (cur + of_nat n) = unat cur + n"
          using wf(2) by (simp add: unat_word_ariths unat_of_nat)
        show ?thesis
          using less.IH [of "remaining - n" "cur + of_nat n" b] l split u lt b n less.prems(3) False by simp
      qed
    qed
  qed (simp add: net_read_loop.simps)
qed

text \<open>C2: Reading refines the file: when every needle of a file can be had, from its volume or from the replica of a chunk
  whose volume fails, a read that starts inside of the file returns exactly the bytes asked for, up to the end of the
  file. The needles may lie on any volumes, as the layout says, and a read may span any number of them.\<close>

theorem net_read_returns_file:
  assumes "needles_wf ns" "length (concat ns) < 2 ^ 64" "file_served vrpc crc32 predict pi ns"
    "pi_reliability pi \<noteq> RELIABILITY_EC \<or> pi_ec_chunks pi = []" "unat len \<le> buf_cap" "length nbuf = CHUNK"
    "unat offset < length (concat ns)" "length (last ns) < CHUNK \<or> unat offset + unat len \<le> length (concat ns)"
  shows "powerfs_net_read vrpc crc32 predict (Some nbuf) ee (Some pi) offset len buf_cap =
    Some (0, take (unat len) (drop (unat offset) (concat ns)))"
  using net_read_loop_file [OF assms(1-3) assms(7,6,8), of "[]"] assms(4,5)
  by (auto simp: powerfs_net_read_def)

definition sample_env :: ec_env where
  "sample_env = \<lparr>ee_lists = True, ee_shard = (\<lambda>_. None), ee_group = None, ee_codec = (\<lambda>_. True)\<rparr>"

definition flat_inode :: finode where
  "flat_inode = sample_inode\<lparr>pi_placement := PLACEMENT_FLAT, pi_reliability := 0, pi_volume_id := 3, pi_file_key := 9, pi_chunks := [],
    pi_replica_chunks := []\<rparr>"

lemma flat_inode_simps: "pi_reliability flat_inode = 0" "pi_replica_chunks flat_inode = []"
  by (simp_all add: flat_inode_def)

lemma flat_locate: "powerfs_locate_chunk flat_inode cur = (0, Some (3, 9 + cur div effective_chunk_size flat_inode))"
  by (simp add: powerfs_locate_chunk_def flat_inode_def Let_def)

theorem net_read_returns_file_witness:
  "powerfs_net_read (\<lambda>_ _ _ _. (0, [], [10, 11, 12])) (\<lambda>_. 0) False (Some (replicate CHUNK 0)) sample_env (Some flat_inode) 1 100 4096 =
    Some (0, [11, 12])"
proof -
  have "needles_wf [[10, 11, 12]]" by (simp add: needles_wf_def CHUNK_def)
  moreover have "length (concat [[10, 11, 12 :: u8]]) < 2 ^ 64" by simp
  moreover have "file_served (\<lambda>_ _ _ _. (0, [], [10, 11, 12])) (\<lambda>_. 0) False flat_inode [[10, 11, 12]]"
    by (auto simp: file_served_def read_locate_def flat_locate needle_served_def holds_needle_def needle_answer_def find_replica_def
        flat_inode_simps)
  ultimately show ?thesis
    using net_read_returns_file [of "[[10, 11, 12]]" "\<lambda>_ _ _ _. (0, [], [10, 11, 12])" "\<lambda>_. 0" False flat_inode 100 4096
        "replicate CHUNK 0" 1 sample_env]
    by (simp add: flat_inode_simps CHUNK_def)
qed

text \<open>C33: A read that begins in a hole ends at the end of that chunk: it returns zeros up to there and no more, whatever the
  following chunks hold. The code that is meant to go on after a hole sets the result to zero first, and the test for
  the end of the file then takes the hole for a short last needle.\<close>

theorem read_stops_at_hole:
  assumes "read_locate predict pi offset = (0, Some loc)" "rpc_errno (fst (needle_answer vrpc loc)) = - ENOENT"
    "pi_reliability pi \<noteq> RELIABILITY_EC \<or> pi_ec_chunks pi = []" "unat len \<le> buf_cap" "0 < len"
  shows "powerfs_net_read vrpc crc32 predict (Some nbuf) ee (Some pi) offset len buf_cap =
    Some (0, replicate (min (unat len) (CHUNK - unat offset mod CHUNK)) 0)"
proof -
  let ?off = "unat offset mod CHUNK"
  have off: "unat (offset mod POWERFS_CHUNK_SIZE) = ?off" by (simp add: unat_mod CHUNK_def)
  have "fst (needle_answer vrpc loc) \<noteq> 0" using assms(2) by (auto simp: rpc_errno_def)
  then obtain b where "powerfs_net_read_needle vrpc (fst loc) (snd loc) nbuf = (- ENOENT, b, None)"
    using assms(2) by (auto simp: powerfs_net_read_needle_def needle_answer_def split_def Let_def)
  then have "read_chunk vrpc crc32 pi offset loc nbuf = Inr (b, 0)"
    by (simp add: read_chunk_def check_needle_def crc_bad_def Let_def split: option.split)
  moreover have "0 < unat len" using assms(5) by (simp add: unat_gt_0 word_gt_0)
  ultimately have "net_read_loop vrpc crc32 predict pi offset (unat len) nbuf [] =
      (0, replicate (min (unat len) (CHUNK - ?off)) 0)"
    using assms(1) by (subst net_read_loop.simps) (simp add: off Let_def copy_piece_def copy_len_def CHUNK_def)
  then show ?thesis using assms(3,4) by (auto simp: powerfs_net_read_def)
qed

theorem read_stops_at_hole_witness:
  "powerfs_net_read (\<lambda>_ _ _ _. (1, [], [])) (\<lambda>_. 0) False (Some []) sample_env (Some flat_inode) 1048574 4096 4096 =
    Some (0, replicate 2 0)"
  using read_stops_at_hole [of False flat_inode 1048574 "(3, 9 + 1048574 div effective_chunk_size flat_inode)" "\<lambda>_ _ _ _. (1, [], [])"
      4096 4096 "\<lambda>_. 0" "[]" sample_env]
  by (simp add: read_locate_def flat_locate needle_answer_def rpc_errno_def net_status_to_errno_def flat_inode_simps CHUNK_def)

section \<open>The contents of a written needle\<close>

definition patched :: "nat \<Rightarrow> bytes \<Rightarrow> bytes \<Rightarrow> bytes \<Rightarrow> bytes" where
  "patched off data old junk =
    (if off \<le> length old then take off old @ data @ drop (off + length data) old
     else old @ take (off - length old) (drop (length old) junk) @ data)"

lemma wr_bytes_split: "p + length bs \<le> length buf \<Longrightarrow> wr_bytes p bs buf = take p buf @ bs @ drop (p + length bs) buf"
  using append_take_drop_id [of "p + length bs" "wr_bytes p bs buf"] take_wr_bytes [of p bs buf]
    drop_wr_bytes [of p bs "p + length bs" buf] by simp

lemma patched_buffer:
  assumes "off + length data \<le> length junk" "length old \<le> length junk"
  shows "take (max (off + length data) (length old)) (wr_bytes off data (wr_bytes 0 old junk)) = patched off data old junk"
proof -
  have b: "wr_bytes 0 old junk = old @ drop (length old) junk" using wr_bytes_split [of 0 old junk] assms(2) by simp
  have w: "wr_bytes off data (old @ drop (length old) junk) =
      take off (old @ drop (length old) junk) @ data @ drop (off + length data) (old @ drop (length old) junk)"
    using assms by (intro wr_bytes_split) simp
  show ?thesis
    using assms unfolding b w by (auto simp: patched_def max_def take_drop)
qed

text \<open>C21: A write stores the needle as it was, with the data laid over it, when the data begins inside of what is stored or
  right behind it. When it begins further on, the bytes in between are whatever the freshly allocated buffer held: a
  needle that does not exist yet is filled up to the offset with uninitialised memory, which is sent to the server.\<close>

theorem net_write_content:
  assumes "volume_id \<noteq> 0" "file_key \<noteq> 0" "off = unat (offset mod POWERFS_CHUNK_SIZE)" "off + length data \<le> CHUNK"
    "length junk = CHUNK" "nid = file_key + offset div POWERFS_CHUNK_SIZE" "length old \<le> CHUNK"
    "holds_needle vrpc (volume_id, nid) old \<or>
      rpc_errno (fst (needle_answer vrpc (volume_id, nid))) = - ENOENT \<and> snd (snd (needle_answer vrpc (volume_id, nid))) = [] \<and> old = []"
  shows "powerfs_net_write vrpc (Some junk) ino volume_id file_key offset data written =
    (let ret = powerfs_net_write_needle vrpc volume_id nid ino (patched off data old junk) None
     in if ret < 0 then (ret, written) else (0, set_out (Some (of_nat (length data))) written))"
proof -
  obtain ret b d where a: "needle_answer vrpc (volume_id, nid) = (ret, b, d)" by (metis prod_cases3)
  have "\<exists>r len. powerfs_net_read_needle vrpc volume_id nid junk = (r, wr_bytes 0 old junk, len) \<and> \<not> (r < 0 \<and> r \<noteq> - ENOENT) \<and>
      (case len of Some n \<Rightarrow> n | None \<Rightarrow> 0) = length old"
    using assms(8) a by (auto simp: holds_needle_def powerfs_net_read_needle_def needle_answer_def rpc_errno_def)
  then obtain r len where r: "powerfs_net_read_needle vrpc volume_id nid junk = (r, wr_bytes 0 old junk, len)"
    "\<not> (r < 0 \<and> r \<noteq> - ENOENT)" "(case len of Some n \<Rightarrow> n | None \<Rightarrow> 0) = length old" by blast
  have "(if off + length data > length old then off + length data else length old) = max (off + length data) (length old)" by simp
  then have c: "take (if off + length data > (case len of Some n \<Rightarrow> n | None \<Rightarrow> 0) then off + length data
        else case len of Some n \<Rightarrow> n | None \<Rightarrow> 0) (wr_bytes off data (wr_bytes 0 old junk)) =
      patched off data old junk" unfolding r(3) using patched_buffer [of off data junk old] assms(4,5,7) by simp
  have "\<not> off + length data > CHUNK" using assms(4) by simp
  have f: "(if r < 0 \<and> r \<noteq> - ENOENT then x else y) = y" for x y :: "int \<times> u32 option" using r(2) by auto
  show ?thesis
    using assms(1,2) \<open>\<not> off + length data > CHUNK\<close> unfolding powerfs_net_write_def assms(6) [symmetric] assms(3) [symmetric] Let_def
    by (simp add: c f r(1) cong: if_cong split del: if_split)
qed

theorem net_write_content_witness:
  "powerfs_net_write (\<lambda>_ m _ d. if m = MSG_READ_NEEDLE then (0, [], [1, 2, 3]) else (if d = [1, 9, 3] then 0 else 4, [], []))
    (Some (replicate CHUNK 0)) 1 3 9 1 [9] (Some 0) = (0, Some 1)"
proof -
  let ?v = "\<lambda>_ m _ d. if m = MSG_READ_NEEDLE then (0, [], [1, 2, 3 :: u8]) else (if d = [1, 9, 3 :: u8] then 0 else 4, [], [])"
  have h: "(3 :: u64) \<noteq> 0" "(9 :: u64) \<noteq> 0" "1 = unat ((1 :: u64) mod POWERFS_CHUNK_SIZE)" "1 + length [9 :: u8] \<le> CHUNK"
    "length (replicate CHUNK (0 :: u8)) = CHUNK" "9 = 9 + (1 :: u64) div POWERFS_CHUNK_SIZE" "length [1, 2, 3 :: u8] \<le> CHUNK"
    "holds_needle ?v (3, 9) [1, 2, 3] \<or> rpc_errno (fst (needle_answer ?v (3, 9))) = - ENOENT \<and>
       snd (snd (needle_answer ?v (3, 9))) = [] \<and> [1, 2, 3] = []"
    by (simp_all add: holds_needle_def needle_answer_def) (simp_all add: CHUNK_def)
  have "patched 1 [9] [1, 2, 3] (replicate CHUNK 0) = [1, 9, 3]" by (simp add: patched_def)
  then show ?thesis
    unfolding net_write_content [OF h] by (simp add: powerfs_net_write_needle_def rpc_errno_def set_out_def)
qed

section \<open>Erasure coded files\<close>

lemma ec_copy_shards_prefix:
  assumes "\<And>i. i < d \<Longrightarrow> \<exists>s. shards ! i = Some s \<and> length s = CHUNK" "length g = d * CHUNK" "m \<le> d"
  shows "length (ec_copy_shards m shards g) = d * CHUNK \<and>
    take (m * CHUNK) (ec_copy_shards m shards g) = concat (map (\<lambda>i. the (shards ! i)) [0..<m])"
  using assms(3)
proof (induction m)
  case (Suc m)
  obtain s where s: "shards ! m = Some s" "length s = CHUNK" using assms(1) Suc.prems by (meson Suc_le_lessD)
  let ?g = "ec_copy_shards m shards g"
  have e: "ec_copy_shards (Suc m) shards g = wr_bytes (m * CHUNK) s ?g" using s by (simp add: ec_copy_shards_def)
  have l: "length ?g = d * CHUNK" "take (m * CHUNK) ?g = concat (map (\<lambda>i. the (shards ! i)) [0..<m])" using Suc by simp_all
  have "Suc m * CHUNK \<le> d * CHUNK" using Suc.prems by (rule mult_le_mono1)
  then have "take (m * CHUNK + length s) (wr_bytes (m * CHUNK) s ?g) = take (m * CHUNK) ?g @ s"
    using l(1) s(2) by (intro take_wr_bytes) (simp add: add.commute)
  then show ?case using e l s by (simp add: add.commute)
qed (simp add: assms(2) ec_copy_shards_def)

lemma ec_copy_shards_concat:
  assumes "\<And>i. i < d \<Longrightarrow> \<exists>s. shards ! i = Some s \<and> length s = CHUNK" "length g = d * CHUNK"
  shows "ec_copy_shards d shards g = concat (map (\<lambda>i. the (shards ! i)) [0..<d])"
  using ec_copy_shards_prefix [OF assms, of d] by (metis order_refl take_all)

text \<open>C20: A read of an erasure coded file returns the bytes of its data shards when every one of them can be read, and an
  error when a single one is missing: parity never helps, because the constructor of the codec always fails. A file
  whose layout names no data shards makes the read divide by zero.\<close>

theorem ec_read_all_or_error:
  assumes "d = unat (pi_ec_data pi)" "d + unat (pi_ec_parity pi) < 2 ^ 32" "ntot = pi_ec_data pi + pi_ec_parity pi"
    "gsize = ucast (pi_ec_data pi) * POWERFS_CHUNK_SIZE" "base = offset div gsize * ucast ntot"
    "pi_ec_chunks pi \<noteq> []" "base + ucast ntot \<le> of_nat (length (pi_ec_chunks pi))" "ee_lists ee"
    "ee_group ee = Some junk" "length junk = d * CHUNK" "\<And>i b. ee_shard ee i = Some b \<Longrightarrow> length b = CHUNK"
    "shard = (\<lambda>i. ec_read_shard vrpc crc32 ee (pi_ec_chunks pi ! (unat base + i)) i)"
    "result = powerfs_net_read_ec vrpc crc32 ee pi offset len buf_cap"
  shows "(d = 0 \<longrightarrow> result = None) \<and>
    (0 < d \<and> (\<forall>i < d. shard i \<noteq> None) \<longrightarrow>
      result = Some (0, take (min (min (unat len) (unat gsize - unat (offset - offset div gsize * gsize))) buf_cap)
        (drop (unat (offset - offset div gsize * gsize)) (concat (map (\<lambda>i. the (shard i)) [0..<d]))))) \<and>
    (0 < d \<and> (\<exists>i < d. shard i = None) \<longrightarrow> result \<in> {Some (- EINVAL, []), Some (- ENOMEM, [])})"
proof -
  have nt: "unat ntot = d + unat (pi_ec_parity pi)" using assms(1-3) by (simp add: unat_word_ariths)
  have "unat gsize = d * CHUNK"
    using assms(2) unfolding assms(1,4) by (subst unat_mult_lem [THEN iffD1]) (auto simp: CHUNK_def)
  then have g0: "gsize = 0 \<longleftrightarrow> d = 0" by (simp add: unat_eq_0 [symmetric] CHUNK_def)
  let ?sh = "map shard [0..<unat ntot]"
  have slen: "length s = CHUNK" if "shard i = Some s" for i s
    using that assms(11) by (auto simp: assms(12) ec_read_shard_def powerfs_net_read_needle_def Let_def split: option.splits if_splits prod.splits)
  have r: "result = (case ec_reconstruct ee pi ?sh of Inl e \<Rightarrow> Some (e, [])
      | Inr sh \<Rightarrow> Some (0, take (min (min (unat len) (unat gsize - unat (offset - offset div gsize * gsize))) buf_cap)
          (drop (unat (offset - offset div gsize * gsize)) (ec_copy_shards d sh junk))))" if "0 < d"
    using that g0 assms(6-9) unfolding assms(13) powerfs_net_read_ec_def
    by (auto simp: Let_def assms(1,3-5,12) split: sum.split)
  have zero: "result = None" if "d = 0" using that g0 by (simp add: assms(13) powerfs_net_read_ec_def Let_def assms(4))
  have all: "ec_reconstruct ee pi ?sh = Inr ?sh \<and> ec_copy_shards d ?sh junk = concat (map (\<lambda>i. the (shard i)) [0..<d])"
    if a: "\<forall>i < d. shard i \<noteq> None"
  proof
    have nth: "?sh ! i = shard i" if "i < d" for i using that nt by simp
    show "ec_reconstruct ee pi ?sh = Inr ?sh" using a nt by (simp add: ec_reconstruct_def list_all_iff assms(1) [symmetric])
    have "ec_copy_shards d ?sh junk = concat (map (\<lambda>i. the (?sh ! i)) [0..<d])"
      using a nth slen assms(10) by (intro ec_copy_shards_concat) (metis option.exhaust_sel)
    moreover have "map (\<lambda>i. the (?sh ! i)) [0..<d] = map (\<lambda>i. the (shard i)) [0..<d]" using nth by (intro map_cong) auto
    ultimately show "ec_copy_shards d ?sh junk = concat (map (\<lambda>i. the (shard i)) [0..<d])" by (rule HOL.trans [OF _ arg_cong])
  qed
  have some: "\<exists>e. ec_reconstruct ee pi ?sh = Inl e \<and> e \<in> {- EINVAL, - ENOMEM}" if "i < d" "shard i = None" for i
    using that nt ec_init_never_succeeds [of "pi_ec_data pi" "pi_ec_parity pi" "ee_codec ee"] assms(2)
    by (auto simp: ec_reconstruct_def list_all_iff assms(1) [symmetric] Let_def split: sum.splits)
  have miss: "result \<in> {Some (- EINVAL, []), Some (- ENOMEM, [])}" if "i < d" "shard i = None" for i
    using some [OF that] r that by auto
  show ?thesis using zero miss all r by (auto simp: not_None_eq [symmetric] simp del: not_None_eq)
qed

definition ec_inode :: finode where
  "ec_inode = flat_inode\<lparr>pi_reliability := RELIABILITY_EC, pi_ec_data := 1, pi_ec_parity := 1, pi_ec_chunks := [sample_chunk, sample_chunk]\<rparr>"

definition ec_sample_env :: ec_env where
  "ec_sample_env = \<lparr>ee_lists = True, ee_shard = (\<lambda>_. Some (replicate CHUNK 0)), ee_group = Some (replicate CHUNK 0),
    ee_codec = (\<lambda>_. True)\<rparr>"

theorem ec_read_all_or_error_witness:
  "powerfs_net_read_ec (\<lambda>_ _ _ _. (- 5, [], [])) (\<lambda>_. 0) ec_sample_env ec_inode 0 4096 4096 \<in> {Some (- EINVAL, []), Some (- ENOMEM, [])}"
proof -
  let ?s = "\<lambda>i. ec_read_shard (\<lambda>_ _ _ _. (- 5, [], [])) (\<lambda>_. 0) ec_sample_env (pi_ec_chunks ec_inode ! (unat (0 :: u64) + i)) i"
  have h: "1 = unat (pi_ec_data ec_inode)" "1 + unat (pi_ec_parity ec_inode) < 2 ^ 32" "2 = pi_ec_data ec_inode + pi_ec_parity ec_inode"
    "0x100000 = ucast (pi_ec_data ec_inode) * (POWERFS_CHUNK_SIZE :: u64)" "0 = (0 :: u64) div 0x100000 * ucast (2 :: u32)"
    "pi_ec_chunks ec_inode \<noteq> []" "0 + ucast (2 :: u32) \<le> (of_nat (length (pi_ec_chunks ec_inode)) :: u64)" "ee_lists ec_sample_env"
    "ee_group ec_sample_env = Some (replicate CHUNK 0)" "length (replicate CHUNK (0 :: u8)) = 1 * CHUNK"
    "\<And>i b. ee_shard ec_sample_env i = Some b \<Longrightarrow> length b = CHUNK"
    by (auto simp: ec_inode_def ec_sample_env_def)
  have "?s 0 = None" by (simp add: ec_read_shard_def ec_sample_env_def powerfs_net_read_needle_def rpc_errno_def)
  then show ?thesis using ec_read_all_or_error [OF h refl refl, where vrpc = "\<lambda>_ _ _ _. (- 5, [], [])" and ?crc32.0 = "\<lambda>_. 0" and len = 4096
      and buf_cap = 4096] by auto
qed

section \<open>The pool of volume connections\<close>

definition vol_key :: "vol_conn \<Rightarrow> bytes \<times> u16 \<times> server_type" where
  "vol_key c = (vc_addr c, vc_port c, vc_type c)"

definition vol_pool_inv :: "vol_pool \<Rightarrow> bool" where
  "vol_pool_inv p \<longleftrightarrow> length (vp_conns p) \<le> POWERFS_NET_MAX_VOLUMES \<and> distinct (map vol_key (filter vc_in_use (vp_conns p)))"

lemma find_vol_conn_by_addr:
  "case List.find (\<lambda>i. same_server ip port ty (vp_conns p ! i)) [0..<length (vp_conns p)] of
     Some i \<Rightarrow> i < length (vp_conns p) \<and> same_server ip port ty (vp_conns p ! i)
   | None \<Rightarrow> (ip, port, ty) \<notin> vol_key ` set (filter vc_in_use (vp_conns p))"
  by (auto simp: find_None_iff find_Some_iff same_server_def vol_key_def in_set_conv_nth split: option.split)

text \<open>A connection to a server is made once: the call returns the index of a connection to that server, and the pool keeps
  one connection per address, port and kind, within its array.\<close>

lemma ensure_volume_conn_inv:
  assumes "vol_pool_inv p" "length ip \<le> 63" "pfs_ensure_volume_conn mem ip port ty p = (idx, queued, p')"
  shows "vol_pool_inv p' \<and>
    (idx \<ge> 0 \<longrightarrow> nat idx < length (vp_conns p') \<and> same_server ip port ty (vp_conns p' ! nat idx)) \<and>
    (queued \<longleftrightarrow> vp_conns p' \<noteq> vp_conns p)"
proof (cases "List.find (\<lambda>i. same_server ip port ty (vp_conns p ! i)) [0..<length (vp_conns p)]")
  case None
  then have "(ip, port, ty) \<notin> vol_key ` set (filter vc_in_use (vp_conns p))" using find_vol_conn_by_addr [of ip port ty p] by simp
  then show ?thesis using assms None
    by (auto simp: pfs_ensure_volume_conn_def pfs_find_vol_conn_by_addr_def vol_pool_inv_def same_server_def vol_key_def Let_def
        split: if_splits)
next
  case (Some i)
  then show ?thesis using assms find_vol_conn_by_addr [of ip port ty p]
    by (auto simp: pfs_ensure_volume_conn_def pfs_find_vol_conn_by_addr_def Let_def)
qed

text \<open>A volume with a route is reached over the connection of its route alone; another one over a connection of the right
  kind, and over one that is up if there is any.\<close>

lemma find_volume_conn_sound:
  assumes "powerfs_net_find_volume_conn p volume_id is_meta = Some i"
  shows "i < length (vp_conns p) \<and> vc_in_use (vp_conns p ! i) \<and>
    (volume_id \<notin> vr_volume_id ` set (vp_routes p) \<longrightarrow>
      vc_type (vp_conns p ! i) = (if is_meta then Server_Volume_Meta else Server_Volume) \<and>
      (vc_state (vp_conns p ! i) \<noteq> Conn_Connected \<longrightarrow>
        (\<forall>j < length (vp_conns p). vc_in_use (vp_conns p ! j) \<and> vc_type (vp_conns p ! j) = vc_type (vp_conns p ! i) \<longrightarrow>
          vc_state (vp_conns p ! j) \<noteq> Conn_Connected)))"
proof (cases "List.find (\<lambda>r. vr_volume_id r = volume_id) (vp_routes p)")
  case (Some r)
  then have "volume_id \<in> vr_volume_id ` set (vp_routes p)" by (auto simp: find_Some_iff)
  then show ?thesis using assms Some
    by (auto simp: powerfs_net_find_volume_conn_def powerfs_net_get_volume_conn_def Let_def split: if_splits)
next
  case None
  define want where "want = (if is_meta then Server_Volume_Meta else Server_Volume)"
  define fit where "fit = filter (\<lambda>i. vc_in_use (vp_conns p ! i) \<and> vc_type (vp_conns p ! i) = want) [0..<length (vp_conns p)]"
  have i: "(case List.find (\<lambda>i. vc_state (vp_conns p ! i) = Conn_Connected) fit of
      Some i \<Rightarrow> Some i | None \<Rightarrow> (case fit of [] \<Rightarrow> None | i # _ \<Rightarrow> Some i)) = Some i"
    using assms unfolding powerfs_net_find_volume_conn_def None option.case Let_def fit_def want_def .
  have "i \<in> set fit \<and> (vc_state (vp_conns p ! i) = Conn_Connected \<or> (\<forall>j \<in> set fit. vc_state (vp_conns p ! j) \<noteq> Conn_Connected))"
  proof (cases "List.find (\<lambda>i. vc_state (vp_conns p ! i) = Conn_Connected) fit")
    case (Some j)
    then have "j = i" using i by simp
    then show ?thesis using Some by (auto simp: find_Some_iff)
  next
    case None
    then have "i \<in> set fit" using i by (auto split: list.splits)
    then show ?thesis using None by (auto simp: find_None_iff)
  qed
  then show ?thesis unfolding want_def [symmetric] by (auto simp: fit_def)
qed

text \<open>A send that is refused gives back its place: the number of requests in flight on the connection is what it was.\<close>

lemma refused_send_balanced:
  assumes "length (fl_conns fl) = POWERFS_FLOW_MAX_CONNS" "i < POWERFS_NET_MAX_VOLUMES"
  shows "powerfs_flow_conn_active
    (powerfs_flow_record_complete (vol_flow_idx i) 0 0 True (powerfs_flow_record_start (vol_flow_idx i) n fl)) j =
    powerfs_flow_conn_active fl j"
  using assms
  by (auto simp: powerfs_flow_conn_active_def powerfs_flow_record_complete_def powerfs_flow_record_start_def flow_get_stats_def
      vol_flow_idx_def Let_def nth_list_update)

lemma async_refused_balanced:
  assumes "needle_async do_send stop mem None p volume_id msg body data fl = (ret, fl')" "ret < 0"
    "\<And>c s. snd (do_send c msg body data s) = s" "length (fl_conns fl) = POWERFS_FLOW_MAX_CONNS"
    "length (vp_conns p) \<le> POWERFS_NET_MAX_VOLUMES"
  shows "powerfs_flow_conn_active fl' j = powerfs_flow_conn_active fl j"
proof -
  have "c < POWERFS_NET_MAX_VOLUMES" if "powerfs_net_find_volume_conn p volume_id False = Some c" for c
    using find_volume_conn_sound [OF that] assms(5) by simp
  note b = refused_send_balanced [OF assms(4) this]
  have "fl' = fl \<or> (\<exists>c. powerfs_net_find_volume_conn p volume_id False = Some c \<and>
      fl' = powerfs_flow_record_complete (vol_flow_idx c) 0 0 True
        (powerfs_flow_record_start (vol_flow_idx c) (of_nat (length body + length data)) fl))"
    using assms(1,2) assms(3) [symmetric]
    by (auto simp: needle_async_def Let_def split: if_splits option.splits prod.splits) (metis snd_conv)
  then show ?thesis using b by auto
qed

end
