(* ===== verification/Tlk.thy ===== *)
theory Tlk
  imports Prelude
begin

text \<open>
  The codec of the lock protocol (\<open>tlk_codec.c\<close>): frames of a message type, a little-endian payload length and
  tagged fields. The encoder appends fields to a caller's buffer and patches the length at the end; the decoder
  scans the payload once, rejects duplicate and overlong fields, and builds an index by tag.
\<close>

abbreviation EILSEQ :: int where "EILSEQ \<equiv> 84"
abbreviation TLK_ERR_TRUNCATED :: int where "TLK_ERR_TRUNCATED \<equiv> - ERANGE"
abbreviation TLK_ERR_NO_SPACE :: int where "TLK_ERR_NO_SPACE \<equiv> - ENOSPC"
abbreviation TLK_ERR_BAD_ENCODING :: int where "TLK_ERR_BAD_ENCODING \<equiv> - EILSEQ"
abbreviation TLK_ERR_DUPLICATE :: int where "TLK_ERR_DUPLICATE \<equiv> - ENODATA"
abbreviation TLK_ERR_TOO_LONG :: int where "TLK_ERR_TOO_LONG \<equiv> - E2BIG"
abbreviation TLK_MAX_FIELD_LEN :: nat where "TLK_MAX_FIELD_LEN \<equiv> 16384"
abbreviation TLK_OFF_ABSENT :: u16 where "TLK_OFF_ABSENT \<equiv> 0xFFFF"

section \<open>Encoder\<close>

record tlk_enc =
  tk_buf :: bytes
  tk_len :: nat
  tk_cap :: nat
  tk_payload_len_off :: nat
  tk_started :: bool

definition tlk_enc_init :: "bytes \<Rightarrow> nat \<Rightarrow> tlk_enc" where
  "tlk_enc_init buf cap = \<lparr>tk_buf = buf, tk_len = 0, tk_cap = cap, tk_payload_len_off = 0, tk_started = False\<rparr>"

definition tlk_enc_frame_start :: "u8 \<Rightarrow> tlk_enc \<Rightarrow> int \<times> tlk_enc" where
  "tlk_enc_frame_start msg_type enc =
    (if tk_started enc then (TLK_ERR_BAD_ENCODING, enc)
     else if tk_cap enc < 5 then (TLK_ERR_NO_SPACE, enc)
     else (0, enc\<lparr>tk_buf := wr_bytes 0 [msg_type, 0, 0, 0, 0] (tk_buf enc), tk_len := 5,
                  tk_payload_len_off := 1, tk_started := True\<rparr>))"

definition tlk_enc_field :: "u8 \<Rightarrow> bytes \<Rightarrow> tlk_enc \<Rightarrow> int \<times> tlk_enc" where
  "tlk_enc_field tag v enc =
    (if \<not> tk_started enc then (TLK_ERR_BAD_ENCODING, enc)
     else if tk_len enc + 5 + length v > tk_cap enc then (TLK_ERR_NO_SPACE, enc)
     else
       let buf = (tk_buf enc)[tk_len enc := tag];
           buf = wr_bytes (tk_len enc + 1) (le32 (of_nat (length v))) buf;
           buf = wr_bytes (tk_len enc + 5) v buf
       in (0, enc\<lparr>tk_buf := buf, tk_len := tk_len enc + 5 + length v\<rparr>))"

definition tlk_enc_u8 :: "u8 \<Rightarrow> u8 \<Rightarrow> tlk_enc \<Rightarrow> int \<times> tlk_enc" where
  "tlk_enc_u8 tag val = tlk_enc_field tag [val]"

definition tlk_enc_u32 :: "u8 \<Rightarrow> u32 \<Rightarrow> tlk_enc \<Rightarrow> int \<times> tlk_enc" where
  "tlk_enc_u32 tag val = tlk_enc_field tag (le32 val)"

definition tlk_enc_u64 :: "u8 \<Rightarrow> u64 \<Rightarrow> tlk_enc \<Rightarrow> int \<times> tlk_enc" where
  "tlk_enc_u64 tag val = tlk_enc_field tag (le64 val)"

definition tlk_enc_str :: "u8 \<Rightarrow> bytes \<Rightarrow> tlk_enc \<Rightarrow> int \<times> tlk_enc" where
  "tlk_enc_str tag str = tlk_enc_field tag str"

definition tlk_enc_frame_finalize :: "tlk_enc \<Rightarrow> int \<times> tlk_enc" where
  "tlk_enc_frame_finalize enc =
    (if \<not> tk_started enc then (TLK_ERR_BAD_ENCODING, enc)
     else if tk_len enc < 5 then (TLK_ERR_BAD_ENCODING, enc)
     else (int (tk_len enc),
           enc\<lparr>tk_buf := wr_bytes (tk_payload_len_off enc) (le32 (of_nat (tk_len enc - 5))) (tk_buf enc)\<rparr>))"

section \<open>Decoder\<close>

record tlk_dec =
  dk_frame :: bytes
  dk_msg_type :: u8
  dk_payload_len :: nat
  dk_off :: "u16 list"
  dk_len :: "u16 list"

text \<open>The scan of the payload, with the index as its state.\<close>

function tlk_scan :: "bytes \<Rightarrow> nat \<Rightarrow> nat \<Rightarrow> u16 list \<Rightarrow> u16 list \<Rightarrow> int \<times> u16 list \<times> u16 list" where
  "tlk_scan payload plen cursor off len =
    (if \<not> cursor < plen then (0, off, len)
     else if cursor + 5 > plen then (TLK_ERR_TRUNCATED, off, len)
     else
       let ftag = payload ! cursor; flen = unat (get_le32 (drop (cursor + 1) payload)); c = cursor + 5
       in if flen > TLK_MAX_FIELD_LEN then (TLK_ERR_TOO_LONG, off, len)
          else if c + flen > plen then (TLK_ERR_TRUNCATED, off, len)
          else if off ! unat ftag \<noteq> TLK_OFF_ABSENT then (TLK_ERR_DUPLICATE, off, len)
          else if c + flen > 0xFFFF then (TLK_ERR_TOO_LONG, off, len)
          else tlk_scan payload plen (c + flen) (off[unat ftag := of_nat c]) (len[unat ftag := of_nat flen]))"
  by pat_completeness auto
termination by (relation "measure (\<lambda>(_, plen, cursor, _). plen - cursor)") auto

declare tlk_scan.simps [simp del]

text \<open>The lengths of the index are not initialised by the code; they are read only where an offset was stored.\<close>

definition tlk_dec_init :: "bytes \<Rightarrow> int \<times> tlk_dec option" where
  "tlk_dec_init frame =
    (if length frame < 5 then (TLK_ERR_TRUNCATED, None)
     else
       let plen = unat (get_le32 (drop 1 frame))
       in if plen + 5 > length frame then (TLK_ERR_TRUNCATED, None)
          else
            case tlk_scan (drop 5 frame) plen 0 (replicate 256 TLK_OFF_ABSENT) (replicate 256 0) of
              (ret, off, len) \<Rightarrow>
                if ret \<noteq> 0 then (ret, None)
                else (0, Some \<lparr>dk_frame = frame, dk_msg_type = frame ! 0, dk_payload_len = plen, dk_off = off,
                             dk_len = len\<rparr>))"

definition tlk_dec_lookup :: "tlk_dec \<Rightarrow> u8 \<Rightarrow> int + bytes" where
  "tlk_dec_lookup dec tag =
    (let off = dk_off dec ! unat tag
     in if off = TLK_OFF_ABSENT then Inl (- ENODATA)
        else Inr (subarr (unat off) (unat (dk_len dec ! unat tag)) (drop 5 (dk_frame dec))))"

definition tlk_dec_u8 :: "tlk_dec \<Rightarrow> u8 \<Rightarrow> int + u8" where
  "tlk_dec_u8 dec tag =
    (case tlk_dec_lookup dec tag of
       Inl e \<Rightarrow> Inl e
     | Inr data \<Rightarrow> if unat (dk_len dec ! unat tag) \<noteq> 1 then Inl TLK_ERR_BAD_ENCODING else Inr (data ! 0))"

definition tlk_dec_u32 :: "tlk_dec \<Rightarrow> u8 \<Rightarrow> int + u32" where
  "tlk_dec_u32 dec tag =
    (case tlk_dec_lookup dec tag of
       Inl e \<Rightarrow> Inl e
     | Inr data \<Rightarrow> if unat (dk_len dec ! unat tag) \<noteq> 4 then Inl TLK_ERR_BAD_ENCODING else Inr (get_le32 data))"

definition tlk_dec_u64 :: "tlk_dec \<Rightarrow> u8 \<Rightarrow> int + u64" where
  "tlk_dec_u64 dec tag =
    (case tlk_dec_lookup dec tag of
       Inl e \<Rightarrow> Inl e
     | Inr data \<Rightarrow> if unat (dk_len dec ! unat tag) \<noteq> 8 then Inl TLK_ERR_BAD_ENCODING else Inr (get_le64 data))"

definition tlk_dec_field :: "tlk_dec \<Rightarrow> u8 \<Rightarrow> int + bytes" where
  "tlk_dec_field dec tag = tlk_dec_lookup dec tag"

definition tlk_dec_str :: "tlk_dec \<Rightarrow> u8 \<Rightarrow> int + bytes" where
  "tlk_dec_str dec tag = tlk_dec_field dec tag"

text \<open>A message as a caller encodes it: the frame, its fields in order, the length.\<close>

fun tlk_fields :: "(u8 \<times> bytes) list \<Rightarrow> tlk_enc \<Rightarrow> int \<times> tlk_enc" where
  "tlk_fields [] enc = (0, enc)"
| "tlk_fields ((tag, v) # fs) enc =
    (case tlk_enc_field tag v enc of (ret, enc) \<Rightarrow> if ret < 0 then (ret, enc) else tlk_fields fs enc)"

definition tlk_message :: "u8 \<Rightarrow> (u8 \<times> bytes) list \<Rightarrow> bytes \<Rightarrow> int \<times> bytes" where
  "tlk_message msg_type fs buf =
    (case tlk_enc_frame_start msg_type (tlk_enc_init buf (length buf)) of
       (ret, enc) \<Rightarrow>
         if ret < 0 then (ret, tk_buf enc)
         else case tlk_fields fs enc of
             (ret, enc) \<Rightarrow>
               if ret < 0 then (ret, tk_buf enc)
               else case tlk_enc_frame_finalize enc of (ret, enc) \<Rightarrow> (ret, tk_buf enc))"

section \<open>Encoding\<close>

fun payload :: "(u8 \<times> bytes) list \<Rightarrow> bytes" where
  "payload [] = []"
| "payload ((tag, v) # fs) = tag # le32 (of_nat (length v)) @ v @ payload fs"

text \<open>A started encoder and what it has written.\<close>

definition enc_has :: "bytes \<Rightarrow> tlk_enc \<Rightarrow> bool" where
  "enc_has out enc \<longleftrightarrow> tk_started enc \<and> tk_payload_len_off enc = 1 \<and> length (tk_buf enc) = tk_cap enc \<and>
    tk_len enc = length out \<and> tk_len enc \<le> tk_cap enc \<and> take (tk_len enc) (tk_buf enc) = out"

lemma take_wr_seq:
  assumes "take p buf = out" "p \<le> length buf" "p + length bs \<le> length buf"
  shows "take (p + length bs) (wr_bytes p bs buf) = out @ bs"
  using take_wr_bytes [OF assms(3)] assms(1) by simp

lemma enc_field_has:
  assumes "enc_has out enc" "length out + 5 + length v \<le> tk_cap enc"
  shows "\<exists>enc'. tlk_enc_field tag v enc = (0, enc') \<and> tk_cap enc' = tk_cap enc \<and>
    enc_has (out @ tag # le32 (of_nat (length v)) @ v) enc'"
proof -
  let ?p = "length out"
  let ?b1 = "(tk_buf enc)[?p := tag]"
  let ?b2 = "wr_bytes (?p + 1) (le32 (of_nat (length v))) ?b1"
  have e: "tk_started enc" "tk_len enc = ?p" "length (tk_buf enc) = tk_cap enc" "take ?p (tk_buf enc) = out"
    using assms(1) by (auto simp: enc_has_def)
  have "take (?p + 1) ?b1 = out @ [tag]"
    using e(3,4) assms(2) by (simp add: take_Suc_conv_app_nth)
  then have "take (?p + 1 + 4) ?b2 = (out @ [tag]) @ le32 (of_nat (length v))"
    using take_wr_seq [of "?p + 1" ?b1 "out @ [tag]" "le32 (of_nat (length v))"] e(3) assms(2) by simp
  then have "take (?p + 5 + length v) (wr_bytes (?p + 5) v ?b2) =
      out @ tag # le32 (of_nat (length v)) @ v"
    using take_wr_seq [of "?p + 5" ?b2 _ v] e(3) assms(2) by (simp add: add.commute)
  then show ?thesis
    using assms e by (simp add: tlk_enc_field_def Let_def enc_has_def)
qed

lemma fields_has:
  assumes "enc_has out enc" "length out + length (payload fs) \<le> tk_cap enc"
  shows "\<exists>enc'. tlk_fields fs enc = (0, enc') \<and> tk_cap enc' = tk_cap enc \<and> enc_has (out @ payload fs) enc'"
  using assms
proof (induction fs arbitrary: out enc)
  case (Cons f fs)
  obtain tag v where f: "f = (tag, v)" by (cases f)
  obtain enc1 where e: "tlk_enc_field tag v enc = (0, enc1)" "tk_cap enc1 = tk_cap enc"
      "enc_has (out @ tag # le32 (of_nat (length v)) @ v) enc1"
    using enc_field_has [OF Cons.prems(1), of v tag] Cons.prems(2) f by auto
  then show ?case using Cons.IH [OF e(3)] Cons.prems(2) f by simp
qed simp

lemma message_bytes:
  assumes "5 + length (payload fs) \<le> length buf" "tlk_message ty fs buf = (ret, out)"
  shows "ret = int (5 + length (payload fs))" "length out = length buf"
    "take (5 + length (payload fs)) out = ty # le32 (of_nat (length (payload fs))) @ payload fs"
proof -
  let ?n = "5 + length (payload fs)"
  have t: "take 5 (wr_bytes 0 [ty, 0, 0, 0, 0] buf) = [ty, 0, 0, 0, 0]"
    using take_wr_bytes [of 0 "[ty, 0, 0, 0, 0]" buf] assms(1) by (simp add: eval_nat_numeral del: wr_bytes.simps)
  obtain enc0 where s: "tlk_enc_frame_start ty (tlk_enc_init buf (length buf)) = (0, enc0)"
      "tk_cap enc0 = length buf" "enc_has [ty, 0, 0, 0, 0] enc0"
    using assms(1) t
    by (simp add: tlk_enc_frame_start_def tlk_enc_init_def enc_has_def del: wr_bytes.simps)
  obtain enc where e: "tlk_fields fs enc0 = (0, enc)" "tk_cap enc = length buf"
      "enc_has ([ty, 0, 0, 0, 0] @ payload fs) enc"
    using fields_has [OF s(3), of fs] s(2) assms(1) by auto
  then have l: "tk_len enc = ?n" "tk_started enc" "tk_payload_len_off enc = 1" "length (tk_buf enc) = length buf"
    "take ?n (tk_buf enc) = [ty, 0, 0, 0, 0] @ payload fs"
    by (auto simp: enc_has_def eval_nat_numeral)
  have out: "ret = int ?n" "out = wr_bytes 1 (le32 (of_nat (length (payload fs)))) (tk_buf enc)"
    using assms(2) s(1) e(1) l by (simp_all add: tlk_message_def tlk_enc_frame_finalize_def)
  then show "ret = int ?n" "length out = length buf" using l by simp_all
  have t1: "take 1 (tk_buf enc) = [ty]" "take (?n - 5) (drop 5 (tk_buf enc)) = payload fs"
    using arg_cong [OF l(5), of "take 1"] arg_cong [OF l(5), of "drop 5"] by (simp_all add: drop_take)
  have "take 5 out = [ty] @ le32 (of_nat (length (payload fs)))"
    using take_wr_seq [OF t1(1), of "le32 (of_nat (length (payload fs)))"] assms(1) l(4) out(2) by simp
  moreover have "drop 5 out = drop 5 (tk_buf enc)"
    using drop_wr_bytes [of 1 "le32 (of_nat (length (payload fs)))" 5 "tk_buf enc"] out(2) by simp
  ultimately show "take ?n out = ty # le32 (of_nat (length (payload fs))) @ payload fs"
    using t1(2) by (simp add: take_add)
qed

section \<open>Decoding\<close>

lemma scan_fields:
  assumes "drop c pl = payload fs @ rest" "c + length (payload fs) = plen" "plen < 0xFFFF"
    "distinct (map fst fs)" "\<forall>(t, v) \<in> set fs. length v \<le> TLK_MAX_FIELD_LEN \<and> off ! unat t = TLK_OFF_ABSENT"
    "length off = 256" "length len = 256"
  shows "\<exists>off' len'. tlk_scan pl plen c off len = (0, off', len') \<and>
    (\<forall>(t, v) \<in> set fs. off' ! unat t \<noteq> TLK_OFF_ABSENT \<and> unat (len' ! unat t) = length v \<and>
      subarr (unat (off' ! unat t)) (length v) pl = v) \<and>
    (\<forall>t. t \<notin> fst ` set fs \<longrightarrow> off' ! unat t = off ! unat t \<and> len' ! unat t = len ! unat t)"
  using assms
proof (induction fs arbitrary: c off len)
  case Nil
  then show ?case by (subst tlk_scan.simps) simp
next
  case (Cons f fs)
  obtain t v where f: "f = (t, v)" by (cases f)
  let ?c = "c + 5 + length v"
  have v: "length v \<le> TLK_MAX_FIELD_LEN" "off ! unat t = TLK_OFF_ABSENT" "t \<notin> fst ` set fs"
    "length v < 2 ^ 32" using Cons.prems(4,5) f by auto
  have d: "drop c pl = t # le32 (of_nat (length v)) @ v @ payload fs @ rest"
    using Cons.prems(1) f by simp
  then have c: "c < length pl" by (metis drop_all length_greater_0_conv linorder_not_le list.distinct(1))
  have pc: "pl ! c = t" "drop (c + 1) pl = le32 (of_nat (length v)) @ v @ payload fs @ rest"
    using d c by (simp_all add: Cons_nth_drop_Suc [symmetric])
  have d5: "drop (c + 5) pl = v @ payload fs @ rest"
    using arg_cong [OF pc(2), of "drop 4"] by (simp add: add.commute)
  have dn: "drop ?c pl = payload fs @ rest"
    using arg_cong [OF d5, of "drop (length v)"] by (simp add: add.commute add.left_commute)
  have n: "?c + length (payload fs) = plen" using Cons.prems(2) f by simp
  have nz: "of_nat (c + 5) \<noteq> TLK_OFF_ABSENT" "unat (of_nat (c + 5) :: u16) = c + 5" "unat (of_nat (length v) :: u16) = length v"
    "unat (of_nat (length v) :: u32) = length v"
  proof -
    have "c + 5 < 0xFFFF" "length v < 0xFFFF" using n Cons.prems(3) by simp_all
    then show u: "unat (of_nat (c + 5) :: u16) = c + 5" "unat (of_nat (length v) :: u16) = length v"
      "unat (of_nat (length v) :: u32) = length v"
      by (simp_all only: unat_of_nat) simp_all
    show "of_nat (c + 5) \<noteq> TLK_OFF_ABSENT"
    proof
      assume "(of_nat (c + 5) :: u16) = TLK_OFF_ABSENT"
      then have "unat (of_nat (c + 5) :: u16) = 0xFFFF" by simp
      then show False using u(1) \<open>c + 5 < 0xFFFF\<close> by simp
    qed
  qed
  have step: "tlk_scan pl plen c off len =
      tlk_scan pl plen ?c (off[unat t := of_nat (c + 5)]) (len[unat t := of_nat (length v)])"
    using v n Cons.prems(3) pc nz(4) by (subst tlk_scan.simps) (simp add: Let_def)
  have inj: "unat (s :: u8) = unat t \<longleftrightarrow> s = t" for s by (rule word_unat_eq_iff [symmetric])
  let ?off = "off[unat t := of_nat (c + 5)]" and ?len = "len[unat t := of_nat (length v)]"
  have "?off ! unat s = off ! unat s" if "s \<noteq> t" for s using inj [of s] that by (metis nth_list_update_neq)
  then have p: "\<forall>(s, w) \<in> set fs. length w \<le> TLK_MAX_FIELD_LEN \<and> ?off ! unat s = TLK_OFF_ABSENT"
    using Cons.prems(5) f v(3) by (metis (mono_tags, lifting) case_prodD case_prodI2 fst_conv image_eqI list.set_intros(2))
  obtain off' len' where r: "tlk_scan pl plen ?c ?off ?len = (0, off', len')"
    "\<forall>(s, w) \<in> set fs. off' ! unat s \<noteq> TLK_OFF_ABSENT \<and> unat (len' ! unat s) = length w \<and>
      subarr (unat (off' ! unat s)) (length w) pl = w"
    "\<forall>s. s \<notin> fst ` set fs \<longrightarrow> off' ! unat s = ?off ! unat s \<and> len' ! unat s = ?len ! unat s"
    using Cons.IH [OF dn n Cons.prems(3) _ p, of ?len] Cons.prems(4,6,7) by auto
  have t: "off' ! unat t = of_nat (c + 5)" "len' ! unat t = of_nat (length v)"
    using r(3) v(3) Cons.prems(6,7) by simp_all
  have "subarr (c + 5) (length v) pl = v" using d5 by (simp add: subarr_def)
  then show ?case
    using r t nz step f by (auto simp: nth_list_update Cons.prems(6,7) word_unat_eq_iff [symmetric])
qed

text \<open>C31: A lock message of fields with distinct tags, encoded into a buffer with room for it, is decoded field
  by field: the decoder accepts the buffer, whatever follows the frame in it, reports the message type, returns the
  value of every field and reports every other tag as absent.\<close>

theorem tlk_roundtrip:
  assumes "5 + length (payload fs) \<le> length buf" "length (payload fs) < 0xFFFF" "distinct (map fst fs)"
    "\<And>t v. (t, v) \<in> set fs \<Longrightarrow> length v \<le> TLK_MAX_FIELD_LEN" "tlk_message ty fs buf = (ret, out)"
  shows "ret = int (5 + length (payload fs)) \<and>
    (\<exists>dec. tlk_dec_init out = (0, Some dec) \<and> dk_msg_type dec = ty \<and>
      (\<forall>t v. (t, v) \<in> set fs \<longrightarrow> tlk_dec_field dec t = Inr v) \<and>
      (\<forall>t. t \<notin> fst ` set fs \<longrightarrow> tlk_dec_field dec t = Inl (- ENODATA)))"
proof -
  let ?n = "length (payload fs)"
  note m = message_bytes [OF assms(1,5)]
  have out: "out = (ty # le32 (of_nat ?n) @ payload fs) @ drop (5 + ?n) out"
    using m(3) by (metis append_take_drop_id)
  define rest where "rest = drop (5 + ?n) out"
  have o: "out = ty # le32 (of_nat ?n) @ payload fs @ rest" using out unfolding rest_def by (simp only: append_Cons append_assoc)
  have d: "drop 5 out = payload fs @ rest" "out ! 0 = ty" "get_le32 (drop 1 out) = of_nat ?n" "unat (of_nat ?n :: u32) = ?n"
    using o assms(2) by (simp_all add: unat_of_nat)
  obtain off len where s: "tlk_scan (drop 5 out) ?n 0 (replicate 256 TLK_OFF_ABSENT) (replicate 256 0) = (0, off, len)"
    "\<forall>(t, v) \<in> set fs. off ! unat t \<noteq> TLK_OFF_ABSENT \<and> unat (len ! unat t) = length v \<and>
      subarr (unat (off ! unat t)) (length v) (drop 5 out) = v"
    "\<forall>t. t \<notin> fst ` set fs \<longrightarrow> off ! unat t = TLK_OFF_ABSENT"
    using scan_fields [of 0 "drop 5 out" fs rest ?n "replicate 256 TLK_OFF_ABSENT" "replicate 256 0"] assms(2-4) d(1)
    by fastforce
  have "\<not> length out < 5" "\<not> length out < ?n + 5" using m(2) assms(1) by simp_all
  then have "tlk_dec_init out = (0, Some \<lparr>dk_frame = out, dk_msg_type = ty, dk_payload_len = ?n, dk_off = off, dk_len = len\<rparr>)"
    using s(1) d by (simp add: tlk_dec_init_def Let_def)
  then show ?thesis
    using m(1) s(2,3) by (auto simp: tlk_dec_field_def tlk_dec_lookup_def Let_def)
qed

theorem tlk_roundtrip_witness:
  "\<exists>dec. tlk_dec_init (snd (tlk_message 1 [(1, le64 42), (3, [1]), (9, [99, 49])] (replicate 40 7))) = (0, Some dec) \<and>
    tlk_dec_field dec 9 = Inr [99, 49] \<and> tlk_dec_field dec 2 = Inl (- ENODATA)"
proof -
  let ?fs = "[(1, le64 42), (3, [1]), (9, [99, 49])] :: (u8 \<times> bytes) list"
  obtain ret out where m: "tlk_message 1 ?fs (replicate 40 7) = (ret, out)"
    by (cases "tlk_message 1 ?fs (replicate 40 7)")
  have "ret = int (5 + length (payload ?fs)) \<and>
    (\<exists>dec. tlk_dec_init out = (0, Some dec) \<and> dk_msg_type dec = 1 \<and>
      (\<forall>t v. (t, v) \<in> set ?fs \<longrightarrow> tlk_dec_field dec t = Inr v) \<and>
      (\<forall>t. t \<notin> fst ` set ?fs \<longrightarrow> tlk_dec_field dec t = Inl (- ENODATA)))"
    by (rule tlk_roundtrip [OF _ _ _ _ m]) auto
  then show ?thesis using m by auto
qed

section \<open>Bounds\<close>

text \<open>Every offset of the index points to a field inside the payload.\<close>

definition index_ok :: "nat \<Rightarrow> u16 list \<Rightarrow> u16 list \<Rightarrow> bool" where
  "index_ok plen off len \<longleftrightarrow> length off = 256 \<and> length len = 256 \<and>
    (\<forall>t < 256. off ! t \<noteq> TLK_OFF_ABSENT \<longrightarrow> unat (off ! t) + unat (len ! t) \<le> plen)"

lemma scan_index_ok:
  "index_ok plen off len \<Longrightarrow> tlk_scan pl plen c off len = (ret, off', len') \<Longrightarrow> index_ok plen off' len'"
proof (induction pl plen c off len rule: tlk_scan.induct)
  case (1 pl plen c off len)
  let ?t = "unat (pl ! c)" and ?n = "unat (get_le32 (drop (c + 1) pl))"
  have upd: "index_ok plen (off[?t := of_nat (c + 5)]) (len[?t := of_nat ?n])" if "c + 5 + ?n \<le> plen" "c + 5 + ?n \<le> 0xFFFF"
  proof -
    have "unat (of_nat (c + 5) :: u16) = c + 5" "unat (of_nat ?n :: u16) = ?n"
      using that(2) by (simp_all only: unat_of_nat) simp_all
    then show ?thesis
      using "1.prems"(1) that(1) by (auto simp: index_ok_def nth_list_update simp del: of_nat_add of_nat_numeral)
  qed
  show ?case
  proof (cases "c < plen \<and> c + 5 \<le> plen \<and> ?n \<le> TLK_MAX_FIELD_LEN \<and> c + 5 + ?n \<le> plen \<and>
      off ! ?t = TLK_OFF_ABSENT \<and> c + 5 + ?n \<le> 0xFFFF")
    case True
    then show ?thesis
      using "1.IH" [OF _ _ refl refl refl _ _ _ _ upd] "1.prems"(2) by (subst (asm) tlk_scan.simps) (simp add: Let_def not_le)
  next
    case False
    then show ?thesis
      using "1.prems"(1) "1.prems"(2) [unfolded tlk_scan.simps [of pl plen c off len]]
      by (auto simp: Let_def split: if_splits)
  qed
qed

lemma le64_get_le64: "length bs = 8 \<Longrightarrow> le64 (get_le64 bs) = bs"
proof -
  assume l: "length bs = 8"
  have u: "\<not> bit (b :: u8) (k + n)" if "8 \<le> k" for b k n
    using that bit_imp_le_length [of b "k + n"] by auto
  have "byte_of 0 (get_le64 bs) = bs ! 0" "byte_of 1 (get_le64 bs) = bs ! 1" "byte_of 2 (get_le64 bs) = bs ! 2"
    "byte_of 3 (get_le64 bs) = bs ! 3" "byte_of 4 (get_le64 bs) = bs ! 4" "byte_of 5 (get_le64 bs) = bs ! 5"
    "byte_of 6 (get_le64 bs) = bs ! 6" "byte_of 7 (get_le64 bs) = bs ! 7"
    by (rule bit_eqI; simp add: get_le64_expand bit_simps u)+
  with l show ?thesis by (auto simp: le64_def upt_0_8 numeral_eq_Suc length_Suc_conv)
qed

text \<open>C32: Whatever bytes arrive as a lock frame, a decoder that accepts them reads only inside the buffer: the
  payload fits the frame, every field found lies in the payload, and the integer accessors return only fields of the
  exact width.\<close>

theorem tlk_decode_in_bounds:
  assumes "tlk_dec_init frame = (0, Some dec)"
  shows "5 + dk_payload_len dec \<le> length frame \<and>
    (\<forall>tag. dk_off dec ! unat tag = TLK_OFF_ABSENT \<and> tlk_dec_field dec tag = Inl (- ENODATA) \<or>
       unat (dk_off dec ! unat tag) + unat (dk_len dec ! unat tag) \<le> dk_payload_len dec \<and>
       (\<exists>v. tlk_dec_field dec tag = Inr v \<and> length v = unat (dk_len dec ! unat tag))) \<and>
    (\<forall>tag x. tlk_dec_u64 dec tag = Inr x \<longrightarrow> tlk_dec_field dec tag = Inr (le64 x))"
proof -
  define plen where "plen = unat (get_le32 (drop 1 frame))"
  obtain off len where s: "tlk_scan (drop 5 frame) plen 0 (replicate 256 TLK_OFF_ABSENT) (replicate 256 0) = (0, off, len)"
    "dec = \<lparr>dk_frame = frame, dk_msg_type = frame ! 0, dk_payload_len = plen, dk_off = off, dk_len = len\<rparr>"
    and l: "plen + 5 \<le> length frame"
    using assms by (auto simp: tlk_dec_init_def plen_def Let_def split: if_splits prod.splits)
  have ix: "index_ok plen off len"
    by (rule scan_index_ok [OF _ s(1)]) (simp add: index_ok_def)
  have b: "unat (off ! unat tag) + unat (len ! unat tag) \<le> plen" if "off ! unat tag \<noteq> TLK_OFF_ABSENT" for tag :: u8
    using ix that by (simp add: index_ok_def)
  have n: "length (subarr (unat (off ! unat tag)) (unat (len ! unat tag)) (drop 5 frame)) = unat (len ! unat tag)"
    if "off ! unat tag \<noteq> TLK_OFF_ABSENT" for tag :: u8
    using b [OF that] l by simp
  have w: "le64 (get_le64 (subarr (unat (off ! unat tag)) 8 (drop 5 frame))) = subarr (unat (off ! unat tag)) 8 (drop 5 frame)"
    if "off ! unat tag \<noteq> TLK_OFF_ABSENT" "unat (len ! unat tag) = 8" for tag :: u8
    using n [OF that(1)] that(2) by (intro le64_get_le64) simp
  note d = s(2) tlk_dec_field_def tlk_dec_lookup_def tlk_dec_u64_def Let_def
  have "dk_off dec ! unat tag = TLK_OFF_ABSENT \<and> tlk_dec_field dec tag = Inl (- ENODATA) \<or>
      unat (dk_off dec ! unat tag) + unat (dk_len dec ! unat tag) \<le> dk_payload_len dec \<and>
      (\<exists>v. tlk_dec_field dec tag = Inr v \<and> length v = unat (dk_len dec ! unat tag))" for tag
    using b [of tag] n [of tag] by (cases "off ! unat tag = TLK_OFF_ABSENT") (simp_all add: d del: length_subarr)
  moreover have "tlk_dec_field dec tag = Inr (le64 x)" if "tlk_dec_u64 dec tag = Inr x" for tag x
    using that w [of tag] by (auto simp: d split: if_splits)
  moreover have "5 + dk_payload_len dec \<le> length frame" using l s(2) by simp
  ultimately show ?thesis by blast
qed

theorem tlk_decode_in_bounds_witness:
  "\<exists>dec. tlk_dec_init [1, 6, 0, 0, 0, 3, 1, 0, 0, 0, 2] = (0, Some dec) \<and> 5 + dk_payload_len dec \<le> 11"
proof -
  have "tlk_scan [3, 1, 0, 0, 0, 2] 6 0 (replicate 256 TLK_OFF_ABSENT) (replicate 256 0) =
      (0, (replicate 256 TLK_OFF_ABSENT)[3 := 5], (replicate 256 0)[3 := 1])"
    by (simp add: tlk_scan.simps Let_def get_le32_def)
  then obtain dec where "tlk_dec_init [1, 6, 0, 0, 0, 3, 1, 0, 0, 0, 2] = (0, Some dec)"
    by (simp add: tlk_dec_init_def Let_def get_le32_def)
  then show ?thesis using tlk_decode_in_bounds [of "[1, 6, 0, 0, 0, 3, 1, 0, 0, 0, 2]" dec] by simp
qed

end
