(* ===== verification/LeaseCache.thy ===== *)
theory LeaseCache
  imports NetInode Caps "HOL-Library.Tree" "HOL-Library.Signed_Division"
begin

text \<open>
  The leases a client holds on the stripes of an open inode (\<open>powerfs_lease.c\<close>): a tree by the first byte of the stripe,
  filled by the write path, read by write-back, and kept alive by a delayed work. The balancing of the kernel's
  red-black tree is the parameter \<open>rb\<close>, a pair of \<open>rb_insert_color\<close> and \<open>rb_erase\<close>; what other threads do to the
  leases while the lock is dropped for a remote call is the parameter \<open>others\<close>. The tokens that are given back with
  \<open>powerfs_net_release_lease\<close> are recorded; the code ignores the results of these calls.
\<close>

abbreviation STRIPE_SIZE :: int where "STRIPE_SIZE \<equiv> 67108864"
abbreviation LEASE_RENEW_BATCH :: nat where "LEASE_RENEW_BATCH \<equiv> 16"

section \<open>State\<close>

record lease =
  l_stripe_start :: u64
  l_stripe_count :: u64
  l_token :: bytes
  l_epoch :: u64
  l_expire :: u64
  l_exclusive :: bool
  l_content_size :: u64

record lease_state =
  lease_tree :: "lease tree"
  lease_released :: "bytes list"
  lease_renew_work :: "u64 option"

record lease_sb =
  lb_hz :: u64
  lb_lease_wq :: bool
  lb_shutting_down :: bool
  lb_shutdown :: bool

type_synonym lease_rb = "(lease tree \<Rightarrow> lease tree) \<times> (u64 \<Rightarrow> lease tree \<Rightarrow> lease tree)"

abbreviation STRIPE_LEASE_DURATION :: "lease_sb \<Rightarrow> u64" where "STRIPE_LEASE_DURATION sb \<equiv> 30 * lb_hz sb"
abbreviation RENEW_THRESHOLD :: "lease_sb \<Rightarrow> u64" where "RENEW_THRESHOLD sb \<equiv> STRIPE_LEASE_DURATION sb div 3"
abbreviation time_before :: "u64 \<Rightarrow> u64 \<Rightarrow> bool" where "time_before a b \<equiv> time_after b a"

definition stripe_of :: "int \<Rightarrow> u64" where
  "stripe_of offset = word_of_int ((offset sdiv STRIPE_SIZE) * STRIPE_SIZE)"

text \<open>\<open>queue_delayed_work\<close> leaves a work that is pending alone.\<close>

definition queue_renew :: "u64 \<Rightarrow> lease_state \<Rightarrow> lease_state" where
  "queue_renew delay st = (if lease_renew_work st = None then st\<lparr>lease_renew_work := Some delay\<rparr> else st)"

section \<open>The tree\<close>

fun powerfs_lease_find :: "u64 \<Rightarrow> lease tree \<Rightarrow> lease option" where
  "powerfs_lease_find s Leaf = None"
| "powerfs_lease_find s (Node l x r) =
    (if s < l_stripe_start x then powerfs_lease_find s l
     else if s > l_stripe_start x then powerfs_lease_find s r
     else Some x)"

fun lease_link :: "lease \<Rightarrow> lease tree \<Rightarrow> lease tree option" where
  "lease_link y Leaf = Some (Node Leaf y Leaf)"
| "lease_link y (Node l x r) =
    (if l_stripe_start y < l_stripe_start x then map_option (\<lambda>l. Node l x r) (lease_link y l)
     else if l_stripe_start y > l_stripe_start x then map_option (\<lambda>r. Node l x r) (lease_link y r)
     else None)"

definition powerfs_lease_insert :: "lease_rb \<Rightarrow> lease \<Rightarrow> lease tree \<Rightarrow> lease tree" where
  "powerfs_lease_insert rb y t = (case lease_link y t of Some t' \<Rightarrow> fst rb t' | None \<Rightarrow> t)"

text \<open>The update in place of the first node of the stripe, in the order of \<open>rb_next\<close>.\<close>

fun lease_update :: "u64 \<Rightarrow> (lease \<Rightarrow> lease) \<Rightarrow> lease tree \<Rightarrow> lease tree option" where
  "lease_update s f Leaf = None"
| "lease_update s f (Node l x r) =
    (case lease_update s f l of
       Some l' \<Rightarrow> Some (Node l' x r)
     | None \<Rightarrow> if l_stripe_start x = s then Some (Node l (f x) r)
               else map_option (Node l x) (lease_update s f r))"

section \<open>Operations\<close>

definition new_lease_out :: lease_reply where
  "new_lease_out = \<lparr>lr_token = replicate 64 0, lr_token_len = 64, lr_epoch = Some 0, lr_content_size = Some 0,
    lr_expire = Some 0\<rparr>"

definition ensure_lease ::
  "lease_rb \<Rightarrow> lease_sb \<Rightarrow> rpc \<Rightarrow> lease_env \<Rightarrow> bool \<Rightarrow> (lease_state \<Rightarrow> lease_state) \<Rightarrow> u64 \<Rightarrow> u64 \<Rightarrow> int \<Rightarrow> lease_state \<Rightarrow>
    int \<times> lease_state" where
  "ensure_lease rb sb rpc ev alloc others now ino offset st =
    (let s = stripe_of offset; old = powerfs_lease_find s (lease_tree st)
     in if (case old of Some l \<Rightarrow> time_after (l_expire l) now | None \<Rightarrow> False) then (0, st)
        else
          let st = (case old of
                Some l \<Rightarrow> st\<lparr>lease_tree := snd rb (l_stripe_start l) (lease_tree st),
                            lease_released := lease_released st @ [cstr (l_token l)]\<rparr>
              | None \<Rightarrow> st)
          in if \<not> alloc then (- ENOMEM, st)
             else
               let (ret, out) = powerfs_net_acquire_lease rpc ev ino s 1 None new_lease_out
               in if ret \<noteq> 0 then (ret, st)
                  else
                    let y = \<lparr>l_stripe_start = s, l_stripe_count = 1, l_token = lr_token out, l_epoch = the (lr_epoch out),
                          l_expire = the (lr_expire out), l_exclusive = True, l_content_size = the (lr_content_size out)\<rparr>;
                        st = others st;
                        st = (if powerfs_lease_find s (lease_tree st) = None
                              then st\<lparr>lease_tree := powerfs_lease_insert rb y (lease_tree st)\<rparr>
                              else st\<lparr>lease_released := lease_released st @ [cstr (l_token y)]\<rparr>)
                    in (0, if lb_lease_wq sb \<and> \<not> lb_shutting_down sb
                           then queue_renew (STRIPE_LEASE_DURATION sb - RENEW_THRESHOLD sb) st else st))"

definition strncpy63 :: "bytes \<Rightarrow> bytes" where
  "strncpy63 s = (let c = take 63 (cstr s) in c @ replicate (63 - length c) 0 @ [0])"

definition powerfs_get_lease_token :: "u64 \<Rightarrow> int \<Rightarrow> lease_state \<Rightarrow> bytes \<Rightarrow> int \<times> bytes \<times> nat" where
  "powerfs_get_lease_token now offset st buf =
    (case powerfs_lease_find (stripe_of offset) (lease_tree st) of
       Some l \<Rightarrow> if time_after (l_expire l) now
                 then (let t = strncpy63 (l_token l) @ drop 64 buf in (0, t, length (cstr t)))
                 else (- ENOENT, buf, 0)
     | None \<Rightarrow> (- ENOENT, buf, 0))"

fun take_leases :: "lease_rb \<Rightarrow> nat \<Rightarrow> lease tree \<Rightarrow> lease list \<times> lease tree" where
  "take_leases rb 0 t = ([], t)"
| "take_leases rb (Suc n) t =
    (case inorder t of
       [] \<Rightarrow> ([], t)
     | l # _ \<Rightarrow> (case take_leases rb n (snd rb (l_stripe_start l) t) of (ls, t') \<Rightarrow> (l # ls, t')))"

definition release_all_leases :: "lease_rb \<Rightarrow> lease_state \<Rightarrow> lease_state" where
  "release_all_leases rb st =
    (case take_leases rb LEASE_RENEW_BATCH (lease_tree st) of
       (ls, t) \<Rightarrow> st\<lparr>lease_tree := t, lease_released := lease_released st @ map (\<lambda>l. cstr (l_token l)) ls\<rparr>)"

section \<open>The renewal work\<close>

text \<open>The scan under the lock: the earliest expiry and the leases to renew, at most one batch of them.\<close>

definition needs_renew :: "lease_sb \<Rightarrow> u64 \<Rightarrow> lease \<Rightarrow> bool" where
  "needs_renew sb now l = time_after (now + RENEW_THRESHOLD sb) (l_expire l)"

definition scan_lease ::
  "lease_sb \<Rightarrow> u64 \<Rightarrow> lease \<Rightarrow> u64 \<times> (u64 \<times> bytes) list \<Rightarrow> u64 \<times> (u64 \<times> bytes) list" where
  "scan_lease sb now l acc =
    (case acc of
       (earliest, rl) \<Rightarrow>
         (if earliest = 0 \<or> time_before (l_expire l) earliest then l_expire l else earliest,
          if needs_renew sb now l \<and> length rl < LEASE_RENEW_BATCH
          then rl @ [(l_stripe_start l, cstr (take 64 (l_token l)))] else rl))"

definition update_lease :: "u64 \<Rightarrow> (lease \<Rightarrow> lease) \<Rightarrow> lease_state \<Rightarrow> lease_state" where
  "update_lease s f st =
    (case lease_update s f (lease_tree st) of Some t \<Rightarrow> st\<lparr>lease_tree := t\<rparr> | None \<Rightarrow> st)"

text \<open>One entry: the renewal, or the acquisition of a new lease when it fails. \<open>junk\<close> is the uninitialised buffer for the
  new token.\<close>

definition reacquire_lease :: "lease_reply \<Rightarrow> lease \<Rightarrow> lease" where
  "reacquire_lease out l =
    (let n = min (lr_token_len out) (length (l_token l) - 1)
     in l\<lparr>l_token := (wr_bytes 0 (take n (lr_token out)) (l_token l))[n := 0], l_epoch := the (lr_epoch out),
         l_content_size := the (lr_content_size out), l_expire := the (lr_expire out)\<rparr>)"

definition renew_one ::
  "rpc \<Rightarrow> rpc \<Rightarrow> lease_env \<Rightarrow> bytes \<Rightarrow> (lease_state \<Rightarrow> lease_state) \<Rightarrow> u64 \<Rightarrow> u64 \<times> bytes \<Rightarrow> lease_state \<Rightarrow> lease_state" where
  "renew_one rn aq ev junk others ino e st =
    (case e of
       (s, token) \<Rightarrow>
         let (ret, ne) = powerfs_net_renew_lease rn ev (Some token) (Some 0)
         in if ret = 0 then update_lease s (\<lambda>l. l\<lparr>l_expire := the ne\<rparr>) (others st)
            else
              let (ret, out) = powerfs_net_acquire_lease aq ev ino s 1 None (new_lease_out\<lparr>lr_token := junk\<rparr>)
              in if ret = 0 then update_lease s (reacquire_lease out) (others st) else others st)"

definition powerfs_lease_renew_work_func ::
  "lease_sb \<Rightarrow> (nat \<Rightarrow> rpc) \<Rightarrow> (nat \<Rightarrow> rpc) \<Rightarrow> (nat \<Rightarrow> lease_env) \<Rightarrow> bytes \<Rightarrow> (nat \<Rightarrow> lease_state \<Rightarrow> lease_state) \<Rightarrow> u64 \<Rightarrow> u64 \<Rightarrow>
    bool \<Rightarrow> lease_state \<Rightarrow> lease_state" where
  "powerfs_lease_renew_work_func sb rn aq ev junk others now ino stop st =
    (if \<not> lb_lease_wq sb \<or> lb_shutting_down sb \<or> lb_shutdown sb then st
     else
       let ls = inorder (lease_tree st); (earliest, rl) = fold (scan_lease sb now) ls (0, []);
           st = fold (\<lambda>i. renew_one (rn i) (aq i) (ev i) junk (others i) ino (rl ! i)) [0..<length rl] st
       in if ls \<noteq> [] \<and> \<not> stop
          then queue_renew (if time_before (now + RENEW_THRESHOLD sb) earliest
                            then earliest - RENEW_THRESHOLD sb - now else lb_hz sb) st
          else st)"

section \<open>Laws of the tree\<close>

definition lease_rb_laws :: "lease_rb \<Rightarrow> bool" where
  "lease_rb_laws rb \<longleftrightarrow> (\<forall>t. inorder (fst rb t) = inorder t) \<and>
     (\<forall>s t. inorder (snd rb s t) = filter (\<lambda>l. l_stripe_start l \<noteq> s) (inorder t))"

definition leases_ok :: "lease tree \<Rightarrow> bool" where
  "leases_ok t \<longleftrightarrow> sorted_wrt (<) (map l_stripe_start (inorder t))"

lemma leases_ok_node:
  "leases_ok (Node l x r) \<longleftrightarrow> leases_ok l \<and> leases_ok r \<and> (\<forall>y \<in> set_tree l. l_stripe_start y < l_stripe_start x) \<and>
    (\<forall>y \<in> set_tree r. l_stripe_start x < l_stripe_start y)"
  by (auto simp: leases_ok_def sorted_wrt_append) (meson order.strict_trans)

lemma find_correct:
  "leases_ok t \<Longrightarrow> powerfs_lease_find s t = Some x \<longleftrightarrow> x \<in> set_tree t \<and> l_stripe_start x = s"
proof (induction t)
  case (Node l y r)
  then show ?case by (auto simp: leases_ok_node not_less_iff_gr_or_eq)
qed simp

lemma find_none: "leases_ok t \<Longrightarrow> powerfs_lease_find s t = None \<longleftrightarrow> (\<forall>x \<in> set_tree t. l_stripe_start x \<noteq> s)"
  using find_correct [of t s] by (metis not_None_eq)

lemma link_correct:
  "leases_ok t \<Longrightarrow> powerfs_lease_find (l_stripe_start y) t = None \<Longrightarrow>
    \<exists>t'. lease_link y t = Some t' \<and> leases_ok t' \<and> set_tree t' = insert y (set_tree t)"
proof (induction t)
  case (Node l x r)
  then show ?case by (auto simp: leases_ok_node split: if_splits)
qed (simp add: leases_ok_def)

lemma insert_correct:
  assumes "lease_rb_laws rb" "leases_ok t" "powerfs_lease_find (l_stripe_start y) t = None"
  shows "leases_ok (powerfs_lease_insert rb y t)" "set_tree (powerfs_lease_insert rb y t) = insert y (set_tree t)"
proof -
  from link_correct [OF assms(2,3)] obtain t' where t': "lease_link y t = Some t'" "leases_ok t'"
    "set_tree t' = insert y (set_tree t)" by blast
  have "inorder (fst rb t') = inorder t'" using assms(1) by (simp add: lease_rb_laws_def)
  then show "leases_ok (powerfs_lease_insert rb y t)" "set_tree (powerfs_lease_insert rb y t) = insert y (set_tree t)"
    using t' by (simp_all add: powerfs_lease_insert_def leases_ok_def flip: set_inorder)
qed

lemma find_insert:
  assumes "lease_rb_laws rb" "leases_ok t" "powerfs_lease_find s t = None" "l_stripe_start y = s"
  shows "powerfs_lease_find s (powerfs_lease_insert rb y t) = Some y" "leases_ok (powerfs_lease_insert rb y t)"
  using insert_correct [of rb t y] find_correct [of "powerfs_lease_insert rb y t" s y] assms by auto

lemma erase_correct:
  assumes "lease_rb_laws rb" "leases_ok t"
  shows "leases_ok (snd rb s t)" "set_tree (snd rb s t) = {l \<in> set_tree t. l_stripe_start l \<noteq> s}"
proof -
  have e: "inorder (snd rb s t) = filter (\<lambda>l. l_stripe_start l \<noteq> s) (inorder t)"
    using assms(1) by (simp add: lease_rb_laws_def)
  then show "set_tree (snd rb s t) = {l \<in> set_tree t. l_stripe_start l \<noteq> s}" by (simp flip: set_inorder)
  show "leases_ok (snd rb s t)" using assms(2) by (simp add: leases_ok_def e sorted_wrt_map sorted_wrt_filter)
qed

lemma map_if_none:
  "\<forall>y \<in> set xs. key y \<noteq> s \<Longrightarrow> map (\<lambda>l. if key l = s then f l else l) xs = xs"
  by (intro map_idI) simp

lemma update_correct:
  "leases_ok t \<Longrightarrow>
    (case lease_update s f t of
       Some t' \<Rightarrow> inorder t' = map (\<lambda>l. if l_stripe_start l = s then f l else l) (inorder t) \<and>
         (\<exists>l \<in> set_tree t. l_stripe_start l = s)
     | None \<Rightarrow> \<forall>l \<in> set_tree t. l_stripe_start l \<noteq> s)"
proof (induction t)
  case (Node l x r)
  note ok = Node.prems [unfolded leases_ok_node]
  have IH: "case lease_update s f l of
       Some t' \<Rightarrow> inorder t' = map (\<lambda>l. if l_stripe_start l = s then f l else l) (inorder l) \<and>
         (\<exists>l \<in> set_tree l. l_stripe_start l = s)
     | None \<Rightarrow> \<forall>l \<in> set_tree l. l_stripe_start l \<noteq> s"
    "case lease_update s f r of
       Some t' \<Rightarrow> inorder t' = map (\<lambda>l. if l_stripe_start l = s then f l else l) (inorder r) \<and>
         (\<exists>l \<in> set_tree r. l_stripe_start l = s)
     | None \<Rightarrow> \<forall>l \<in> set_tree r. l_stripe_start l \<noteq> s"
    using Node.IH ok by simp_all
  show ?case
  proof (cases "lease_update s f l")
    case None
    then have nl: "\<forall>y \<in> set_tree l. l_stripe_start y \<noteq> s" using IH by simp
    show ?thesis
    proof (cases "l_stripe_start x = s")
      case True
      then have "\<forall>y \<in> set_tree r. l_stripe_start y \<noteq> s" using ok by force
      then show ?thesis using None True nl by (simp add: map_if_none)
    next
      case False
      then show ?thesis using None nl IH(2) by (auto simp: map_if_none split: option.splits)
    qed
  next
    case (Some l')
    then obtain y where "y \<in> set_tree l" "l_stripe_start y = s" using IH by auto
    then have "s < l_stripe_start x" using ok by blast
    then have "l_stripe_start x \<noteq> s" "\<forall>y \<in> set_tree r. l_stripe_start y \<noteq> s" using ok by force+
    then show ?thesis using Some IH(1) by (auto simp: map_if_none)
  qed
qed simp

lemma update_lease_effect:
  assumes "leases_ok (lease_tree st)"
  shows "inorder (lease_tree (update_lease s f st)) =
      map (\<lambda>l. if l_stripe_start l = s then f l else l) (inorder (lease_tree st))"
    "lease_released (update_lease s f st) = lease_released st"
    "lease_renew_work (update_lease s f st) = lease_renew_work st"
  using update_correct [OF assms, of s f] by (auto simp: update_lease_def map_if_none split: option.splits)

section \<open>Acquisition\<close>

lemma queue_renew_tree [simp]: "lease_tree (queue_renew d st) = lease_tree st"
  "lease_released (queue_renew d st) = lease_released st"
  by (simp_all add: queue_renew_def)


definition lease_rb0 :: lease_rb where
  "lease_rb0 = (\<lambda>t. t, \<lambda>s t. foldr (\<lambda>x t. Node Leaf x t) (filter (\<lambda>l. l_stripe_start l \<noteq> s) (inorder t)) Leaf)"

lemma lease_rb0_laws: "lease_rb_laws lease_rb0"
proof -
  have "inorder (foldr (\<lambda>x t. Node Leaf x t) xs Leaf) = xs" for xs :: "lease list" by (induction xs) simp_all
  then show ?thesis by (simp add: lease_rb_laws_def lease_rb0_def)
qed

definition lease_sb0 :: lease_sb where
  "lease_sb0 = \<lparr>lb_hz = 100, lb_lease_wq = True, lb_shutting_down = False, lb_shutdown = False\<rparr>"

definition no_leases :: lease_state where
  "no_leases = \<lparr>lease_tree = Leaf, lease_released = [], lease_renew_work = None\<rparr>"

definition grant_rpc :: rpc where
  "grant_rpc = (\<lambda>_. (0, [0x40, 0, 0, 0, 1, 55]))"


section \<open>The token of a write\<close>

lemma cstr_padded: "0 \<notin> set v \<Longrightarrow> cstr (v @ replicate n 0) = v"
  by (simp add: cstr_def takeWhile_append takeWhile_replicate)

lemma cstr_strncpy63: "length v < 64 \<Longrightarrow> 0 \<notin> set v \<Longrightarrow> cstr (strncpy63 (v @ replicate n 0) @ r) = v"
proof -
  assume v: "length v < 64" "0 \<notin> set v"
  then have "strncpy63 (v @ replicate n 0) @ r = v @ 0 # replicate (63 - length v) 0 @ r"
    by (simp add: strncpy63_def cstr_padded replicate_app_Cons_same [symmetric])
  moreover have "takeWhile (\<lambda>b. b \<noteq> 0) (v @ 0 # x) = v" for x using v(2) by (subst takeWhile_append2) auto
  ultimately show ?thesis by (simp add: cstr_def)
qed

text \<open>A reply that starts with the lease id gives the token; the other terms are the client's own.\<close>

lemma acquire_token:
  assumes resp: "\<And>b. rpc b = (0, tlv_field FLD_LEASE_ID tok @ rest)" and tok: "length tok < 64" "0 \<notin> set tok"
  shows "powerfs_net_acquire_lease rpc ev ino s n c new_lease_out =
    (0, \<lparr>lr_token = tok @ replicate (64 - length tok) 0, lr_token_len = length tok, lr_epoch = Some 0, lr_content_size = Some 0,
      lr_expire = Some (le_now ev + le_msecs ev (le_duration_ms ev div 1000 * 1000))\<rparr>)"
proof -
  let ?resp = "tlv_field FLD_LEASE_ID tok @ rest" and ?r = "powerfs_net_acquire_lease rpc ev ino s n c new_lease_out"
  have "tlv_dec_wf (powerfs_tlv_dec_init ?resp (length ?resp))" "dec_rest (powerfs_tlv_dec_init ?resp (length ?resp)) = ?resp"
    by (simp_all add: tlv_dec_wf_def dec_rest_def powerfs_tlv_dec_init_def)
  from dec_string_field [OF this, of 64] tok obtain d' where
    d: "powerfs_tlv_dec_string (powerfs_tlv_dec_init ?resp (length ?resp)) FLD_LEASE_ID (replicate 64 0) 64 =
      (0, tok @ replicate (64 - length tok) 0, d')" by auto
  have "fst ?r = 0" "lr_token (snd ?r) = tok @ replicate (64 - length tok) 0" "lr_token_len (snd ?r) = length tok"
    using d by (simp_all add: powerfs_net_acquire_lease_def new_lease_out_def resp rpc_errno_def Let_def cstr_padded tok
        split: prod.splits)
  then show ?thesis using acquire_lease_ignores_terms [of rpc ev ino s n c new_lease_out "snd ?r"]
    by (simp add: prod_eq_iff new_lease_out_def)
qed

text \<open>C25: The token that write-back sends with a needle is the one the volume server granted to the write before it, as
  long as the lease has not run out: after \<open>ensure_lease\<close> has acquired a lease, \<open>powerfs_get_lease_token\<close> finds it for
  every offset in the same stripe.\<close>

theorem granted_token_used:
  assumes rb: "lease_rb_laws rb" and ok: "leases_ok (lease_tree st)"
    and stale: "\<And>l. powerfs_lease_find (stripe_of offset) (lease_tree st) = Some l \<Longrightarrow> \<not> time_after (l_expire l) now"
    and resp: "\<And>b. rpc b = (0, tlv_field FLD_LEASE_ID tok @ rest)" and tok: "length tok < 64" "0 \<notin> set tok"
    and same: "stripe_of offset' = stripe_of offset"
    and live: "time_after (le_now ev + le_msecs ev (le_duration_ms ev div 1000 * 1000)) later"
  shows "\<exists>st' buf'. ensure_lease rb sb rpc ev True (\<lambda>s. s) now ino offset st = (0, st') \<and>
    powerfs_get_lease_token later offset' st' buf = (0, buf', length tok) \<and> cstr buf' = tok"
proof -
  let ?s = "stripe_of offset"
  define st1 where "st1 = (case powerfs_lease_find ?s (lease_tree st) of
      Some l \<Rightarrow> st\<lparr>lease_tree := snd rb (l_stripe_start l) (lease_tree st),
        lease_released := lease_released st @ [cstr (l_token l)]\<rparr> | None \<Rightarrow> st)"
  have ok1: "leases_ok (lease_tree st1)"
    using ok erase_correct [OF rb ok] by (simp add: st1_def split: option.splits)
  have free: "powerfs_lease_find ?s (lease_tree st1) = None"
    unfolding find_none [OF ok1] using erase_correct [OF rb ok] find_correct [OF ok] find_none [OF ok, of ?s]
    by (auto simp: st1_def split: option.splits)
  let ?y = "\<lparr>l_stripe_start = ?s, l_stripe_count = 1, l_token = tok @ replicate (64 - length tok) 0, l_epoch = 0,
    l_expire = le_now ev + le_msecs ev (le_duration_ms ev div 1000 * 1000), l_exclusive = True, l_content_size = 0\<rparr>"
  have no: "\<not> (case powerfs_lease_find ?s (lease_tree st) of Some l \<Rightarrow> time_after (l_expire l) now | None \<Rightarrow> False)"
    using stale by (auto split: option.splits)
  let ?e = "ensure_lease rb sb rpc ev True (\<lambda>s. s) now ino offset st"
  have "fst ?e = 0" "lease_tree (snd ?e) = powerfs_lease_insert rb ?y (lease_tree st1)"
    using no free by (simp_all add: ensure_lease_def acquire_token [OF resp tok] st1_def [symmetric] Let_def)
  moreover have "powerfs_lease_find ?s (powerfs_lease_insert rb ?y (lease_tree st1)) = Some ?y"
    using find_insert [OF rb ok1 free] by simp
  moreover have "cstr (strncpy63 (tok @ replicate (64 - length tok) 0) @ drop 64 buf) = tok"
    by (rule cstr_strncpy63 [OF tok])
  ultimately show ?thesis using live
    by (cases ?e) (simp add: powerfs_get_lease_token_def same Let_def)
qed

theorem granted_token_used_witness:
  "\<exists>st' buf'. ensure_lease lease_rb0 lease_sb0 grant_rpc sample_lease_env True (\<lambda>s. s) 1000 7 70000000 no_leases = (0, st') \<and>
    powerfs_get_lease_token 3999 134217727 st' (replicate 64 0) = (0, buf', 1) \<and> cstr buf' = [55]"
proof -
  have "leases_ok (lease_tree no_leases)" by (simp add: leases_ok_def no_leases_def)
  moreover have "\<not> time_after (l_expire l) 1000" if "powerfs_lease_find (stripe_of 70000000) (lease_tree no_leases) = Some l" for l
    using that by (simp add: no_leases_def)
  moreover have "grant_rpc b = (0, tlv_field FLD_LEASE_ID [55] @ [])" for b
    unfolding grant_rpc_def by code_simp
  moreover have "stripe_of 134217727 = stripe_of 70000000" by code_simp
  moreover have "time_after (le_now sample_lease_env +
      le_msecs sample_lease_env (le_duration_ms sample_lease_env div 1000 * 1000)) 3999" by code_simp
  ultimately show ?thesis
    using granted_token_used [OF lease_rb0_laws, of no_leases 70000000 1000 grant_rpc "[55]" "[]" 134217727 sample_lease_env 3999
        lease_sb0 7 "replicate 64 0"] by simp
qed

section \<open>Giving leases back\<close>

lemma take_leases_batch:
  assumes "lease_rb_laws rb"
  shows "leases_ok t \<Longrightarrow> fst (take_leases rb n t) = take n (inorder t) \<and>
    inorder (snd (take_leases rb n t)) = drop n (inorder t)"
proof (induction n arbitrary: t)
  case (Suc n)
  show ?case
  proof (cases "inorder t")
    case (Cons l ls)
    then have "\<forall>y \<in> set ls. l_stripe_start y \<noteq> l_stripe_start l" using Suc.prems by (auto simp: leases_ok_def)
    then have "inorder (snd rb (l_stripe_start l) t) = ls"
      using assms Cons by (simp add: lease_rb_laws_def filter_id_conv)
    then show ?thesis
      using Cons Suc.IH [of "snd rb (l_stripe_start l) t"] erase_correct(1) [OF assms Suc.prems]
      by (simp add: case_prod_beta)
  qed simp
qed simp

text \<open>\<open>release_all_leases\<close> gives back the tokens of the first sixteen stripes, in order, and leaves the leases of all
  further stripes of the inode in the tree without telling the volume server; a file of more than one gigabyte can
  have them.\<close>

theorem release_all_leases_batch:
  assumes "lease_rb_laws rb" "leases_ok (lease_tree st)"
  shows "lease_released (release_all_leases rb st) =
      lease_released st @ map (\<lambda>l. cstr (l_token l)) (take 16 (inorder (lease_tree st))) \<and>
    inorder (lease_tree (release_all_leases rb st)) = drop 16 (inorder (lease_tree st))"
  using take_leases_batch [OF assms, of LEASE_RENEW_BATCH] by (simp add: release_all_leases_def case_prod_beta)

definition stripe_lease :: "nat \<Rightarrow> lease" where
  "stripe_lease i = \<lparr>l_stripe_start = of_nat i * 67108864, l_stripe_count = 1, l_token = (65 + of_nat i) # replicate 63 0, l_epoch = 0,
    l_expire = 500, l_exclusive = True, l_content_size = 0\<rparr>"

definition stripe_leases :: "nat \<Rightarrow> lease_state" where
  "stripe_leases n = \<lparr>lease_tree = foldr (\<lambda>i t. Node Leaf (stripe_lease i) t) [0..<n] Leaf, lease_released = [],
    lease_renew_work = None\<rparr>"

lemma stripe_leases_17_ok: "leases_ok (lease_tree (stripe_leases 17))"
  unfolding leases_ok_def by code_simp

theorem release_all_leases_batch_witness:
  "map l_stripe_start (inorder (lease_tree (release_all_leases lease_rb0 (stripe_leases 17)))) = [1073741824]"
proof -
  have "map l_stripe_start (drop 16 (inorder (lease_tree (stripe_leases 17)))) = [1073741824]" by code_simp
  then show ?thesis using release_all_leases_batch [OF lease_rb0_laws stripe_leases_17_ok] by simp
qed

section \<open>Renewal\<close>

lemma scan_batch:
  "length rl \<le> 16 \<Longrightarrow> snd (fold (scan_lease sb now) ls (e, rl)) =
    rl @ map (\<lambda>l. (l_stripe_start l, cstr (take 64 (l_token l)))) (take (16 - length rl) (filter (needs_renew sb now) ls))"
proof (induction ls arbitrary: e rl)
  case (Cons l ls)
  show ?case
  proof (cases "needs_renew sb now l \<and> length rl < 16")
    case True
    then have "16 - length rl = Suc (16 - Suc (length rl))" by linarith
    then show ?thesis using True Cons.IH [of "rl @ [(l_stripe_start l, cstr (take 64 (l_token l)))]"]
      by (simp add: scan_lease_def)
  next
    case False
    then show ?thesis using Cons by (auto simp: scan_lease_def)
  qed
qed simp

lemma filter_updated:
  assumes "distinct ls" "\<And>l. l \<in> set (take k (filter P ls)) \<Longrightarrow> \<not> P (h l)"
  shows "filter P (map (\<lambda>l. if l \<in> set (take k (filter P ls)) then h l else l) ls) = drop k (filter P ls)"
  using assms
proof (induction ls arbitrary: k)
  case (Cons x xs)
  show ?case
  proof (cases "P x")
    case False
    then have "map (\<lambda>l. if l \<in> set (take k (filter P xs)) then h l else l) (x # xs) =
        x # map (\<lambda>l. if l \<in> set (take k (filter P xs)) then h l else l) xs"
      by (auto dest: in_set_takeD)
    then show ?thesis using False Cons.IH [of k] Cons.prems by simp
  next
    case True
    show ?thesis
    proof (cases k)
      case (Suc j)
      have "map (\<lambda>l. if l = x \<or> l \<in> set (take j (filter P xs)) then h l else l) xs =
          map (\<lambda>l. if l \<in> set (take j (filter P xs)) then h l else l) xs"
        using Cons.prems(1) by (intro map_cong) auto
      note m = this
      have "\<not> P (h x)" using Cons.prems(2) [of x] True Suc by simp
      then show ?thesis using True Suc Cons.IH [of j] Cons.prems by (simp add: m del: map_eq_conv)
    qed simp
  qed
qed simp

lemma leases_ok_keys:
  "map l_stripe_start (inorder t) = map l_stripe_start (inorder t') \<Longrightarrow> leases_ok t \<Longrightarrow> leases_ok t'"
  by (simp add: leases_ok_def)

lemma leases_ok_inj: "leases_ok t \<Longrightarrow> inj_on l_stripe_start (set_tree t)" "leases_ok t \<Longrightarrow> distinct (inorder t)"
proof -
  assume "leases_ok t"
  then have "distinct (map l_stripe_start (inorder t))"
    by (simp add: leases_ok_def strict_sorted_iff)
  then show "inj_on l_stripe_start (set_tree t)" "distinct (inorder t)" by (simp_all add: distinct_map flip: set_inorder)
qed

definition renewed :: "(lease \<Rightarrow> u64) \<Rightarrow> lease set \<Rightarrow> lease \<Rightarrow> lease" where
  "renewed xp R l = (if l \<in> R then l\<lparr>l_expire := xp l\<rparr> else l)"

lemma renewed_start [simp]: "l_stripe_start (renewed xp R l) = l_stripe_start l" by (simp add: renewed_def)

lemma renew_fold:
  assumes ok: "leases_ok (lease_tree st)" and F: "F = take 16 (filter (needs_renew sb now) (inorder (lease_tree st)))"
    and granted: "\<And>i. i < length F \<Longrightarrow> \<exists>e. powerfs_net_renew_lease (rn i) (ev i) (Some (cstr (take 64 (l_token (F ! i))))) (Some 0) = (0, Some e) \<and>
      \<not> time_after (now + RENEW_THRESHOLD sb) e"
  shows "k \<le> length F \<Longrightarrow> \<exists>xp. (\<forall>l \<in> set (take k F). \<not> time_after (now + RENEW_THRESHOLD sb) (xp l)) \<and>
    inorder (lease_tree (fold (\<lambda>i. renew_one (rn i) (aq i) (ev i) junk (\<lambda>s. s) ino
      (map (\<lambda>l. (l_stripe_start l, cstr (take 64 (l_token l)))) F ! i)) [0..<k] st)) =
    map (renewed xp (set (take k F))) (inorder (lease_tree st))"
proof (induction k)
  case 0
  then show ?case by (simp add: renewed_def)
next
  case (Suc k)
  let ?f = "\<lambda>i. renew_one (rn i) (aq i) (ev i) junk (\<lambda>s. s) ino (map (\<lambda>l. (l_stripe_start l, cstr (take 64 (l_token l)))) F ! i)"
  let ?st = "fold ?f [0..<k] st"
  have k: "k < length F" and Fk: "F ! k \<in> set_tree (lease_tree st)"
    using Suc.prems nth_mem [of k F] by (auto simp: F dest: in_set_takeD)
  from Suc obtain xp where xp: "\<forall>l \<in> set (take k F). \<not> time_after (now + RENEW_THRESHOLD sb) (xp l)"
    "inorder (lease_tree ?st) = map (renewed xp (set (take k F))) (inorder (lease_tree st))" by auto
  obtain e where e: "powerfs_net_renew_lease (rn k) (ev k) (Some (cstr (take 64 (l_token (F ! k))))) (Some 0) = (0, Some e)"
    "\<not> time_after (now + RENEW_THRESHOLD sb) e" using granted [OF k] by blast
  have okst: "leases_ok (lease_tree ?st)"
    by (rule leases_ok_keys [OF _ ok]) (simp add: xp(2) comp_def)
  have "distinct F" using leases_ok_inj(2) [OF ok] by (simp add: F)
  then have new: "F ! k \<notin> set (take k F)" using k by (auto simp: in_set_conv_nth distinct_conv_nth)
  have same: "l_stripe_start l = l_stripe_start (F ! k) \<longleftrightarrow> l = F ! k" if "l \<in> set_tree (lease_tree st)" for l
    using leases_ok_inj(1) [OF ok] that Fk by (auto dest: inj_onD)
  have "inorder (lease_tree (?f k ?st)) = map (renewed (xp(F ! k := e)) (set (take (Suc k) F))) (inorder (lease_tree st))"
    using k e new same
    by (auto simp: renew_one_def update_lease_effect [OF okst] xp(2) take_Suc_conv_app_nth renewed_def)
  then have "inorder (lease_tree (fold ?f [0..<Suc k] st)) =
      map (renewed (xp(F ! k := e)) (set (take (Suc k) F))) (inorder (lease_tree st))"
    by (simp only: upt_Suc_append [OF le0] fold_append fold.simps comp_def id_def)
  moreover have "\<forall>l \<in> set (take (Suc k) F). \<not> time_after (now + RENEW_THRESHOLD sb) ((xp(F ! k := e)) l)"
    using xp(1) e(2) k by (simp add: take_Suc_conv_app_nth)
  ultimately show ?case by (intro exI [of _ "xp(F ! k := e)"]) blast
qed


lemma renew_empty_reply:
  "t \<noteq> [] \<Longrightarrow> length t < 64 \<Longrightarrow>
    powerfs_net_renew_lease (\<lambda>_. (0, [])) sample_lease_env (Some t) (Some 0) = (0, Some 4000)"
  by (simp add: powerfs_net_renew_lease_def rpc_errno_def set_out_def sample_lease_env_def lease_expire_def
      powerfs_tlv_dec_u64_def powerfs_tlv_dec_read_def powerfs_tlv_dec_init_def)


end
