(* ===== verification/Xattr.thy ===== *)
theory Xattr
  imports NetInode CapsInv
begin

text \<open>
  Extended attributes: the remote calls of \<open>powerfs_net_xattr.c\<close> and the handlers of \<open>powerfs_xattr.c\<close>, which keep a cache
  of attributes in the inode in front of the filer. The server with the network is the parameter \<open>srv\<close>, from message type,
  routing inode and body to the outcome: a negative error of the submission, or the status and the body of the response.
  The response goes into a buffer of the caller, and \<open>fill_response\<close> is what the receive path does with it. The cache is the
  \<open>simple_xattr\<close> list of the kernel: its functions are the parameter \<open>sx\<close>.
\<close>

abbreviation FLD_XATTR_KEY :: u8 where "FLD_XATTR_KEY \<equiv> 0xB3"
abbreviation FLD_XATTR_VALUE :: u8 where "FLD_XATTR_VALUE \<equiv> 0xB4"
abbreviation FLD_XATTR_KEYS :: u8 where "FLD_XATTR_KEYS \<equiv> 0xBC"
abbreviation MSG_PING :: u16 where "MSG_PING \<equiv> 0x0001"
abbreviation MSG_SET_XATTR :: u16 where "MSG_SET_XATTR \<equiv> 0x0038"
abbreviation MSG_GET_XATTR :: u16 where "MSG_GET_XATTR \<equiv> 0x0039"
abbreviation MSG_REMOVE_XATTR :: u16 where "MSG_REMOVE_XATTR \<equiv> 0x003a"
abbreviation MSG_LIST_XATTR :: u16 where "MSG_LIST_XATTR \<equiv> 0x003b"
abbreviation XATTR_SIZE_MAX :: nat where "XATTR_SIZE_MAX \<equiv> 65536"

type_synonym xsrv = "u16 \<Rightarrow> u64 \<Rightarrow> bytes \<Rightarrow> int \<times> bytes"

section \<open>Remote calls\<close>

definition fill_response :: "nat \<Rightarrow> int \<times> bytes \<Rightarrow> int \<times> bytes" where
  "fill_response cap r =
    (case r of (ret, body) \<Rightarrow> if ret < 0 then (ret, []) else if length body > cap then (- E2BIG, []) else (ret, body))"

definition xattr_errno :: "int \<Rightarrow> int" where
  "xattr_errno ret = (if ret > 0 \<and> (word_of_int ret :: u16) = 1 then - ENODATA else rpc_errno ret)"

definition bad_name :: "bytes option \<Rightarrow> bool" where
  "bad_name name = (case name of None \<Rightarrow> True | Some n \<Rightarrow> length n = 0 \<or> length n > 255)"

definition powerfs_net_setxattr :: "xsrv \<Rightarrow> bool \<Rightarrow> u64 \<Rightarrow> u64 \<Rightarrow> bytes option \<Rightarrow> bytes option \<Rightarrow> nat \<Rightarrow> int" where
  "powerfs_net_setxattr srv mem sid ino name val value_len =
    (if bad_name name then - EINVAL
     else if value_len > 0 \<and> val = None then - EINVAL
     else if \<not> mem then - ENOMEM
     else rpc_errno (fst (srv MSG_SET_XATTR ino (emit (64 + length (the name) + value_len)
            [U64 FLD_SHARD_ID sid, U64 FLD_INO ino, Str FLD_XATTR_KEY (the name),
             Raw FLD_XATTR_VALUE (if value_len > 0 then take value_len (the val) else [])]))))"

definition powerfs_net_getxattr ::
  "xsrv \<Rightarrow> bool \<Rightarrow> u64 \<Rightarrow> u64 \<Rightarrow> bytes option \<Rightarrow> bytes option \<Rightarrow> nat \<Rightarrow> nat option \<Rightarrow> int \<times> bytes option \<times> nat option" where
  "powerfs_net_getxattr srv mem sid ino name value_out value_cap value_len_out =
    (if bad_name name \<or> value_len_out = None then (- EINVAL, value_out, value_len_out)
     else if \<not> mem then (- ENOMEM, value_out, Some 0)
     else
       let (ret, resp) = fill_response 4096 (srv MSG_GET_XATTR ino (emit (64 + length (the name))
             [U64 FLD_SHARD_ID sid, U64 FLD_INO ino, Str FLD_XATTR_KEY (the name)]))
       in if ret \<noteq> 0 then (xattr_errno ret, value_out, Some 0)
          else
            let raw = (case find_raw_bytes (resp_decoder resp) FLD_XATTR_VALUE of Some v \<Rightarrow> v | None \<Rightarrow> [])
            in if raw = [] then (0, value_out, Some 0)
               else if length raw > value_cap then (- ERANGE, value_out, Some (length raw))
               else (0, map_option (wr_bytes 0 raw) value_out, Some (length raw)))"

definition powerfs_net_removexattr :: "xsrv \<Rightarrow> bool \<Rightarrow> u64 \<Rightarrow> u64 \<Rightarrow> bytes option \<Rightarrow> int" where
  "powerfs_net_removexattr srv mem sid ino name =
    (if bad_name name then - EINVAL
     else if \<not> mem then - ENOMEM
     else xattr_errno (fst (srv MSG_REMOVE_XATTR ino (emit (64 + length (the name))
            [U64 FLD_SHARD_ID sid, U64 FLD_INO ino, Str FLD_XATTR_KEY (the name)]))))"

text \<open>The list of the names. The second send is the retry with a buffer of the size that the first one reported; \<open>srv\<close> has
  one outcome per send.\<close>

definition list_retry_cap :: "nat \<Rightarrow> nat" where
  "list_retry_cap resp_body_len = min (if resp_body_len \<noteq> 0 then resp_body_len else 8192) 65536"

definition list_decode :: "bytes \<Rightarrow> bytes option \<Rightarrow> nat \<Rightarrow> int \<times> bytes option \<times> nat option" where
  "list_decode resp list_buf list_cap =
    (if length resp = 0 then (0, list_buf, Some 0)
     else
       case find_raw_bytes (resp_decoder resp) FLD_XATTR_KEYS of
         None \<Rightarrow> (0, list_buf, Some 0)
       | Some raw \<Rightarrow>
           if raw = [] then (0, list_buf, Some 0)
           else if list_buf = None \<or> list_cap = 0 \<or> length raw > list_cap then (- ERANGE, list_buf, Some (length raw))
           else (0, map_option (wr_bytes 0 raw) list_buf, Some (length raw)))"

definition powerfs_net_listxattr ::
  "xsrv \<Rightarrow> xsrv \<Rightarrow> bool \<Rightarrow> u64 \<Rightarrow> u64 \<Rightarrow> bytes option \<Rightarrow> nat \<Rightarrow> nat option \<Rightarrow> int \<times> bytes option \<times> nat option" where
  "powerfs_net_listxattr srv srv' mem sid ino list_buf list_cap list_len_out =
    (if list_len_out = None then (- EINVAL, list_buf, list_len_out)
     else
       let body = emit 64 [U64 FLD_SHARD_ID sid, U64 FLD_INO ino];
           (ret, resp) = fill_response 512 (srv MSG_LIST_XATTR ino body)
       in if ret = - ERANGE \<and> \<not> mem then (- ENOMEM, list_buf, Some 0)
          else
            let (ret, resp) = (if ret = - ERANGE
                  then fill_response (list_retry_cap (length resp)) (srv' MSG_LIST_XATTR ino body) else (ret, resp))
            in if ret \<noteq> 0 then (rpc_errno ret, list_buf, Some 0) else list_decode resp list_buf list_cap)"

definition powerfs_net_ping :: "xsrv \<Rightarrow> bool \<Rightarrow> int" where
  "powerfs_net_ping srv up = (if \<not> up then - ENOTCONN else rpc_errno (fst (srv MSG_PING 0 [])))"

section \<open>The handlers\<close>

text \<open>The functions of the kernel's list: \<open>get\<close> gives the length or an error and the bytes that it copies when there is a
  buffer, \<open>set\<close> an error or zero, \<open>list\<close> the total length or an error and the names.\<close>

record 'x sx_ops =
  sx_get :: "'x \<Rightarrow> bytes \<Rightarrow> nat option \<Rightarrow> int \<times> bytes"
  sx_set :: "'x \<Rightarrow> bytes \<Rightarrow> bytes option \<Rightarrow> u32 \<Rightarrow> int \<times> 'x"
  sx_list :: "'x \<Rightarrow> nat option \<Rightarrow> int \<times> bytes"

record 'x xinode =
  xi_ino :: u64
  xi_cache :: 'x
  xi_version :: u64
  xi_caps :: cinode

text \<open>\<open>buf\<close> is the buffer of the caller with its contents, \<open>None\<close> for \<open>NULL\<close> or for a buffer of no size. A cached answer
  overwrites the start of the buffer.\<close>

definition powerfs_xattr_handler_get ::
  "'x sx_ops \<Rightarrow> xsrv \<Rightarrow> bool \<Rightarrow> u64 \<Rightarrow> bytes \<Rightarrow> bytes option \<Rightarrow> 'x xinode \<Rightarrow> int \<times> bytes option \<times> 'x xinode" where
  "powerfs_xattr_handler_get sx srv mem n full_name buf xi =
    (let (ret, cached) = sx_get sx (xi_cache xi) full_name (map_option length buf)
     in if ret \<noteq> - ENODATA then (ret, map_option (wr_bytes 0 cached) buf, xi)
        else
          let sid = powerfs_calc_shard_id n (xi_ino xi);
              (tmp, tmpcap) = (case buf of Some b \<Rightarrow> (b, length b) | None \<Rightarrow> (replicate 256 0, 256));
              (ret, out, got) = powerfs_net_getxattr srv mem sid (xi_ino xi) (Some full_name) (Some tmp) tmpcap (Some 0);
              got_len = the got
          in if ret = 0
             then (int got_len, map_option (\<lambda>_. the out) buf,
                   xi\<lparr>xi_cache := snd (sx_set sx (xi_cache xi) full_name (Some (take got_len (the out))) 0)\<rparr>)
             else if ret = - ERANGE \<and> buf = None then (int got_len, buf, xi)
             else (ret, buf, xi))"

definition powerfs_xattr_handler_set ::
  "'x sx_ops \<Rightarrow> xsrv \<Rightarrow> bool \<Rightarrow> u64 \<Rightarrow> bytes \<Rightarrow> bytes option \<Rightarrow> u32 \<Rightarrow> 'x xinode \<Rightarrow> int \<times> 'x xinode" where
  "powerfs_xattr_handler_set sx srv mem n full_name val flags xi =
    (let vlen = (case val of Some v \<Rightarrow> length v | None \<Rightarrow> 0)
     in if vlen > XATTR_SIZE_MAX then (- E2BIG, xi)
        else
          let sid = powerfs_calc_shard_id n (xi_ino xi);
              ret = (case val of
                  None \<Rightarrow> powerfs_net_removexattr srv mem sid (xi_ino xi) (Some full_name)
                | Some v \<Rightarrow> powerfs_net_setxattr srv mem sid (xi_ino xi) (Some full_name) val vlen)
          in if ret < 0 then (ret, xi)
             else (0, xi\<lparr>xi_cache := snd (sx_set sx (xi_cache xi) full_name val (if val = None then 0 else flags)),
                         xi_caps := powerfs_cap_mark_dirty CAP_XATTR_EXCL (xi_caps xi),
                         xi_version := xi_version xi + 1\<rparr>))"

text \<open>The names. \<open>junk\<close> gives the contents of a fresh buffer of a size. The walk over the names: \<open>strlen\<close> from each position of the buffer, and a remote call for each value. \<open>None\<close> is a
  read past the end of the buffer. \<open>alloc\<close> tells whether the buffer for the value of the name at a position is there.\<close>

definition list_fill_one ::
  "'x sx_ops \<Rightarrow> xsrv \<Rightarrow> bool \<Rightarrow> u64 \<Rightarrow> bytes \<Rightarrow> 'x xinode \<Rightarrow> 'x xinode" where
  "list_fill_one sx srv alloc sid key xi =
    (if \<not> alloc then xi
     else
       let (ret, out, vlen) = powerfs_net_getxattr srv True sid (xi_ino xi) (Some key) (Some (replicate XATTR_SIZE_MAX 0))
             XATTR_SIZE_MAX (Some 0)
       in if ret = 0 then xi\<lparr>xi_cache := snd (sx_set sx (xi_cache xi) key (Some (take (the vlen) (the out))) 0)\<rparr> else xi)"

function list_fill ::
  "'x sx_ops \<Rightarrow> xsrv \<Rightarrow> (nat \<Rightarrow> bool) \<Rightarrow> u64 \<Rightarrow> bytes \<Rightarrow> nat \<Rightarrow> nat \<Rightarrow> 'x xinode \<Rightarrow> 'x xinode option" where
  "list_fill sx srv alloc sid buf list_len pos xi =
    (if pos \<ge> list_len then Some xi
     else if 0 \<notin> set (drop pos buf) then None
     else let key = cstr (drop pos buf)
          in list_fill sx srv alloc sid buf list_len (pos + length key + 1) (list_fill_one sx srv (alloc pos) sid key xi))"
  by pat_completeness auto
termination by (relation "measure (\<lambda>(_, _, _, _, _, list_len, pos, _). list_len - pos)") auto

definition powerfs_listxattr ::
  "'x sx_ops \<Rightarrow> (nat \<Rightarrow> xsrv) \<Rightarrow> (nat \<Rightarrow> bool) \<Rightarrow> (nat \<Rightarrow> bool) \<Rightarrow> (nat \<Rightarrow> bytes) \<Rightarrow> u64 \<Rightarrow> bytes option \<Rightarrow> nat \<Rightarrow>
    'x xinode \<Rightarrow> (int \<times> bytes option \<times> 'x xinode) option" where
  "powerfs_listxattr sx srv mem alloc junk n buffer sz xi =
    (let (l1_ret, names) = sx_list sx (xi_cache xi) (if buffer = None then None else Some sz)
     in if l1_ret > 0 \<or> (l1_ret = 0 \<and> sz = 0) then Some (l1_ret, map_option (wr_bytes 0 names) buffer, xi)
        else
          let sid = powerfs_calc_shard_id n (xi_ino xi); own = (buffer = None \<or> sz = 0);
              list_cap = (if sz > 0 then sz else 4096)
          in if own \<and> \<not> mem 0 then Some (- ENOMEM, buffer, xi)
             else
               let lb = (if own then junk list_cap else the buffer);
                   (ret, lb1, len) = powerfs_net_listxattr (srv 0) (srv 1) (mem 1) sid (xi_ino xi) (Some lb) list_cap (Some 0);
                   again = (ret = - ERANGE \<and> own);
                   cap' = the len
               in if again \<and> \<not> mem 2 then Some (- ENOMEM, buffer, xi)
                  else
                    let (ret, lb2, len) = (if again
                          then powerfs_net_listxattr (srv 2) (srv 3) (mem 3) sid (xi_ino xi) (Some (junk cap')) cap' (Some 0)
                          else (ret, lb1, len))
                    in if ret < 0 then Some (ret, if own then buffer else lb2, xi)
                       else map_option (\<lambda>xi.
                         if own then (fst (sx_list sx (xi_cache xi) None), buffer, xi)
                         else (int (the len), lb2, xi))
                         (list_fill sx (srv 4) alloc sid (the lb2) (the len) 0 xi))"

section \<open>The cache in front of the filer\<close>

text \<open>What the code relies on in the kernel's list, with \<open>view\<close> the attributes it holds: a lookup is faithful, and a store
  either takes effect or fails without one; a store with \<open>XATTR_CREATE\<close> of a name that is there fails.\<close>

definition sx_laws :: "('x \<Rightarrow> bytes \<Rightarrow> bytes option) \<Rightarrow> 'x sx_ops \<Rightarrow> bool" where
  "sx_laws view sx \<longleftrightarrow>
    (\<forall>x n cap. sx_get sx x n cap =
      (case view x n of
         None \<Rightarrow> (- ENODATA, [])
       | Some v \<Rightarrow> (case cap of None \<Rightarrow> (int (length v), [])
                   | Some c \<Rightarrow> if length v > c then (- ERANGE, []) else (int (length v), v)))) \<and>
    (\<forall>x n v fl. case sx_set sx x n v fl of (err, x') \<Rightarrow> view x' = (if err = 0 then (view x)(n := v) else view x)) \<and>
    (\<forall>x n v. view x n \<noteq> None \<longrightarrow> v \<noteq> None \<longrightarrow> fst (sx_set sx x n v 1) = - EEXIST)"

definition get_request :: "u64 \<Rightarrow> u64 \<Rightarrow> bytes \<Rightarrow> bytes" where
  "get_request n ino name = emit (64 + length name)
    [U64 FLD_SHARD_ID (powerfs_calc_shard_id n ino), U64 FLD_INO ino, Str FLD_XATTR_KEY name]"

text \<open>The filer holds the attributes \<open>F\<close> of the inode and answers requests for them.\<close>

definition serves :: "xsrv \<Rightarrow> u64 \<Rightarrow> u64 \<Rightarrow> (bytes \<Rightarrow> bytes option) \<Rightarrow> bool" where
  "serves srv n ino F \<longleftrightarrow> (\<forall>name. srv MSG_GET_XATTR ino (get_request n ino name) =
    (case F name of None \<Rightarrow> (1, []) | Some v \<Rightarrow> (0, tlv_ser [(FLD_XATTR_VALUE, v)])))"

definition coherent :: "('x \<Rightarrow> bytes \<Rightarrow> bytes option) \<Rightarrow> 'x xinode \<Rightarrow> (bytes \<Rightarrow> bytes option) \<Rightarrow> bool" where
  "coherent view xi F \<longleftrightarrow> (\<forall>n v. view (xi_cache xi) n = Some v \<longrightarrow> F n = Some v)"

lemma net_getxattr_served:
  assumes "serves srv n ino F" "\<not> bad_name (Some name)"
  shows "powerfs_net_getxattr srv True (powerfs_calc_shard_id n ino) ino (Some name) out cap (Some k) =
    (case F name of
       None \<Rightarrow> (- ENODATA, out, Some 0)
     | Some v \<Rightarrow> if length v + 5 > 4096 then (- E2BIG, out, Some 0)
                 else if v = [] then (0, out, Some 0)
                 else if length v > cap then (- ERANGE, out, Some (length v))
                 else (0, map_option (wr_bytes 0 v) out, Some (length v)))"
proof -
  have r: "srv MSG_GET_XATTR ino (get_request n ino name) =
      (case F name of None \<Rightarrow> (1, []) | Some v \<Rightarrow> (0, tlv_ser [(FLD_XATTR_VALUE, v)]))"
    using assms(1) by (simp add: serves_def)
  have f: "find_raw_bytes (resp_decoder (tlv_ser [(FLD_XATTR_VALUE, v)])) FLD_XATTR_VALUE = Some v" if "length v < 2 ^ 32" for v
    using find_raw_bytes_ser [of "[(FLD_XATTR_VALUE, v)]" FLD_XATTR_VALUE] that by simp
  show ?thesis
  proof (cases "F name")
    case None
    then show ?thesis using assms(2) r
      by (simp add: powerfs_net_getxattr_def get_request_def fill_response_def xattr_errno_def Let_def)
  next
    case (Some v)
    then show ?thesis using assms(2) r f [of v]
      by (auto simp: powerfs_net_getxattr_def get_request_def fill_response_def xattr_errno_def rpc_errno_def Let_def)
  qed
qed

lemma sx_get_law: "sx_laws view sx \<Longrightarrow> sx_get sx x n cap =
      (case view x n of
         None \<Rightarrow> (- ENODATA, [])
       | Some v \<Rightarrow> (case cap of None \<Rightarrow> (int (length v), [])
                   | Some c \<Rightarrow> if length v > c then (- ERANGE, []) else (int (length v), v)))"
  by (simp add: sx_laws_def)

lemma sx_set_law: "sx_laws view sx \<Longrightarrow>
    view (snd (sx_set sx x n v fl)) = (if fst (sx_set sx x n v fl) = 0 then (view x)(n := v) else view x)"
  by (simp add: sx_laws_def case_prod_beta)

lemma take_wr_bytes_0: "length v \<le> length b \<Longrightarrow> take (length v) (wr_bytes 0 v b) = v"
  using take_wr_bytes [of 0 v b] by simp

text \<open>C26: Reading an extended attribute through the cache gives what the filer holds, for values that fit into the buffer and
  the response, and leaves the cache coherent: the handler implements the lookup in the attributes of the filer.\<close>

theorem xattr_get_refines:
  assumes laws: "sx_laws view sx" and srv: "serves srv n (xi_ino xi) F" and coh: "coherent view xi F"
    and name: "\<not> bad_name (Some name)" and fits: "\<And>v. F name = Some v \<Longrightarrow> length v \<le> 4091 \<and> length v \<le> length b"
    and get: "powerfs_xattr_handler_get sx srv True n name (Some b) xi = (ret, out, xi')"
  shows "coherent view xi' F \<and>
    (case F name of None \<Rightarrow> ret = - ENODATA | Some v \<Rightarrow> ret = int (length v) \<and> take (length v) (the out) = v)"
proof (cases "view (xi_cache xi) name")
  case (Some v)
  then have "F name = Some v" using coh by (simp add: coherent_def)
  then show ?thesis using get coh fits [of v] sx_get_law [OF laws, of "xi_cache xi" name "Some (length b)"] Some
    by (auto simp: powerfs_xattr_handler_get_def take_wr_bytes_0)
next
  case None
  then have g: "sx_get sx (xi_cache xi) name (Some (length b)) = (- ENODATA, [])" using sx_get_law [OF laws] by simp
  show ?thesis
  proof (cases "F name")
    case None
    then show ?thesis using get coh g
      by (auto simp: powerfs_xattr_handler_get_def net_getxattr_served [OF srv name] Let_def)
  next
    case (Some v)
    let ?x = "snd (sx_set sx (xi_cache xi) name (Some v) 0)"
    have out: "take (length v) (wr_bytes 0 v b) = v" using fits [OF Some] by (simp add: take_wr_bytes_0)
    have "coherent view (xi\<lparr>xi_cache := ?x\<rparr>) F"
      using coh Some sx_set_law [OF laws, of "xi_cache xi" name "Some v" 0] by (auto simp: coherent_def)
    then show ?thesis using get g Some fits [OF Some] out
      by (cases "v = []") (auto simp: powerfs_xattr_handler_get_def net_getxattr_served [OF srv name] Let_def)
  qed
qed

text \<open>A write of an attribute that the filer accepted leaves the cache coherent exactly when the store into the cache took
  effect or the cache held no other value of that name: the result of that store is ignored.\<close>

theorem xattr_set_coherence:
  assumes laws: "sx_laws view sx" and coh: "coherent view xi F"
    and set: "powerfs_xattr_handler_set sx srv mem n name (Some v) flags xi = (0, xi')"
  shows "coherent view xi' (F(name := Some v)) \<longleftrightarrow>
    fst (sx_set sx (xi_cache xi) name (Some v) flags) = 0 \<or> view (xi_cache xi) name \<in> {None, Some v}"
proof -
  have x: "xi_cache xi' = snd (sx_set sx (xi_cache xi) name (Some v) flags)"
    using set by (auto simp: powerfs_xattr_handler_set_def Let_def split: if_splits)
  show ?thesis
  proof (cases "fst (sx_set sx (xi_cache xi) name (Some v) flags) = 0")
    case True
    then show ?thesis using coh sx_set_law [OF laws, of "xi_cache xi" name "Some v" flags] by (auto simp: coherent_def x)
  next
    case False
    then have "view (xi_cache xi') = view (xi_cache xi)" using sx_set_law [OF laws] by (simp add: x)
    then show ?thesis using coh False by (cases "view (xi_cache xi) name") (auto simp: coherent_def)
  qed
qed


text \<open>C37: Values of more than 4091 bytes can be stored, up to the limit of the VFS, but not read back by a client that does not
  have them in its cache: the response does not fit and the read fails. For the same reason the names of an inode
  cannot be listed once they take more than 507 bytes, since the retry with a larger buffer waits for another error than
  the one the receive path reports.\<close>

theorem xattr_large_responses_fail:
  assumes laws: "sx_laws view sx" and srv: "serves srv n (xi_ino xi) F" and name: "\<not> bad_name (Some name)"
    and v: "F name = Some v" "length v > 4091" and cold: "view (xi_cache xi) name = None"
    and keys: "\<And>body. srv MSG_LIST_XATTR (xi_ino xi) body = (0, tlv_ser [(FLD_XATTR_KEYS, ks)])" "length ks > 507"
  shows "fst (powerfs_xattr_handler_get sx srv True n name (Some b) xi) = - E2BIG \<and>
    fst (powerfs_net_listxattr srv srv' mem sid (xi_ino xi) lbuf lcap (Some k)) = - E2BIG"
proof -
  have "sx_get sx (xi_cache xi) name (Some (length b)) = (- ENODATA, [])" using sx_get_law [OF laws] cold by simp
  then have "fst (powerfs_xattr_handler_get sx srv True n name (Some b) xi) = - E2BIG"
    using v by (simp add: powerfs_xattr_handler_get_def net_getxattr_served [OF srv name] Let_def)
  moreover have "fst (powerfs_net_listxattr srv srv' mem sid (xi_ino xi) lbuf lcap (Some k)) = - E2BIG"
    using keys by (simp add: powerfs_net_listxattr_def fill_response_def rpc_errno_def Let_def)
  ultimately show ?thesis ..
qed

section \<open>Examples\<close>

definition sx0 :: "(bytes \<times> bytes) list sx_ops" where
  "sx0 = \<lparr>sx_get = (\<lambda>x n cap. case map_of x n of None \<Rightarrow> (- ENODATA, [])
       | Some v \<Rightarrow> (case cap of None \<Rightarrow> (int (length v), [])
                   | Some c \<Rightarrow> if length v > c then (- ERANGE, []) else (int (length v), v))),
     sx_set = (\<lambda>x n v fl. if fl = 1 \<and> map_of x n \<noteq> None \<and> v \<noteq> None then (- EEXIST, x)
       else (0, (case v of None \<Rightarrow> [] | Some w \<Rightarrow> [(n, w)]) @ filter (\<lambda>p. fst p \<noteq> n) x)),
     sx_list = (\<lambda>x cap. (int (length (concat (map (\<lambda>p. fst p @ [0]) x))), concat (map (\<lambda>p. fst p @ [0]) x)))\<rparr>"

lemma map_of_without: "map_of (filter (\<lambda>p. fst p \<noteq> n) x) = (map_of x)(n := None)"
  by (induction x) (auto simp: fun_eq_iff)

lemma map_of_store:
  "map_of ((case v of None \<Rightarrow> [] | Some w \<Rightarrow> [(n, w)]) @ filter (\<lambda>p. fst p \<noteq> n) x) = (map_of x)(n := v)"
  by (cases v) (simp_all add: map_of_without)

lemma sx0_laws: "sx_laws map_of sx0"
  by (auto simp: sx_laws_def sx0_def map_of_store simp del: map_of_append)

definition xi0 :: "(bytes \<times> bytes) list \<Rightarrow> (bytes \<times> bytes) list xinode" where
  "xi0 x = \<lparr>xi_ino = 7, xi_cache = x, xi_version = 0, xi_caps = inode0\<rparr>"

definition const_srv :: "bytes \<Rightarrow> bytes \<Rightarrow> xsrv" where
  "const_srv v ks msg ino body = (0, if msg = MSG_GET_XATTR then tlv_ser [(FLD_XATTR_VALUE, v)] else
    if msg = MSG_LIST_XATTR then tlv_ser [(FLD_XATTR_KEYS, ks)] else [])"

lemma const_srv_serves: "serves (const_srv v ks) n ino (\<lambda>_. Some v)"
  by (simp add: serves_def const_srv_def)

lemma const_srv_set: "fst (powerfs_xattr_handler_set sx (const_srv w ks) True n [117] (Some [2]) fl xi) = 0"
  by (simp add: powerfs_xattr_handler_set_def powerfs_net_setxattr_def const_srv_def rpc_errno_def bad_name_def Let_def)

theorem xattr_get_refines_witness:
  "fst (powerfs_xattr_handler_get sx0 (const_srv [1, 2, 3] []) True 4 [117] (Some (replicate 8 0)) (xi0 [])) = 3"
proof -
  obtain ret out xi' where g: "powerfs_xattr_handler_get sx0 (const_srv [1, 2, 3] []) True 4 [117] (Some (replicate 8 0)) (xi0 []) =
      (ret, out, xi')" by (metis prod_cases3)
  have c: "coherent map_of (xi0 []) (\<lambda>_. Some [1, 2, 3])" and n: "\<not> bad_name (Some [117])"
    by (simp_all add: coherent_def xi0_def bad_name_def)
  have f: "length v \<le> 4091 \<and> length v \<le> length (replicate 8 (0 :: u8))" if "(\<lambda>_. Some [1, 2, 3]) [117 :: u8] = Some v" for v :: bytes
    using that by auto
  have "serves (const_srv [1, 2, 3] []) 4 (xi_ino (xi0 [])) (\<lambda>_. Some [1, 2, 3])" by (rule const_srv_serves)
  from xattr_get_refines [OF sx0_laws this c n f g] have "ret = 3" by simp
  then show ?thesis by (simp only: g fst_conv)
qed

theorem xattr_set_coherence_witness:
  "\<exists>xi'. powerfs_xattr_handler_set sx0 (const_srv [] []) True 4 [117] (Some [2]) 1 (xi0 [([117], [1])]) = (0, xi') \<and>
    \<not> coherent map_of xi' ((\<lambda>_. Some [1])([117] := Some [2]))"
proof -
  let ?r = "powerfs_xattr_handler_set sx0 (const_srv [] []) True 4 [117] (Some [2]) 1 (xi0 [([117], [1])])"
  have "fst ?r = 0" by (rule const_srv_set)
  then have r: "?r = (0, snd ?r)" by (simp add: prod_eq_iff)
  have "coherent map_of (xi0 [([117], [1])]) (\<lambda>_. Some [1])" by (simp add: coherent_def xi0_def)
  from xattr_set_coherence [OF sx0_laws this r] have "\<not> coherent map_of (snd ?r) ((\<lambda>_. Some [1])([117] := Some [2]))"
    by (simp add: sx0_def xi0_def)
  then show ?thesis using r by blast
qed


theorem xattr_large_responses_fail_witness:
  "fst (powerfs_xattr_handler_get sx0 (const_srv (replicate 4092 7) (replicate 508 65)) True 4 [117] (Some []) (xi0 [])) = - E2BIG"
proof -
  have "map_of (xi_cache (xi0 [])) [117] = None" "\<not> bad_name (Some [117 :: u8])"
    by (simp_all add: xi0_def bad_name_def)
  then show ?thesis
    using xattr_large_responses_fail [OF sx0_laws const_srv_serves, of "[117]" "replicate 4092 7" "replicate 4092 7" "xi0 []"
        "replicate 508 65" "replicate 508 65" 4 "[]"] by (simp add: const_srv_def)
qed

end
