(* ===== verification/WritePredict.thy ===== *)
theory WritePredict
  imports Xattr "HOL-Library.Signed_Division" "HOL-Library.Multiset"
begin

text \<open>
  Skipping writes of unchanged chunks (\<open>powerfs_write_predict.c\<close>, built with \<open>CONFIG_POWERFS_WRITE_PREDICT\<close>) and the part
  of write-back in \<open>powerfs_addr.c\<close> that uses it. Per inode there is a table with a fingerprint of the bytes that were last
  written to each chunk: an entry is provisional before a write and becomes valid when the write has succeeded. The hash
  \<open>xxh64\<close>, SHA-256 and the allocator are parameters. \<open>None\<close> for a whole operation is an access outside of the table.
\<close>

section \<open>The table of fingerprints\<close>

record wp_entry =
  e_chunk_idx :: u32
  e_needle_id :: u64
  e_volume_id :: u64
  e_crc32 :: u32
  e_size :: u64
  e_fp_xxh :: u64
  e_fp_valid :: bool
  e_gen :: u64

definition zero_entry :: wp_entry where
  "zero_entry = \<lparr>e_chunk_idx = 0, e_needle_id = 0, e_volume_id = 0, e_crc32 = 0, e_size = 0, e_fp_xxh = 0, e_fp_valid = False, e_gen = 0\<rparr>"

record wp_inode =
  wi_ino :: u64
  wi_file_key :: u64
  wi_volume_id :: u64
  wi_enabled :: bool
  wi_cached :: bool
  wi_querying :: bool
  wi_chunks :: "wp_entry list option"
  wi_pending :: "(u64 \<times> nat) list"
  wi_pending_cnt :: u32
  wi_map_dirty :: bool

definition dedup_chunk_count :: "wp_inode \<Rightarrow> nat" where
  "dedup_chunk_count wi = (case wi_chunks wi of Some a \<Rightarrow> length a | None \<Rightarrow> 0)"

definition powerfs_write_predict_inode_init :: "wp_inode \<Rightarrow> wp_inode" where
  "powerfs_write_predict_inode_init wi = wi\<lparr>wi_enabled := False, wi_cached := False, wi_querying := False, wi_chunks := None,
    wi_pending_cnt := 0, wi_map_dirty := False, wi_pending := []\<rparr>"

definition powerfs_write_predict_inode_destroy :: "wp_inode \<Rightarrow> wp_inode" where
  "powerfs_write_predict_inode_destroy wi = wi\<lparr>wi_chunks := None, wi_pending_cnt := 0, wi_pending := []\<rparr>"

definition powerfs_write_predict_invalidate :: "wp_inode \<Rightarrow> wp_inode" where
  "powerfs_write_predict_invalidate wi = wi\<lparr>wi_cached := False, wi_querying := False\<rparr>"

definition powerfs_write_predict_is_enabled :: "wp_inode \<Rightarrow> bool" where
  "powerfs_write_predict_is_enabled wi = (wi_cached wi \<and> wi_enabled wi)"

definition wp_entry_ensure_locked :: "bool \<Rightarrow> u32 \<Rightarrow> wp_inode \<Rightarrow> (nat option \<times> wp_inode) option" where
  "wp_entry_ensure_locked mem chunk_idx wi =
    (if unat chunk_idx < dedup_chunk_count wi then Some (Some (unat chunk_idx), wi)
     else
       let new_count = chunk_idx + 1; old = (case wi_chunks wi of Some a \<Rightarrow> a | None \<Rightarrow> [])
       in if new_count > 4096 then Some (None, wi)
          else if \<not> mem then Some (None, wi)
          else if unat new_count \<le> unat chunk_idx then None
          else Some (Some (unat chunk_idx), wi\<lparr>wi_chunks := Some (old @ replicate (unat new_count - length old) zero_entry)\<rparr>))"

abbreviation upd_entry :: "nat \<Rightarrow> (wp_entry \<Rightarrow> wp_entry) \<Rightarrow> wp_inode \<Rightarrow> wp_inode" where
  "upd_entry i f wi \<equiv> wi\<lparr>wi_chunks := map_option (\<lambda>a. a[i := f (a ! i)]) (wi_chunks wi)\<rparr>"

record wp_outs =
  wo_needle_id :: "u64 option"
  wo_volume_id :: "u64 option"
  wo_xxh :: "u64 option"
  wo_gen :: "u64 option"

definition wp_entry_hit :: "u64 \<Rightarrow> u64 \<Rightarrow> u64 \<Rightarrow> u32 \<Rightarrow> wp_inode \<Rightarrow> bool" where
  "wp_entry_hit own_nid own_vid actual chunk_idx wi =
    (case wi_chunks wi of
       None \<Rightarrow> False
     | Some a \<Rightarrow> unat chunk_idx < length a \<and>
         (let e = a ! unat chunk_idx
          in e_fp_valid e \<and> e_needle_id e \<noteq> 0 \<and> e_fp_xxh e = actual \<and> e_needle_id e = own_nid \<and> e_volume_id e = own_vid))"

definition powerfs_write_predict_check_hit ::
  "(bytes \<Rightarrow> u64) \<Rightarrow> bool \<Rightarrow> u32 \<Rightarrow> bytes option \<Rightarrow> wp_outs \<Rightarrow> wp_inode \<Rightarrow> (bool \<times> wp_outs \<times> wp_inode) option" where
  "powerfs_write_predict_check_hit xxh64 mem chunk_idx data outs wi =
    (if \<not> powerfs_write_predict_is_enabled wi \<or> data = None \<or> data = Some [] then Some (False, outs, wi)
     else
       let own_nid = wi_file_key wi + ucast chunk_idx; own_vid = wi_volume_id wi
       in if own_nid = 0 \<or> own_vid = 0 then Some (False, outs, wi)
          else
            let actual = xxh64 (the data)
            in if wp_entry_hit own_nid own_vid actual chunk_idx wi
               then Some (True, outs\<lparr>wo_needle_id := set_out (Some own_nid) (wo_needle_id outs),
                                    wo_volume_id := set_out (Some own_vid) (wo_volume_id outs)\<rparr>, wi)
               else
                 case wp_entry_ensure_locked mem chunk_idx wi of
                   None \<Rightarrow> None
                 | Some (None, wi) \<Rightarrow> Some (False, outs, wi)
                 | Some (Some i, wi) \<Rightarrow>
                     let wi = upd_entry i (\<lambda>e. e\<lparr>e_gen := e_gen e + 1, e_chunk_idx := chunk_idx, e_needle_id := own_nid,
                           e_volume_id := own_vid, e_size := POWERFS_CHUNK_SIZE, e_fp_xxh := actual, e_fp_valid := False\<rparr>) wi;
                         gen = e_gen (the (wi_chunks wi) ! i)
                     in Some (False, \<lparr>wo_needle_id = set_out (Some own_nid) (wo_needle_id outs),
                              wo_volume_id = set_out (Some own_vid) (wo_volume_id outs),
                              wo_xxh = set_out (Some actual) (wo_xxh outs), wo_gen = set_out (Some gen) (wo_gen outs)\<rparr>, wi))"

definition powerfs_write_predict_commit :: "u32 \<Rightarrow> u64 \<Rightarrow> u64 \<Rightarrow> u64 \<Rightarrow> u64 \<Rightarrow> wp_inode \<Rightarrow> wp_inode" where
  "powerfs_write_predict_commit chunk_idx nid vid fp_xxh gen wi =
    (if nid = 0 then wi
     else case wi_chunks wi of
         None \<Rightarrow> wi
       | Some a \<Rightarrow>
           if unat chunk_idx < length a \<and>
             (let e = a ! unat chunk_idx
              in e_gen e = gen \<and> \<not> e_fp_valid e \<and> e_needle_id e = nid \<and> e_volume_id e = vid \<and> e_fp_xxh e = fp_xxh)
           then upd_entry (unat chunk_idx) (\<lambda>e. e\<lparr>e_fp_valid := True\<rparr>) wi else wi)"

definition powerfs_write_predict_map_dirty :: "wp_inode \<Rightarrow> bool" where
  "powerfs_write_predict_map_dirty wi = wi_map_dirty wi"

definition powerfs_write_predict_map_dirty_clear :: "wp_inode \<Rightarrow> wp_inode" where
  "powerfs_write_predict_map_dirty_clear wi = wi\<lparr>wi_map_dirty := False\<rparr>"

section \<open>The policy\<close>

text \<open>A C string is the bytes with the terminator. The integers of the parser have 32 bits and wrap, as the kernel is
  compiled.\<close>

definition to_lower :: "u8 \<Rightarrow> u8" where
  "to_lower c = (if 65 \<le> c \<and> c \<le> 90 then c + 32 else c)"

definition starts_nocase :: "bytes \<Rightarrow> bytes \<Rightarrow> bool" where
  "starts_nocase pat s = (map to_lower (take (length pat) s) = map to_lower pat)"

abbreviation str_off :: bytes where "str_off \<equiv> [111, 102, 102]"
abbreviation str_NN :: bytes where "str_NN \<equiv> [78, 78, 58]"
abbreviation str_RULE :: bytes where "str_RULE \<equiv> [82, 85, 76, 69, 58]"

fun parse_digits :: "u32 \<Rightarrow> bool \<Rightarrow> bytes \<Rightarrow> u32 \<times> bool \<times> bytes" where
  "parse_digits acc seen [] = (acc, seen, [])"
| "parse_digits acc seen (c # s) =
    (if 48 \<le> c \<and> c \<le> 57 then parse_digits (acc * 10 + ucast (c - 48)) True s else (acc, seen, c # s))"

definition parse_threshold_number :: "bytes \<Rightarrow> bool" where
  "parse_threshold_number s =
    (let neg = (hd s = 45);
         s = (if hd s = 45 \<or> hd s = 43 then tl s else s);
         (int_part, seen, s) = parse_digits 0 False s;
         (frac_part, seen, s) = (if hd s = 46 then parse_digits 0 seen (tl s) else (0, seen, s))
     in if \<not> seen then False else if neg then False else sint int_part > 0 \<or> sint frac_part > 0)"

definition skip_policy_prefix :: "bytes \<Rightarrow> bytes" where
  "skip_policy_prefix s = (if starts_nocase str_NN s then drop 3 s else if starts_nocase str_RULE s then drop 5 s else s)"

definition parse_policy_threshold :: "bytes option \<Rightarrow> bool" where
  "parse_policy_threshold val =
    (case val of
       None \<Rightarrow> False
     | Some v \<Rightarrow>
         if v = [] then False
         else
           let s = dropWhile (\<lambda>c. c = 32 \<or> c = 9) (take 64 v @ [0])
           in if starts_nocase str_off s then False else parse_threshold_number (skip_policy_prefix s))"

definition wp_xattr_name :: bytes where
  "wp_xattr_name = [117, 115, 101, 114, 46, 112, 111, 119, 101, 114, 102, 115, 46, 119, 114, 105, 116, 101, 95, 112, 114, 101, 100, 105,
    99, 116, 95, 112, 111, 108, 105, 99, 121]"

definition query_policy :: "xsrv \<Rightarrow> bool \<Rightarrow> u64 \<Rightarrow> u64 \<Rightarrow> int \<times> bytes" where
  "query_policy srv mem n ino =
    (case powerfs_net_getxattr srv mem (powerfs_calc_shard_id n ino) ino (Some wp_xattr_name) (Some (replicate 64 0)) 64 (Some 0) of
       (ret, out, len) \<Rightarrow> (ret, take (the len) (the out)))"

text \<open>The inheritance from the directories above. A directory is its inode number and whether it has an inode of the same
  super block; the list goes from the parent to the root.\<close>

fun inherit_policy :: "xsrv \<Rightarrow> bool \<Rightarrow> u64 \<Rightarrow> u64 \<Rightarrow> nat \<Rightarrow> (u64 \<times> bool) list \<Rightarrow> bool" where
  "inherit_policy srv mem n ino 0 ps = False"
| "inherit_policy srv mem n ino (Suc d) [] = False"
| "inherit_policy srv mem n ino (Suc d) ((p, same_sb) # ps) =
    (if same_sb \<and> p \<noteq> ino then
       (case query_policy srv mem n p of
          (ret, v) \<Rightarrow> if ret \<ge> 0 \<and> v \<noteq> [] then parse_policy_threshold (Some v) else inherit_policy srv mem n ino d ps)
     else inherit_policy srv mem n ino d ps)"

text \<open>\<open>waited\<close> is what a thread sees that waits for the query of another one, \<open>None\<close> when the wait times out.\<close>

definition powerfs_write_predict_should_dedup ::
  "xsrv \<Rightarrow> bool \<Rightarrow> u64 \<Rightarrow> (u64 \<times> bool) list \<Rightarrow> bool option \<Rightarrow> wp_inode \<Rightarrow> bool \<times> wp_inode" where
  "powerfs_write_predict_should_dedup srv mem n ps waited wi =
    (if wi_cached wi then (wi_enabled wi, wi)
     else if wi_querying wi \<and> waited \<noteq> None then (the waited, wi\<lparr>wi_cached := True, wi_enabled := the waited, wi_querying := False\<rparr>)
     else
       let (ret, v) = query_policy srv mem n (wi_ino wi);
           enabled = (if ret < 0 then inherit_policy srv mem n (wi_ino wi) 10 ps else parse_policy_threshold (Some v))
       in (enabled, wi\<lparr>wi_enabled := enabled, wi_cached := True, wi_querying := False\<rparr>))"

section \<open>Write-back of whole chunks\<close>

text \<open>The environment of one write: the policy query, the allocation for the table, and the outcome. A write that fails leaves the contents \<open>we_after\<close> on the volume.\<close>

record wp_write_env =
  we_srv :: xsrv
  we_mem :: bool
  we_shards :: u64
  we_parents :: "(u64 \<times> bool) list"
  we_waited :: "bool option"
  we_err :: int
  we_after :: bytes

type_synonym slots = "u64 \<times> u64 \<Rightarrow> bytes"

definition wb_write_done ::
  "wp_write_env \<Rightarrow> u64 \<Rightarrow> bytes \<Rightarrow> u64 \<Rightarrow> u64 \<Rightarrow> wp_inode \<Rightarrow> slots \<Rightarrow> int \<times> wp_inode \<times> slots" where
  "wb_write_done e idx data prov_xxh prov_gen wi vol =
    (let nid = wi_file_key wi + idx; vid = wi_volume_id wi
     in if we_err e \<noteq> 0 then (we_err e, wi, vol((vid, nid) := we_after e))
        else (0, if powerfs_write_predict_is_enabled wi \<and> prov_gen \<noteq> 0
                 then powerfs_write_predict_commit (ucast idx) nid vid prov_xxh prov_gen wi else wi,
              vol((vid, nid) := data)))"

definition powerfs_wb_write_direct ::
  "(bytes \<Rightarrow> u64) \<Rightarrow> wp_write_env \<Rightarrow> u64 \<Rightarrow> bytes \<Rightarrow> wp_inode \<Rightarrow> slots \<Rightarrow> (int \<times> wp_inode \<times> slots) option" where
  "powerfs_wb_write_direct xxh64 e idx data wi vol =
    (let wi = (if powerfs_write_predict_is_enabled wi then wi
               else snd (powerfs_write_predict_should_dedup (we_srv e) (we_mem e) (we_shards e) (we_parents e) (we_waited e) wi))
     in if powerfs_write_predict_is_enabled wi then
          (case powerfs_write_predict_check_hit xxh64 (we_mem e) (ucast idx) (Some data)
                  \<lparr>wo_needle_id = Some 0, wo_volume_id = Some 0, wo_xxh = Some 0, wo_gen = Some 0\<rparr> wi of
             None \<Rightarrow> None
           | Some (hit, outs, wi) \<Rightarrow>
               if hit then Some (0, wi, vol)
               else Some (wb_write_done e idx data (the (wo_xxh outs)) (the (wo_gen outs)) wi vol))
        else Some (wb_write_done e idx data 0 0 wi vol))"

fun wb_writes ::
  "(bytes \<Rightarrow> u64) \<Rightarrow> (wp_write_env \<times> u64 \<times> bytes) list \<Rightarrow> wp_inode \<Rightarrow> slots \<Rightarrow> (wp_inode \<times> slots) option" where
  "wb_writes xxh64 [] wi vol = Some (wi, vol)"
| "wb_writes xxh64 ((e, idx, data) # ws) wi vol =
    (case powerfs_wb_write_direct xxh64 e idx data wi vol of
       None \<Rightarrow> None
     | Some (_, wi, vol) \<Rightarrow> wb_writes xxh64 ws wi vol)"

section \<open>Skipped writes\<close>

text \<open>A valid entry speaks of the bytes on the volume, which are among the data \<open>D\<close> that have been written.\<close>

definition entry_ok :: "(bytes \<Rightarrow> u64) \<Rightarrow> bytes set \<Rightarrow> u64 \<times> u64 \<Rightarrow> slots \<Rightarrow> nat \<Rightarrow> wp_entry \<Rightarrow> bool" where
  "entry_ok xxh64 D own vol i e \<longleftrightarrow> (e_fp_valid e \<longrightarrow> fst own \<noteq> 0 \<and> snd own + of_nat i \<noteq> 0 \<and>
    vol (fst own, snd own + of_nat i) \<in> D \<and> xxh64 (vol (fst own, snd own + of_nat i)) = e_fp_xxh e)"

definition table_ok :: "(bytes \<Rightarrow> u64) \<Rightarrow> bytes set \<Rightarrow> u64 \<times> u64 \<Rightarrow> slots \<Rightarrow> wp_entry list option \<Rightarrow> bool" where
  "table_ok xxh64 D own vol ch \<longleftrightarrow> (case ch of None \<Rightarrow> True
     | Some a \<Rightarrow> length a \<le> 4096 \<and> (\<forall>i < length a. entry_ok xxh64 D own vol i (a ! i)))"

abbreviation own_slots :: "wp_inode \<Rightarrow> u64 \<times> u64" where "own_slots wi \<equiv> (wi_volume_id wi, wi_file_key wi)"

definition same_file :: "wp_inode \<Rightarrow> wp_inode \<Rightarrow> bool" where
  "same_file wi wi' \<longleftrightarrow> wi_file_key wi' = wi_file_key wi \<and> wi_volume_id wi' = wi_volume_id wi \<and>
    powerfs_write_predict_is_enabled wi' = powerfs_write_predict_is_enabled wi"

lemma ucast_idx:
  assumes "(idx :: u64) < 0xFFFFFFFF"
  shows "(ucast (ucast idx :: u32) :: u64) = idx" "unat (ucast idx :: u32) = unat idx" "(ucast idx :: u32) + 1 \<noteq> 0"
    "unat ((ucast idx :: u32) + 1) = unat idx + 1" "of_nat (unat idx) = idx"
proof -
  have l: "unat idx < 2 ^ 32 - 1" using assms by (simp add: word_less_nat_alt)
  then show u: "unat (ucast idx :: u32) = unat idx" by (simp add: unsigned_ucast_eq take_bit_nat_eq_self)
  then show "(ucast (ucast idx :: u32) :: u64) = idx" by (simp add: word_unat_eq_iff)
  show n: "unat ((ucast idx :: u32) + 1) = unat idx + 1"
    using u l by (subst unat_add_lem [THEN iffD1]) simp_all
  then show "(ucast idx :: u32) + 1 \<noteq> 0" by auto
qed simp

definition not_valid :: "nat \<Rightarrow> wp_inode \<Rightarrow> bool" where
  "not_valid i wi \<longleftrightarrow> (case wi_chunks wi of None \<Rightarrow> True | Some a \<Rightarrow> i < length a \<longrightarrow> \<not> e_fp_valid (a ! i))"

lemma ensure_step:
  assumes idx: "(idx :: u64) < 0xFFFFFFFF" and ok: "table_ok xxh64 D own vol (wi_chunks wi)"
  shows "(dedup_chunk_count wi \<le> unat idx \<and> wp_entry_ensure_locked mem (ucast idx) wi = Some (None, wi)) \<or>
    (\<exists>a. wp_entry_ensure_locked mem (ucast idx) wi = Some (Some (unat idx), wi\<lparr>wi_chunks := Some a\<rparr>) \<and> unat idx < length a \<and>
      table_ok xxh64 D own vol (Some a))"
proof (cases "unat idx < dedup_chunk_count wi")
  case True
  then obtain a where a: "wi_chunks wi = Some a" by (auto simp: dedup_chunk_count_def split: option.splits)
  then have "wi\<lparr>wi_chunks := Some a\<rparr> = wi" by simp
  then show ?thesis using True idx ok a
    by (intro disjI2 exI [of _ a]) (simp add: wp_entry_ensure_locked_def ucast_idx dedup_chunk_count_def)
next
  case False
  let ?old = "case wi_chunks wi of Some a \<Rightarrow> a | None \<Rightarrow> []"
  let ?a = "?old @ replicate (unat idx + 1 - length ?old) zero_entry"
  have old: "length ?old \<le> unat idx" using False by (simp add: dedup_chunk_count_def split: option.splits)
  show ?thesis
  proof (cases "(ucast idx :: u32) + 1 > 4096 \<or> \<not> mem")
    case True
    then show ?thesis using False idx by (auto simp: wp_entry_ensure_locked_def ucast_idx Let_def)
  next
    case small: False
    then have "unat idx + 1 \<le> 4096" using ucast_idx(4) [OF idx] by (simp add: word_le_nat_alt not_less)
    moreover have "\<forall>i < unat idx + 1. entry_ok xxh64 D own vol i (?a ! i)"
      using ok by (auto simp: table_ok_def nth_append entry_ok_def zero_entry_def split: option.splits)
    ultimately have "table_ok xxh64 D own vol (Some ?a)" using old by (simp add: table_ok_def)
    then show ?thesis using False small idx old
      by (intro disjI2 exI [of _ ?a]) (simp add: wp_entry_ensure_locked_def ucast_idx Let_def)
  qed
qed

lemma table_ok_upd:
  assumes "table_ok xxh64 D own vol (Some a)" "k < length a" "entry_ok xxh64 D own vol' k e"
    "\<And>i. i < length a \<Longrightarrow> i \<noteq> k \<Longrightarrow> vol' (fst own, snd own + of_nat i) = vol (fst own, snd own + of_nat i)"
  shows "table_ok xxh64 D own vol' (Some (a[k := e]))"
proof -
  have "entry_ok xxh64 D own vol' i (a[k := e] ! i)" if "i < length a" for i
    using that assms by (cases "i = k") (simp_all add: table_ok_def entry_ok_def)
  then show ?thesis using assms(1) by (simp add: table_ok_def)
qed

definition no_outs :: wp_outs where
  "no_outs = \<lparr>wo_needle_id = Some 0, wo_volume_id = Some 0, wo_xxh = Some 0, wo_gen = Some 0\<rparr>"

lemma check_step:
  assumes idx: "(idx :: u64) < 0xFFFFFFFF" and en: "powerfs_write_predict_is_enabled wi" and data: "data \<noteq> []"
    and ok: "table_ok xxh64 D (own_slots wi) vol (wi_chunks wi)"
  obtains hit outs wi' where
    "powerfs_write_predict_check_hit xxh64 mem (ucast idx) (Some data) no_outs wi = Some (hit, outs, wi')" "same_file wi wi'"
    "table_ok xxh64 D (own_slots wi) vol (wi_chunks wi')"
    "hit \<Longrightarrow> wi' = wi \<and> vol (wi_volume_id wi, wi_file_key wi + idx) \<in> D \<and>
      xxh64 (vol (wi_volume_id wi, wi_file_key wi + idx)) = xxh64 data"
    "\<not> hit \<Longrightarrow> not_valid (unat idx) wi' \<and> (\<exists>x g. wo_xxh outs = Some x \<and> wo_gen outs = Some g \<and>
      (g \<noteq> 0 \<longrightarrow> x = xxh64 data \<and> wi_volume_id wi \<noteq> 0 \<and> wi_file_key wi + idx \<noteq> 0))"
proof -
  let ?n = "wi_file_key wi + idx" and ?v = "wi_volume_id wi"
  note defs = powerfs_write_predict_check_hit_def ucast_idx(1) [OF idx] Let_def en data
  have same: "same_file wi wi" "same_file wi (wi\<lparr>wi_chunks := ch\<rparr>)" for ch
    using en by (simp_all add: same_file_def powerfs_write_predict_is_enabled_def)
  have at: "entry_ok xxh64 D (own_slots wi) vol (unat idx) (a ! unat idx)" if "wi_chunks wi = Some a" "unat idx < length a" for a
    using ok that by (simp add: table_ok_def)
  consider (untracked) "?n = 0 \<or> ?v = 0" | (hit) "?n \<noteq> 0" "?v \<noteq> 0" "wp_entry_hit ?n ?v (xxh64 data) (ucast idx) wi"
    | (miss) "?n \<noteq> 0" "?v \<noteq> 0" "\<not> wp_entry_hit ?n ?v (xxh64 data) (ucast idx) wi" by blast
  then show thesis
  proof cases
    case untracked
    then have "powerfs_write_predict_check_hit xxh64 mem (ucast idx) (Some data) no_outs wi = Some (False, no_outs, wi)"
      by (auto simp: defs)
    moreover have "not_valid (unat idx) wi" using untracked at
      by (auto simp: not_valid_def entry_ok_def ucast_idx(5) [OF idx] split: option.splits)
    ultimately show thesis using that [of False no_outs wi] same(1) ok by (simp add: no_outs_def)
  next
    case hit
    then have "\<exists>outs. powerfs_write_predict_check_hit xxh64 mem (ucast idx) (Some data) no_outs wi = Some (True, outs, wi)"
      by (auto simp: defs)
    moreover have "vol (?v, ?n) \<in> D \<and> xxh64 (vol (?v, ?n)) = xxh64 data"
      using hit(3) at
      by (auto simp: wp_entry_hit_def entry_ok_def Let_def ucast_idx(2,5) [OF idx] split: option.splits)
    ultimately show thesis using that same(1) ok by blast
  next
    case miss
    from ensure_step [OF idx ok, of mem] show thesis
    proof
      assume n: "dedup_chunk_count wi \<le> unat idx \<and> wp_entry_ensure_locked mem (ucast idx) wi = Some (None, wi)"
      then have "powerfs_write_predict_check_hit xxh64 mem (ucast idx) (Some data) no_outs wi = Some (False, no_outs, wi)"
        using miss by (simp add: defs)
      moreover have "not_valid (unat idx) wi" using n
        by (auto simp: not_valid_def dedup_chunk_count_def split: option.splits)
      ultimately show thesis using that [of False no_outs wi] same(1) ok by (simp add: no_outs_def)
    next
      assume "\<exists>a. wp_entry_ensure_locked mem (ucast idx) wi = Some (Some (unat idx), wi\<lparr>wi_chunks := Some a\<rparr>) \<and> unat idx < length a \<and>
        table_ok xxh64 D (own_slots wi) vol (Some a)"
      then obtain a where a: "wp_entry_ensure_locked mem (ucast idx) wi = Some (Some (unat idx), wi\<lparr>wi_chunks := Some a\<rparr>)"
        "unat idx < length a" "table_ok xxh64 D (own_slots wi) vol (Some a)" by blast
      let ?e = "(a ! unat idx)\<lparr>e_gen := e_gen (a ! unat idx) + 1, e_chunk_idx := ucast idx, e_needle_id := ?n,
        e_volume_id := ?v, e_size := POWERFS_CHUNK_SIZE, e_fp_xxh := xxh64 data, e_fp_valid := False\<rparr>"
      let ?w = "wi\<lparr>wi_chunks := Some (a[unat idx := ?e])\<rparr>"
      have "\<exists>outs g. powerfs_write_predict_check_hit xxh64 mem (ucast idx) (Some data) no_outs wi = Some (False, outs, ?w) \<and>
          wo_xxh outs = Some (xxh64 data) \<and> wo_gen outs = Some g"
        using miss a(1,2) by (simp add: defs no_outs_def set_out_def)
      moreover have "table_ok xxh64 D (own_slots wi) vol (Some (a[unat idx := ?e]))"
        by (rule table_ok_upd [OF a(3,2)]) (simp_all add: entry_ok_def)
      moreover have "not_valid (unat idx) ?w" using a(2) by (simp add: not_valid_def)
      ultimately show thesis using that [of False _ ?w] same(2) miss by fastforce
    qed
  qed
qed

lemma slot_neq:
  assumes "i < 4096" "(idx :: u64) < 0xFFFFFFFF" "i \<noteq> unat idx"
  shows "(k :: u64) + of_nat i \<noteq> k + idx"
proof
  assume "k + of_nat i = k + idx"
  then have "(of_nat i :: u64) = idx" by simp
  then have "unat (of_nat i :: u64) = unat idx" by simp
  then show False using assms(1,3) by (simp add: unat_of_nat_small)
qed

lemma done_step:
  assumes idx: "(idx :: u64) < 0xFFFFFFFF" and data: "data \<in> D" and ok: "table_ok xxh64 D (own_slots wi) vol (wi_chunks wi)"
    and nv: "not_valid (unat idx) wi"
    and prov: "g \<noteq> 0 \<Longrightarrow> x = xxh64 data \<and> wi_volume_id wi \<noteq> 0 \<and> wi_file_key wi + idx \<noteq> 0"
    and w: "wb_write_done e idx data x g wi vol = (err, wi', vol')"
  shows "same_file wi wi'" "table_ok xxh64 D (own_slots wi) vol' (wi_chunks wi')"
    "err = 0 \<Longrightarrow> vol' (wi_volume_id wi, wi_file_key wi + idx) = data"
proof -
  let ?s = "(wi_volume_id wi, wi_file_key wi + idx)"
  have keep: "table_ok xxh64 D (own_slots wi) (vol(?s := d)) (wi_chunks wi)" for d
  proof (cases "wi_chunks wi")
    case (Some a)
    have "entry_ok xxh64 D (own_slots wi) (vol(?s := d)) i (a ! i)" if "i < length a" for i
      using that ok nv Some slot_neq [OF _ idx, of i "wi_file_key wi"]
      by (cases "i = unat idx") (simp_all add: table_ok_def not_valid_def entry_ok_def)
    then show ?thesis using ok Some by (simp add: table_ok_def)
  qed (simp add: table_ok_def)
  show "err = 0 \<Longrightarrow> vol' ?s = data" using w by (auto simp: wb_write_done_def Let_def split: if_splits)
  have c: "table_ok xxh64 D (own_slots wi) (vol(?s := data))
      (wi_chunks (powerfs_write_predict_commit (ucast idx) (wi_file_key wi + idx) (wi_volume_id wi) x g wi))" if "g \<noteq> 0"
  proof (cases "wi_chunks wi")
    case (Some a)
    have "table_ok xxh64 D (own_slots wi) (vol(?s := data)) (Some (a[unat idx := (a ! unat idx)\<lparr>e_fp_valid := True\<rparr>]))"
      if "unat idx < length a" "e_fp_xxh (a ! unat idx) = x"
      using prov [OF \<open>g \<noteq> 0\<close>] data that
      by (intro table_ok_upd [OF keep [of data, unfolded Some]]) (simp_all add: entry_ok_def ucast_idx(5) [OF idx])
    then show ?thesis using keep [of data] Some
      by (auto simp: powerfs_write_predict_commit_def ucast_idx(2) [OF idx] Let_def)
  qed (simp add: powerfs_write_predict_commit_def table_ok_def)
  show "same_file wi wi'" "table_ok xxh64 D (own_slots wi) vol' (wi_chunks wi')"
    using w keep c by (auto simp: wb_write_done_def same_file_def powerfs_write_predict_commit_def
        powerfs_write_predict_is_enabled_def Let_def split: if_splits option.splits)
qed

lemma write_step:
  assumes idx: "(idx :: u64) < 0xFFFFFFFF" and en: "powerfs_write_predict_is_enabled wi" and data: "data \<noteq> []" "data \<in> D"
    and inj: "inj_on xxh64 D" and ok: "table_ok xxh64 D (own_slots wi) vol (wi_chunks wi)"
  obtains err wi' vol' where "powerfs_wb_write_direct xxh64 e idx data wi vol = Some (err, wi', vol')" "same_file wi wi'"
    "table_ok xxh64 D (own_slots wi) vol' (wi_chunks wi')" "err = 0 \<Longrightarrow> vol' (wi_volume_id wi, wi_file_key wi + idx) = data"
proof (cases rule: check_step [OF idx en data(1) ok, of "we_mem e"])
  case (1 hit outs wi')
  have w: "powerfs_wb_write_direct xxh64 e idx data wi vol = (if hit then Some (0, wi', vol)
      else Some (wb_write_done e idx data (the (wo_xxh outs)) (the (wo_gen outs)) wi' vol))"
    using en 1(1) by (simp add: powerfs_wb_write_direct_def no_outs_def Let_def)
  have own: "own_slots wi' = own_slots wi" using 1(2) by (simp add: same_file_def)
  show thesis
  proof (cases hit)
    case True
    then have "vol (wi_volume_id wi, wi_file_key wi + idx) = data" using 1(4) data(2) inj by (auto dest: inj_onD)
    then show thesis using that [of 0 wi' vol] True w 1(2,3) by simp
  next
    case False
    obtain err w2 v2 where d: "wb_write_done e idx data (the (wo_xxh outs)) (the (wo_gen outs)) wi' vol = (err, w2, v2)"
      by (metis prod_cases3)
    have p: "the (wo_gen outs) \<noteq> 0 \<Longrightarrow> the (wo_xxh outs) = xxh64 data \<and> wi_volume_id wi' \<noteq> 0 \<and> wi_file_key wi' + idx \<noteq> 0"
      using 1(5) [OF False] own by auto
    from done_step [where ?xxh64.0 = xxh64, OF idx data(2) _ _ p d] 1(3,5) False own have
      "same_file wi' w2" "table_ok xxh64 D (own_slots wi) v2 (wi_chunks w2)"
      "err = 0 \<Longrightarrow> v2 (wi_volume_id wi, wi_file_key wi + idx) = data" by auto
    then show thesis using that [of err w2 v2] False w d 1(2) by (simp add: same_file_def)
  qed
qed

lemma writes_step:
  assumes "inj_on xxh64 D"
  shows "powerfs_write_predict_is_enabled wi \<Longrightarrow> table_ok xxh64 D (own_slots wi) vol (wi_chunks wi) \<Longrightarrow>
    \<forall>(e, idx, data) \<in> set ws. idx < 0xFFFFFFFF \<and> data \<noteq> [] \<and> data \<in> D \<Longrightarrow>
    \<exists>wi' vol'. wb_writes xxh64 ws wi vol = Some (wi', vol') \<and> same_file wi wi' \<and>
      table_ok xxh64 D (own_slots wi) vol' (wi_chunks wi')"
proof (induction ws arbitrary: wi vol)
  case Nil
  then show ?case by (simp add: same_file_def)
next
  case (Cons w ws)
  obtain e idx data where w: "w = (e, idx, data)" by (cases w)
  with Cons.prems have "idx < 0xFFFFFFFF" "data \<noteq> []" "data \<in> D" by auto
  then obtain err wi1 vol1 where 1: "powerfs_wb_write_direct xxh64 e idx data wi vol = Some (err, wi1, vol1)" "same_file wi wi1"
    "table_ok xxh64 D (own_slots wi) vol1 (wi_chunks wi1)"
    using write_step [OF _ Cons.prems(1) _ _ assms Cons.prems(2)] by metis
  then have "own_slots wi1 = own_slots wi" "powerfs_write_predict_is_enabled wi1" using Cons.prems(1) by (simp_all add: same_file_def)
  then show ?case using Cons.IH [of wi1 vol1] Cons.prems(3) 1 w by (auto simp: same_file_def)
qed


definition wp_env0 :: wp_write_env where
  "wp_env0 = \<lparr>we_srv = (\<lambda>_ _ _. (0, [])), we_mem = True, we_shards = 4, we_parents = [], we_waited = None, we_err = 0, we_after = []\<rparr>"

definition wp_inode0 :: wp_inode where
  "wp_inode0 = \<lparr>wi_ino = 7, wi_file_key = 1000, wi_volume_id = 3, wi_enabled = True, wi_cached = True, wi_querying = False,
    wi_chunks = None, wi_pending = [], wi_pending_cnt = 0, wi_map_dirty = False\<rparr>"

definition sum_hash :: "bytes \<Rightarrow> u64" where
  "sum_hash bs = fold (\<lambda>b h. h * 256 + ucast b) bs 0"


section \<open>Writes that bypass the table\<close>



section \<open>Registering fingerprints\<close>

text \<open>The works that send fingerprints to the filer, of all inodes of the module: a queue, the count of works in flight, and
  per inode the works by chunk. A work is known by a number; an inode by an index.\<close>

record wp_work =
  ww_inode :: nat
  ww_needle_id :: u64
  ww_volume_id :: u64
  ww_chunk_idx :: u64
  ww_offset :: u64
  ww_crc32 :: u32
  ww_data :: bytes

record wp_sys =
  ws_ready :: bool
  ws_record_seq :: u32
  ws_inflight :: int
  ws_inodes :: "nat \<Rightarrow> wp_inode"
  ws_queue :: "(nat \<times> wp_work) list"
  ws_next :: nat

abbreviation WP_INFLIGHT_MAX :: int where "WP_INFLIGHT_MAX \<equiv> 256"
abbreviation WP_PER_INODE_MAX :: u32 where "WP_PER_INODE_MAX \<equiv> 32"

definition wp_full :: "nat \<Rightarrow> wp_sys \<Rightarrow> bool" where
  "wp_full i sys = (wi_pending_cnt (ws_inodes sys i) \<ge> WP_PER_INODE_MAX \<or> ws_inflight sys \<ge> WP_INFLIGHT_MAX)"

text \<open>The allocations of the entry in the order of the code: the work, the copy of the data, the inode reference and the
  node of the index. The sample counter is a signed integer that wraps, and the remainder has the sign of the counter.\<close>

definition wp_sampled :: "u32 \<Rightarrow> bool" where
  "wp_sampled seq = (sint seq smod 8 = 1)"

definition powerfs_write_predict_lookup_record_async ::
  "(bytes \<Rightarrow> u32) \<Rightarrow> (nat \<Rightarrow> bool) \<Rightarrow> nat \<Rightarrow> u64 \<Rightarrow> u64 \<Rightarrow> u64 \<Rightarrow> u64 \<Rightarrow> bytes option \<Rightarrow> wp_sys \<Rightarrow> wp_sys" where
  "powerfs_write_predict_lookup_record_async crc32_le mem i nid vid chunk_idx offset data sys =
    (if data = None \<or> data = Some [] then sys
     else if \<not> ws_ready sys then sys
     else
       let sys = sys\<lparr>ws_record_seq := ws_record_seq sys + 1\<rparr>
       in if \<not> wp_sampled (ws_record_seq sys) then sys
          else if wp_full i sys then sys
          else if \<not> mem 0 \<or> \<not> mem 1 \<or> \<not> mem 2 then sys
          else
            let lw = \<lparr>ww_inode = i, ww_needle_id = nid, ww_volume_id = vid, ww_chunk_idx = chunk_idx, ww_offset = offset,
                  ww_crc32 = crc32_le (the data), ww_data = the data\<rparr>;
                wi = ws_inodes sys i
            in if \<not> wp_full i sys \<and> map_of (wi_pending wi) chunk_idx = None \<and> mem 3
               then sys\<lparr>ws_inodes := (ws_inodes sys)(i := wi\<lparr>wi_pending := (chunk_idx, ws_next sys) # wi_pending wi,
                          wi_pending_cnt := wi_pending_cnt wi + 1\<rparr>),
                        ws_inflight := ws_inflight sys + 1, ws_queue := ws_queue sys @ [(ws_next sys, lw)],
                        ws_next := ws_next sys + 1\<rparr>
               else sys)"

definition wp_record_body :: "bytes \<Rightarrow> wp_work \<Rightarrow> bytes" where
  "wp_record_body fp lw =
    (let prefix = wr_bytes 0 (take 64 (ww_data lw)) (replicate 64 0)
     in fp @ le64 (ww_needle_id lw) @ le64 (ww_volume_id lw) @ le32 (ww_crc32 lw) @ le64 (of_nat (length (ww_data lw))) @ prefix)"

text \<open>One work off the queue: the request it sends, if any, and the bookkeeping. \<open>sha256\<close> is \<open>None\<close> when the hash fails.\<close>

definition powerfs_wp_lookup_worker ::
  "(bytes \<Rightarrow> bytes option) \<Rightarrow> nat \<times> wp_work \<Rightarrow> wp_sys \<Rightarrow> bytes option \<times> wp_sys" where
  "powerfs_wp_lookup_worker sha256 w sys =
    (case w of
       (k, lw) \<Rightarrow>
         let sent = (if ww_data lw = [] then None else map_option (\<lambda>fp. wp_record_body fp lw) (sha256 (ww_data lw)));
             wi = ws_inodes sys (ww_inode lw);
             mine = (map_of (wi_pending wi) (ww_chunk_idx lw) = Some k);
             wi = wi\<lparr>wi_pending := filter (\<lambda>p. fst p \<noteq> ww_chunk_idx lw) (wi_pending wi),
                     wi_pending_cnt := (if mine then wi_pending_cnt wi - 1 else wi_pending_cnt wi)\<rparr>
         in (sent, sys\<lparr>ws_inodes := (ws_inodes sys)(ww_inode lw := wi), ws_inflight := ws_inflight sys - 1\<rparr>))"

datatype wp_op = Record "nat \<Rightarrow> bool" nat u64 u64 u64 u64 "bytes option" | Work nat

fun wp_exec :: "(bytes \<Rightarrow> u32) \<Rightarrow> (bytes \<Rightarrow> bytes option) \<Rightarrow> wp_op \<Rightarrow> wp_sys \<Rightarrow> wp_sys" where
  "wp_exec crc sha (Record mem i nid vid c off data) sys = powerfs_write_predict_lookup_record_async crc mem i nid vid c off data sys"
| "wp_exec crc sha (Work j) sys =
    (if j < length (ws_queue sys)
     then snd (powerfs_wp_lookup_worker sha (ws_queue sys ! j) (sys\<lparr>ws_queue := take j (ws_queue sys) @ drop (Suc j) (ws_queue sys)\<rparr>))
     else sys)"

text \<open>The works of an inode in the queue are the ones of its index, each chunk has at most one, and the counters count them.\<close>

definition works_of :: "nat \<Rightarrow> (nat \<times> wp_work) list \<Rightarrow> (u64 \<times> nat) list" where
  "works_of i q = map (\<lambda>(k, lw). (ww_chunk_idx lw, k)) (filter (\<lambda>(k, lw). ww_inode lw = i) q)"

lemma works_of_append [simp]: "works_of i (q @ r) = works_of i q @ works_of i r"
  by (simp add: works_of_def)

lemma works_of_Cons [simp]: "works_of i ((k, lw) # q) = (if ww_inode lw = i then [(ww_chunk_idx lw, k)] else []) @ works_of i q"
  "works_of i [] = []"
  by (simp_all add: works_of_def)

definition wp_inv :: "wp_sys \<Rightarrow> bool" where
  "wp_inv sys \<longleftrightarrow> ws_inflight sys = int (length (ws_queue sys)) \<and>
    (\<forall>(k, lw) \<in> set (ws_queue sys). k < ws_next sys) \<and> distinct (map fst (ws_queue sys)) \<and>
    (\<forall>i. mset (wi_pending (ws_inodes sys i)) = mset (works_of i (ws_queue sys)) \<and> distinct (map fst (wi_pending (ws_inodes sys i))) \<and>
      unat (wi_pending_cnt (ws_inodes sys i)) = length (wi_pending (ws_inodes sys i)) \<and> length (wi_pending (ws_inodes sys i)) \<le> 32)"

lemma record_inv:
  assumes inv: "wp_inv sys"
  shows "wp_inv (powerfs_write_predict_lookup_record_async crc mem i nid vid c off data sys)"
proof -
  let ?s = "sys\<lparr>ws_record_seq := ws_record_seq sys + 1\<rparr>" and ?wi = "ws_inodes sys i"
  have s: "wp_inv ?s" using inv by (simp add: wp_inv_def)
  let ?w = "\<lparr>ww_inode = i, ww_needle_id = nid, ww_volume_id = vid, ww_chunk_idx = c, ww_offset = off,
    ww_crc32 = crc (the data), ww_data = the data\<rparr>"
  let ?a = "?s\<lparr>ws_inodes := (ws_inodes sys)(i := ?wi\<lparr>wi_pending := (c, ws_next sys) # wi_pending ?wi,
      wi_pending_cnt := wi_pending_cnt ?wi + 1\<rparr>), ws_inflight := ws_inflight sys + 1,
      ws_queue := ws_queue sys @ [(ws_next sys, ?w)], ws_next := ws_next sys + 1\<rparr>"
  have add: "wp_inv ?a" if free: "\<not> wp_full i ?s" "map_of (wi_pending ?wi) c = None"
  proof -
    have lt: "unat (wi_pending_cnt ?wi) < 32" using free(1) by (simp add: wp_full_def word_less_nat_alt not_le)
    have u: "unat (wi_pending_cnt ?wi + 1) = unat (wi_pending_cnt ?wi) + 1"
      using lt by (subst unat_add_lem [THEN iffD1]) simp_all
    have "c \<notin> fst ` set (wi_pending ?wi)" using free(2) by (simp add: map_of_eq_None_iff)
    then show ?thesis using inv lt u by (auto simp: wp_inv_def)
  qed
  show ?thesis using inv s add
    by (auto simp: powerfs_write_predict_lookup_record_async_def Let_def)
qed

lemma filter_key:
  assumes "distinct (map fst ps)" "(c, k) \<in> set ps"
  shows "mset (filter (\<lambda>p. fst p \<noteq> c) ps) = mset ps - {#(c, k)#}" "length (filter (\<lambda>p. fst p \<noteq> c) ps) = length ps - 1"
proof -
  obtain xs ys where ps: "ps = xs @ (c, k) # ys" using assms(2) by (auto dest: split_list)
  then have "c \<notin> fst ` set xs" "c \<notin> fst ` set ys" using assms(1) by auto
  then have "filter (\<lambda>p. fst p \<noteq> c) xs = xs" "filter (\<lambda>p. fst p \<noteq> c) ys = ys" by (auto simp: filter_id_conv)
  then show "mset (filter (\<lambda>p. fst p \<noteq> c) ps) = mset ps - {#(c, k)#}" "length (filter (\<lambda>p. fst p \<noteq> c) ps) = length ps - 1"
    by (simp_all add: ps)
qed

lemma fp_work_inv:
  assumes inv: "wp_inv sys" and j: "j < length (ws_queue sys)"
  shows "wp_inv (snd (powerfs_wp_lookup_worker sha (ws_queue sys ! j)
    (sys\<lparr>ws_queue := take j (ws_queue sys) @ drop (Suc j) (ws_queue sys)\<rparr>)))"
proof -
  define A B where "A = take j (ws_queue sys)" and "B = drop (Suc j) (ws_queue sys)"
  obtain k lw where w: "ws_queue sys ! j = (k, lw)" by fastforce
  have q: "ws_queue sys = A @ (k, lw) # B" using id_take_nth_drop [OF j] w by (simp add: A_def B_def)
  let ?i = "ww_inode lw" and ?c = "ww_chunk_idx lw" and ?p = "\<lambda>i. wi_pending (ws_inodes sys i)"
  have I: "mset (?p i) = mset (works_of i (A @ (k, lw) # B))" "distinct (map fst (?p i))" "length (?p i) \<le> 32"
    "unat (wi_pending_cnt (ws_inodes sys i)) = length (?p i)" for i
    using inv q by (simp_all add: wp_inv_def)
  have "(?c, k) \<in># mset (?p ?i)" unfolding I(1) by simp
  then have m: "(?c, k) \<in> set (?p ?i)" by simp
  then have mine: "map_of (?p ?i) ?c = Some k" using I(2) by (simp add: map_of_eq_Some_iff)
  have pos: "0 < length (?p ?i)" using m by (cases "?p ?i") simp_all
  have cnt: "unat (wi_pending_cnt (ws_inodes sys ?i) - 1) = length (?p ?i) - 1"
    using pos I(4) [of ?i] by (subst unat_minus_one) (auto simp: unat_eq_0)
  note f = filter_key [OF I(2) m]
  have ms: "mset (?p ?i) - {#(?c, k)#} = mset (works_of ?i (A @ B))" unfolding I(1) by simp
  have d: "distinct (map fst (A @ B))" "\<forall>(k, lw) \<in> set (A @ B). k < ws_next sys" "ws_inflight sys - 1 = int (length (A @ B))"
    using inv q by (auto simp: wp_inv_def)
  let ?wi = "(ws_inodes sys ?i)\<lparr>wi_pending := filter (\<lambda>p. fst p \<noteq> ?c) (?p ?i),
    wi_pending_cnt := wi_pending_cnt (ws_inodes sys ?i) - 1\<rparr>"
  have per: "mset (wi_pending (((ws_inodes sys)(?i := ?wi)) i)) = mset (works_of i (A @ B)) \<and>
      distinct (map fst (wi_pending (((ws_inodes sys)(?i := ?wi)) i))) \<and>
      unat (wi_pending_cnt (((ws_inodes sys)(?i := ?wi)) i)) = length (wi_pending (((ws_inodes sys)(?i := ?wi)) i)) \<and>
      length (wi_pending (((ws_inodes sys)(?i := ?wi)) i)) \<le> 32" for i
  proof (cases "i = ?i")
    case True
    then show ?thesis using f ms cnt I(2,3) [of ?i] by (simp add: distinct_map_filter)
  next
    case False
    then show ?thesis using I [of i] by simp
  qed
  have "snd (powerfs_wp_lookup_worker sha (ws_queue sys ! j)
      (sys\<lparr>ws_queue := take j (ws_queue sys) @ drop (Suc j) (ws_queue sys)\<rparr>)) =
      sys\<lparr>ws_queue := A @ B, ws_inodes := (ws_inodes sys)(?i := ?wi), ws_inflight := ws_inflight sys - 1\<rparr>"
    using mine by (simp add: powerfs_wp_lookup_worker_def w A_def B_def Let_def)
  then show ?thesis unfolding wp_inv_def using d per by simp
qed

interpretation wp: op_machine "wp_exec crc sha" "\<lambda>_ _. True" wp_inv for crc sha
proof
  fix sys a
  assume "wp_inv sys"
  then show "wp_inv (wp_exec crc sha a sys)" by (cases a) (simp_all add: record_inv fp_work_inv)
qed


definition wp_sys0 :: wp_sys where
  "wp_sys0 = \<lparr>ws_ready = True, ws_record_seq = 0, ws_inflight = 0, ws_inodes = (\<lambda>_. wp_inode0), ws_queue = [], ws_next = 0\<rparr>"


text \<open>One of eight whole-chunk writes is registered, until the counter of the writes has passed its largest value: for the
  next two thousand million writes the remainder is never one and nothing is registered.\<close>

theorem record_sampling: "wp_sampled seq \<longleftrightarrow> 0 \<le> sint seq \<and> unat seq mod 8 = 1"
proof (cases "0 \<le> sint seq")
  case True
  then have "uint seq = sint seq"
    using uint_sint [of seq] sint_lt [of seq] by (simp add: take_bit_int_eq_self)
  moreover have "(int n mod 8 = 1) = (n mod 8 = 1)" for n :: nat by presburger
  from this [of "unat seq"] have "(uint seq mod 8 = 1) = (unat seq mod 8 = 1)" by simp
  ultimately show ?thesis using True
    by (cases "sint seq = 0") (simp_all add: wp_sampled_def smod_int_alt_def sgn_if)
next
  case False
  have "0 \<le> \<bar>sint seq\<bar> mod 8" by simp
  then show ?thesis using False by (simp add: wp_sampled_def smod_int_alt_def)
qed

section \<open>Parsing the policy\<close>

definition is_digit :: "u8 \<Rightarrow> bool" where "is_digit c \<longleftrightarrow> 48 \<le> c \<and> c \<le> 57"

definition dec_val :: "bytes \<Rightarrow> nat" where "dec_val ds = foldl (\<lambda>n c. n * 10 + unat (c - 48)) 0 ds"

lemma parse_digits_append:
  assumes "\<not> is_digit c"
  shows "list_all is_digit ds \<Longrightarrow> parse_digits (of_nat n) seen (ds @ c # r) =
    (of_nat (foldl (\<lambda>n c. n * 10 + unat (c - 48)) n ds), seen \<or> ds \<noteq> [], c # r)"
proof (induction ds arbitrary: n seen)
  case Nil
  then show ?case using assms by (auto simp: is_digit_def)
next
  case (Cons d ds)
  have "(of_nat n * 10 + ucast (d - 48) :: u32) = of_nat (n * 10 + unat (d - 48))" by simp
  then show ?case using Cons by (simp add: is_digit_def del: of_nat_add of_nat_mult)
qed

lemma parse_digits_val:
  "list_all is_digit ds \<Longrightarrow> \<not> is_digit c \<Longrightarrow> parse_digits 0 seen (ds @ c # r) = (of_nat (dec_val ds), seen \<or> ds \<noteq> [], c # r)"
  using parse_digits_append [of c ds 0 seen r] by (simp add: dec_val_def)

lemma sint_small: "n < 2 ^ 31 \<Longrightarrow> sint (of_nat n :: u32) = int n"
proof -
  assume n: "n < 2 ^ 31"
  have "sint (word_of_int (int n) :: u32) = signed_take_bit 31 (int n)" by (simp only: sint_sbintrunc') simp
  also have "\<dots> = int n" using n by (intro signed_take_bit_int_eq_self) simp_all
  finally show ?thesis by simp
qed

lemma number_head:
  assumes "list_all is_digit a"
  obtains c s where "a @ 46 # r = c # s" "46 \<le> (c :: u8)" "c \<le> 57"
proof (cases a)
  case Nil
  then show thesis using that [of 46 r] by simp
next
  case (Cons c s)
  then have "48 \<le> c" "c \<le> 57" using assms by (simp_all add: is_digit_def)
  moreover have "(46 :: u8) \<le> 48" by simp
  ultimately have "46 \<le> c" by (rule_tac order_trans)
  then show thesis using that [of c "s @ 46 # r"] Cons \<open>c \<le> 57\<close> by simp
qed

lemma head_class:
  assumes "46 \<le> (c :: u8)" "c \<le> 57"
  shows "c \<noteq> 32" "c \<noteq> 9" "c \<noteq> 45" "c \<noteq> 43" "to_lower c = c" "c \<noteq> 111" "c \<noteq> 110" "c \<noteq> 114"
  using assms by (auto simp: to_lower_def word_le_nat_alt)

lemma number_parsed:
  assumes dig: "list_all is_digit a" "list_all is_digit b" "a \<noteq> [] \<or> b \<noteq> []"
    and small: "dec_val a < 2 ^ 31" "dec_val b < 2 ^ 31"
  shows "parse_threshold_number (a @ 46 # b @ [0]) \<longleftrightarrow> dec_val a > 0 \<or> dec_val b > 0"
proof -
  obtain c s where cs: "a @ 46 # b @ [0] = c # s" "46 \<le> c" "c \<le> 57" by (rule number_head [OF dig(1)])
  then have h: "hd (a @ 46 # b @ [0]) \<noteq> 45" "hd (a @ 46 # b @ [0]) \<noteq> 43" using head_class [OF cs(2,3)] by simp_all
  have "\<not> is_digit 46" "\<not> is_digit 0" by (simp_all add: is_digit_def)
  then have p: "parse_digits 0 False (a @ 46 # b @ [0]) = (of_nat (dec_val a), a \<noteq> [], 46 # b @ [0])"
    "parse_digits 0 (a \<noteq> []) (b @ [0]) = (of_nat (dec_val b), a \<noteq> [] \<or> b \<noteq> [], [0])"
    using dig parse_digits_val [of a 46 False "b @ [0]"] parse_digits_val [of b 0 "a \<noteq> []" "[]"] by simp_all
  show ?thesis unfolding parse_threshold_number_def Let_def
    using h dig(3) small by (simp only: p if_False prod.case list.sel refl if_True simp_thms sint_small of_nat_0_less_iff)
qed



end
