(* ===== verification/Spec2Isabelle.thy ===== *)
theory Spec2Isabelle
  imports ShardMap Frame ErasureCode Flow LayoutParse Rx Requests CapsClient NetData Tlk LeaseCache WritePredict
begin

text \<open>
  Verification of the PowerFS kernel client, the file system module under \<open>src/powerfs_mod\<close>.

  \<^bold>\<open>The program.\<close> A mounted client talks to three kinds of servers. The filers hold the metadata, split into shards by
  inode number, and each shard has one leader among the filers. The volume servers hold the data as needles, blobs of up
  to one chunk. The masters only answer the discovery and the statistics of the file system. A metadata call encodes
  its request as a TLV body, finds the shard of the inode and submits the request: the submission chooses the filer that
  is believed to lead the shard, waits for a reply, and follows redirects. A connection sends a frame, a header of 28
  bytes protected by a checksum followed by a body and data, keeps the request in the tree of requests in flight, and a
  receive work reassembles the frames of the socket and completes the request with the same sequence number. The data
  path asks the layout of the inode for the volume and the needle of a chunk and sends needle requests over volume
  connections, which the flow controller admits. Capabilities say what a client may cache of an inode; the filers recall
  them with notifications, and the client flushes what is dirty before it gives them back.

  \<^bold>\<open>Theories, bottom up.\<close>

  \<^item> \<open>Prelude\<close>: the C integer types, the errno values, byte order conversion, writes into arrays, and the locale
    \<open>op_machine\<close>, a state machine with an invariant that every operation keeps; \<open>Flow\<close>, \<open>Requests\<close>, \<open>CapsInv\<close> and \<open>Route\<close>
    interpret it on their operations, and the invariants of those components come from the interpretations.
  \<^item> \<open>Tlv\<close>: the codec of \<open>powerfs_tlv.c\<close>. An encoder or decoder is a record of buffer, position and sticky error as in
    the code. The locale \<open>tlv_scalar\<close> is the contract of a scalar field, interpreted for the four widths; a message that
    fits is decoded to what was encoded, nothing is written outside the buffer, and the find functions read only the
    value of the field.
  \<^item> \<open>Tlk\<close>: the codec of the lock protocol (\<open>tlk_codec.c\<close>) with round trip and bounds.
  \<^item> \<open>ShardMap\<close> and \<open>Frame\<close>: the range map from inode to shard (sorting, filling, binary search), the checksum by table
    against its bitwise definition, and the frame header of \<open>powerfs_net_shard.c\<close>; every corruption of a single byte of a header is
    detected.
  \<^item> \<open>GF\<close> and \<open>ErasureCode\<close>: \<open>powerfs_ec.c\<close>. The tables that \<open>gf_init\<close> fills give a field (locale \<open>gf_field\<close>,
    interpreted on the table operations); inversion of a matrix is correct, and decoding gives back the data from any
    sufficient set of shards whenever the chosen rows are invertible.
  \<^item> \<open>Flow\<close>: admission, back-pressure and latency average of \<open>powerfs_flow.c\<close>.
  \<^item> \<open>Layout\<close> and \<open>LayoutParse\<close>: the layout part of \<open>powerfs_net_inode.c\<close> and \<open>powerfs_inode.c\<close>: parsing the fields of a
    response, applying them to an inode, locating a chunk; different chunks of a striped file never share a needle.
  \<^item> \<open>Rx\<close>: the resumable reception of frames of \<open>powerfs_net_conn.c\<close>. However the socket cuts the stream, the frames that
    were sent are handed over, in order.
  \<^item> \<open>Requests\<close>: requests in flight (\<open>powerfs_net_req.c\<close>, \<open>powerfs_net_conn.c\<close>): the pending list, the tree by sequence
    number and the transmit queue; whatever happens, a request is completed at most once.
  \<^item> \<open>Route\<close> and \<open>Submit\<close>: the connection pool and the routes of the shards as events on one state, and the loop of
    \<open>powerfs_request_submit\<close>: connecting wakes all parked requests, and the loop reaches the leader.
  \<^item> \<open>Caps\<close>, \<open>CapsInv\<close>, \<open>CapsFlush\<close>, \<open>CapsClient\<close>: \<open>powerfs_caps.c\<close>. \<open>Caps\<close> has the operations, \<open>CapsInv\<close> their
    invariant, \<open>CapsFlush\<close> what a flush and a recall achieve, and \<open>CapsClient\<close> acquisition, renewal, upgrade and shrinker.
  \<^item> \<open>NetLease\<close> and \<open>NetInode\<close>: the remote calls of \<open>powerfs_net_lease.c\<close> and \<open>powerfs_net_inode.c\<close>: for each call the request it
    encodes, where it is sent and what is read from the response.
  \<^item> \<open>NetData\<close>: the data path of \<open>powerfs_net_data.c\<close> over \<open>Layout\<close>, \<open>Flow\<close> and \<open>ErasureCode\<close>: volume connections, needle calls,
    reading and writing. A read returns the bytes of the file that the needles store.
  \<^item> \<open>LeaseCache\<close>: the leases on the stripes of an open inode (\<open>powerfs_lease.c\<close>), on top of the calls of \<open>NetLease\<close>: a write has a
    lease for its stripe, write-back sends the token that was granted, and the renewal work keeps leases alive.
  \<^item> \<open>Xattr\<close>: the calls of \<open>powerfs_net_xattr.c\<close> and the handlers of \<open>powerfs_xattr.c\<close>, a cache in front of the filer: reading
    through the cache refines the lookup at the filer, with the cases in which the cache goes stale.
  \<^item> \<open>WritePredict\<close>: the fingerprints of \<open>powerfs_write_predict.c\<close> and their use in the write-back of whole chunks in
    \<open>powerfs_addr.c\<close>: when skipping a write is sound and when it is not, the works that register fingerprints, again as an
    \<open>op_machine\<close>, and the parser of the policy.

  \<^bold>\<open>Conventions.\<close> A structure is a record with the fields of the code, an enumeration is a datatype or the numbers of the
  header, integers have their width as words wherever the code can wrap. A function returns its result together with the
  changed state; errors are the negative errno values of the code, \<open>None\<close> stands for a NULL pointer or, where it is
  said, for an access outside an object or a division by zero. Code outside the module is a parameter: sockets,
  allocations, the clock, the checksum of the kernel, the rebalancing of the red-black tree, the contents of
  uninitialised memory, and the replies of the servers. What a theorem needs of a parameter is one of its hypotheses, and
  its witness instantiates the parameter. Locks of the kernel are not modelled: an operation that runs under a lock is
  one step, and operations that sleep or drop the lock take what other threads do meanwhile as an argument.

  \<^bold>\<open>Termination.\<close> Loops over arrays and buffers are structural or have a measure. The loop of \<open>powerfs_request_submit\<close> ends at
  the deadline or the retry limit of the code, and the model recurses over the remaining rounds; the reception loop has the
  budget of frames of the code. The reading loop stops because every round that continues copies at least one byte. The
  walk over the names of \<open>powerfs_listxattr\<close> advances by at least one byte per name. The batch of sixteen leases and the ten
  directories of the policy are bounds of the code.

  \<^bold>\<open>Not modelled.\<close>

  \<^item> The RDMA transport, the sockets, the selection of a transport and the discovery of the servers: calls into the network
    stack of the kernel. What they deliver (bytes, connections, errors) is an argument of the definitions above.
  \<^item> The callbacks of the VFS on files, directories, dentries, folios, super blocks and the module (\<open>powerfs_file.c\<close>,
    \<open>powerfs_dir.c\<close>, \<open>powerfs_dentry.c\<close>, \<open>powerfs_addr.c\<close> except for the skipping of writes, \<open>powerfs_super.c\<close>, the rest of
    \<open>powerfs_inode.c\<close>): they move data between structures of the kernel that are not part of the sources. The calls
    they make into capabilities, metadata, data, leases and attributes are modelled.
  \<^item> \<open>powerfs_net_statfs\<close>, which asks the masters over sockets of its own; the lock manager of \<open>powerfs_locks.c\<close>, which is
    switched off in the source, and the stub \<open>lock_client.c\<close>, which is not linked; the set-up of the connection pool, the registry of serializers, and the
    heuristics of the read-ahead.
  \<^item> Memory barriers and the order in which unlocked fields are read; the release of memory.
\<close>

end
